theory Spec2Isabelle
  imports Main
begin

section \<open>Value model\<close>

text \<open>
  A \<open>JsonValue\<close> as the engine sees it at run time. Notifications carry
  \<open>JsonValue | undefined\<close>, and \<open>open\<close> stores whatever it receives into the
  aggregate, so \<open>Undefined\<close> is a constructor of the same type. An object is the list
  of its own properties in \<open>Object.keys\<close> order. Numbers are payload only (the engine
  never computes with them) and are kept as integers.
\<close>

datatype JsonValue =
    Undefined
  | JNull
  | JBool bool
  | JNum int
  | JStr string
  | JArr "JsonValue list"
  | JObj "(string \<times> JsonValue) list"

definition DIRECTORY_VALUE :: JsonValue where
  "DIRECTORY_VALUE = JObj []"

text \<open>
  \<open>isDirectory\<close>: \<open>typeof value === 'object' && value !== null &&
  Object.keys(value).length === 0 && !Array.isArray(value)\<close>.
\<close>

fun isDirectory :: "JsonValue \<Rightarrow> bool" where
  "isDirectory (JObj kvs) = (length kvs = 0)"
| "isDirectory _ = False"

text \<open>
  The test at the head of \<open>put\<close>: \<open>typeof value === 'object' && value !== null &&
  !Array.isArray(value) && Object.keys(value).length\<close>.
\<close>

fun isNonEmptyObject :: "JsonValue \<Rightarrow> bool" where
  "isNonEmptyObject (JObj kvs) = (length kvs \<noteq> 0)"
| "isNonEmptyObject _ = False"

text \<open>Timestamps are the integers \<open>Date.now()\<close> produces.\<close>

record NodeValue =
  val :: JsonValue
  updatedAt :: int
  expiresAt :: "int option"

section \<open>Strings: \<open>split('/')\<close>, \<open>join('/')\<close>, \<open>pop()\<close>\<close>

fun split_slash :: "string \<Rightarrow> string list" where
  "split_slash [] = [[]]"
| "split_slash (c # cs) =
     (if c = CHR ''/'' then [] # split_slash cs
      else (case split_slash cs of
              [] \<Rightarrow> [[c]]
            | x # xs \<Rightarrow> (c # x) # xs))"

fun join_slash :: "string list \<Rightarrow> string" where
  "join_slash [] = []"
| "join_slash [x] = x"
| "join_slash (x # y # ys) = x @ ''/'' @ join_slash (y # ys)"

text \<open>\<open>this.id.split('/').pop()\<close>: the split is never empty.\<close>

definition childNameOf :: "string \<Rightarrow> string" where
  "childNameOf path = last (split_slash path)"

section \<open>Nodes, closures and the engine state\<close>

text \<open>
  A \<open>Node\<close> object. Its \<open>id\<close> and \<open>parent\<close> are assigned by the constructor and never
  again, so they are part of the handle; \<open>oid\<close> is the object identity (two handles
  created for the same path are different objects). The mutable fields live in the
  state, keyed by the handle.
\<close>

datatype node = Node (oid: nat) (node_id: string) (parent: "node option")

text \<open>
  Functions are first-class in the source; here each closure the engine creates is a
  constructor carrying its captured constants, and the captured mutable variables are a
  cell of the state addressed by the closure's number.

  \<open>MapUnsub n i c r\<close> is \<open>unsubscribe\<close> of \<open>map\<close> (node, id, cell, recursion), and
  also the arrow function \<open>map\<close> passes to its callback, which has the same body.
  It is what \<open>open\<close> returns, so it is what \<open>openUnsubscribe\<close> and \<open>openUnsubs\<close> hold.
\<close>

datatype MapUnsub = MapUnsub (mu_node: node) (mu_id: nat) (mu_cell: nat) (mu_recursion: int)

text \<open>
  \<^item> \<open>Noop\<close> is \<open>() => {}\<close>;
  \<^item> \<open>AdapterUnsub k\<close> is what \<open>adapter.get\<close> / \<open>adapter.list\<close> returned for
    registration \<open>k\<close>;
  \<^item> \<open>ParentMapDelete p i\<close> is \<open>() => { this.parent?.map_subscriptions.delete(id) }\<close>
    of \<open>put\<close>;
  \<^item> \<open>UnsubscribeAll n i c ks\<close> is \<open>unsubscribeAll\<close> of \<open>on\<close> (node, uniqueId, cell,
    and the registrations whose unsubscribe functions are \<open>adapterUnsubscribes\<close>);
  \<^item> \<open>MapUnsubscribe u\<close> is a \<open>MapUnsub\<close>.
\<close>

datatype Unsubscribe =
    Noop
  | AdapterUnsub nat
  | ParentMapDelete node nat
  | UnsubscribeAll node nat nat "nat list"
  | MapUnsubscribe MapUnsub

text \<open>
  What a caller-supplied callback does is not the engine's code. Three behaviours are
  distinguished: it returns, it throws, or it calls the unsubscribe function it was
  given and returns.
\<close>

datatype Behaviour = Returns | Throws | Unsubscribes

text \<open>
  \<^item> \<open>User u b\<close>: a callback supplied by the caller, named \<open>u\<close>;
  \<^item> \<open>OnceCb c cb\<close>: \<open>cb\<close> of \<open>once\<close> (cell \<open>c\<close> holds \<open>resolved\<close> and the promise);
  \<^item> \<open>LocalCallback c cb returnIfUndefined recursion this\<close>: \<open>localCallback\<close> of \<open>on\<close>;
  \<^item> \<open>OpenCallback c cb this\<close>: the arrow function \<open>open\<close> passes to \<open>map\<close>;
  \<^item> \<open>TypedCallback cb\<close>: \<open>typedCallback\<close> of \<open>map\<close>;
  \<^item> \<open>MapCb c cb recursion this i\<close>: \<open>cb\<close> of \<open>map\<close>, which the adapters' \<open>list\<close>
    invokes.
  Type guards are the run-time identity (\<open>value as T\<close>), as every default in the
  source is.
\<close>

datatype Callback =
    User nat Behaviour
  | OnceCb nat "Callback option"
  | LocalCallback nat Callback bool int node
  | OpenCallback nat Callback node
  | TypedCallback Callback
  | MapCb nat Callback int node nat

record Subscription =
  callback :: Callback
  recursion :: int

record NodeFields =
  children :: "string \<Rightarrow> node option"
  on_subscriptions :: "(nat \<times> Subscription) list"
  map_subscriptions :: "(nat \<times> Subscription) list"
  counter :: nat

record OnCell =
  latestValue :: "NodeValue option"
  openUnsubscribe :: "MapUnsub option"

text \<open>\<open>adapterSubs\<close> holds the registrations whose unsubscribe functions the source keeps.\<close>

record MapCell =
  latestMap :: "string \<Rightarrow> NodeValue option"
  adapterSubs :: "nat list"
  openUnsubs :: "(string \<times> MapUnsub) list"

record OpenCell =
  aggregated :: "(string \<times> JsonValue) list"
  latestTime :: "int option"

record OnceCell =
  resolved :: bool
  promise :: "JsonValue option"

text \<open>One invocation of a caller-supplied callback, with its four arguments.\<close>

record Delivery =
  d_callback :: nat
  d_value :: JsonValue
  d_path :: string
  d_updatedAt :: "int option"
  d_unsubscribe :: Unsubscribe

datatype AdapterCall = AdapterGet | AdapterList

record AdapterSub =
  as_adapter :: nat
  as_call :: AdapterCall
  as_path :: string
  as_callback :: Callback

text \<open>
  Modelled from the spec: the adapters (\<open>./adapters/*\<close>, \<open>./types.ts\<close>) are not among
  the sources. All nodes of a tree share the root's adapter list (\<open>adapters\<close> adapters,
  numbered from 0). \<open>set(path, versionedValue) -> completion\<close> is recorded in \<open>sets\<close>
  in call order and rejects for the adapters in \<open>failing\<close>;
  \<open>get(path, onChange) -> unsubscribe\<close> and \<open>list(path, onChildChange) -> unsubscribe\<close>
  add a registration to \<open>adapter_subs\<close>, which the returned function removes. The
  adapters invoke the registered callbacks later, from outside the engine.
\<close>

record state =
  nodes :: "node \<Rightarrow> NodeFields"
  next_oid :: nat
  on_cells :: "nat \<Rightarrow> OnCell"
  map_cells :: "nat \<Rightarrow> MapCell"
  open_cells :: "nat \<Rightarrow> OpenCell"
  once_cells :: "nat \<Rightarrow> OnceCell"
  next_cell :: nat
  adapters :: nat
  failing :: "nat \<Rightarrow> bool"
  sets :: "(nat \<times> string \<times> NodeValue) list"
  adapter_subs :: "(nat \<times> AdapterSub) list"
  next_sub :: nat
  log :: "Delivery list"

definition new_fields :: NodeFields where
  "new_fields = \<lparr>children = (\<lambda>k. None), on_subscriptions = [], map_subscriptions = [],
     counter = 0\<rparr>"

definition children_of :: "state \<Rightarrow> node \<Rightarrow> string \<Rightarrow> node option" where
  "children_of s n = children (nodes s n)"

section \<open>\<open>Node.get\<close>\<close>

lemma split_slash_not_Nil: "split_slash cs \<noteq> []"
  by (induction cs) (auto split: list.splits)

lemma join_split_slash: "join_slash (split_slash cs) = cs"
proof (induction cs)
  case Nil
  show ?case by simp
next
  case (Cons c cs)
  obtain x xs where sp: "split_slash cs = x # xs"
    using split_slash_not_Nil [of cs] by (cases "split_slash cs") auto
  show ?case
  proof (cases "c = CHR ''/''")
    case True
    with Cons sp show ?thesis by simp
  next
    case False
    with Cons sp show ?thesis by (cases xs) auto
  qed
qed

lemma length_join_tl:
  assumes "1 < length (split_slash key)"
  shows "length (join_slash (tl (split_slash key))) < length key"
proof -
  obtain x y ys where sp: "split_slash key = x # y # ys"
    using assms by (cases "split_slash key"; cases "tl (split_slash key)") auto
  have "key = x @ ''/'' @ join_slash (y # ys)"
    using join_split_slash [of key] sp by simp
  then have "length key = length x + 1 + length (join_slash (y # ys))"
    by (metis length_append add.assoc length_Cons list.size(3) One_nat_def add.commute plus_1_eq_Suc)
  then show ?thesis using sp by simp
qed

text \<open>
  The body of \<open>get\<close> up to the recursive call: \<open>this.children.get(seg)\<close>, and when
  there is none, \<open>new Node({id: `${this.id}/${seg}`, parent: this})\<close> (empty tables,
  counter 0) stored with \<open>this.children.set(seg, node)\<close>.
\<close>

definition get_child :: "node \<Rightarrow> string \<Rightarrow> state \<Rightarrow> node \<times> state" where
  "get_child this seg s =
     (case children (nodes s this) seg of
        Some n \<Rightarrow> (n, s)
      | None \<Rightarrow>
          (let n = Node (next_oid s) (node_id this @ ''/'' @ seg) (Some this);
               s1 = s\<lparr>next_oid := Suc (next_oid s), nodes := (nodes s)(n := new_fields)\<rparr>
           in (n, s1\<lparr>nodes := (nodes s1)(this := (nodes s1 this)
                 \<lparr>children := (children (nodes s1 this))(seg \<mapsto> n)\<rparr>)\<rparr>)))"

text \<open>
  \<open>get(key)\<close>: resolve the first segment, and when there are more, recurse on the
  remaining segments joined again.
\<close>

function get :: "node \<Rightarrow> string \<Rightarrow> state \<Rightarrow> node \<times> state" where
  "get this key s =
     (let splitKey = split_slash key;
          (node, s1) = get_child this (hd splitKey) s
      in if length splitKey > 1 then get node (join_slash (tl splitKey)) s1
         else (node, s1))"
  by pat_completeness auto
termination
  by (relation "measure (\<lambda>(this, key, s). length key)") (auto simp: length_join_tl)

declare get.simps [simp del]

text \<open>A tree with only its root: \<open>new Node({adapters})\<close> with \<open>n\<close> adapters.\<close>

definition root :: node where
  "root = Node 0 [] None"

definition init_state :: "nat \<Rightarrow> state" where
  "init_state n =
     \<lparr>nodes = (\<lambda>x. new_fields), next_oid = 1,
      on_cells = (\<lambda>c. \<lparr>latestValue = None, openUnsubscribe = None\<rparr>),
      map_cells = (\<lambda>c. \<lparr>latestMap = (\<lambda>p. None), adapterSubs = [], openUnsubs = []\<rparr>),
      open_cells = (\<lambda>c. \<lparr>aggregated = [], latestTime = None\<rparr>),
      once_cells = (\<lambda>c. \<lparr>resolved = False, promise = None\<rparr>),
      next_cell = 0, adapters = n, failing = (\<lambda>i. False), sets = [],
      adapter_subs = [], next_sub = 0, log = []\<rparr>"

section \<open>Tables\<close>

text \<open>
  A \<open>Map\<close> (and a plain object used as a dictionary) is the list of its entries in
  insertion order: \<open>set\<close> replaces the value of a present key in place and appends an
  absent one, \<open>delete\<close> removes the entry, \<open>get\<close> is \<open>map_of\<close>.
\<close>

fun map_set :: "'k \<Rightarrow> 'v \<Rightarrow> ('k \<times> 'v) list \<Rightarrow> ('k \<times> 'v) list" where
  "map_set k v [] = [(k, v)]"
| "map_set k v ((k', v') # xs) =
     (if k' = k then (k, v) # xs else (k', v') # map_set k v xs)"

definition map_delete :: "'k \<Rightarrow> ('k \<times> 'v) list \<Rightarrow> ('k \<times> 'v) list" where
  "map_delete k xs = filter (\<lambda>e. fst e \<noteq> k) xs"

definition update_node :: "node \<Rightarrow> (NodeFields \<Rightarrow> NodeFields) \<Rightarrow> state \<Rightarrow> state" where
  "update_node n f s = s\<lparr>nodes := (nodes s)(n := f (nodes s n))\<rparr>"

section \<open>Unsubscribe functions\<close>

text \<open>\<open>this.on_subscriptions.delete(id)\<close> and \<open>this.map_subscriptions.delete(id)\<close>.\<close>

definition delete_on :: "node \<Rightarrow> nat \<Rightarrow> state \<Rightarrow> state" where
  "delete_on n i s =
     update_node n (\<lambda>f. f\<lparr>on_subscriptions := map_delete i (on_subscriptions f)\<rparr>) s"

definition delete_map :: "node \<Rightarrow> nat \<Rightarrow> state \<Rightarrow> state" where
  "delete_map n i s =
     update_node n (\<lambda>f. f\<lparr>map_subscriptions := map_delete i (map_subscriptions f)\<rparr>) s"

text \<open>
  Modelled from the spec: the function an adapter's \<open>get\<close> / \<open>list\<close> returns ends that
  registration.
\<close>

definition adapter_unsubscribe :: "nat \<Rightarrow> state \<Rightarrow> state" where
  "adapter_unsubscribe k s = s\<lparr>adapter_subs := map_delete k (adapter_subs s)\<rparr>"

text \<open>
  \<open>unsubscribe\<close> of \<open>map\<close>: \<open>this.map_subscriptions.delete(id)\<close>,
  \<open>unsubscribeFromAdapters()\<close>, then every function in \<open>openUnsubs\<close>. Those are the
  \<open>unsubscribe\<close> functions of nested \<open>map\<close> subscriptions, which are created only under
  \<open>recursion > 0\<close> and with \<open>recursion - 1\<close>; the first argument counts the levels
  that are left.
\<close>

fun map_unsubscribe :: "nat \<Rightarrow> MapUnsub \<Rightarrow> state \<Rightarrow> state" where
  "map_unsubscribe d (MapUnsub n i c r) s =
     (let s1 = delete_map n i s;
          s2 = fold adapter_unsubscribe (adapterSubs (map_cells s1 c)) s1
      in case d of
           0 \<Rightarrow> s2
         | Suc d' \<Rightarrow> fold (\<lambda>e. map_unsubscribe d' (snd e)) (openUnsubs (map_cells s2 c)) s2)"

text \<open>
  Calling an \<open>Unsubscribe\<close>. \<open>unsubscribeAll\<close> of \<open>on\<close>:
  \<open>this.on_subscriptions.delete(uniqueId)\<close>, every adapter's unsubscribe, then
  \<open>openUnsubscribe?.()\<close>.
\<close>

fun call_unsub :: "Unsubscribe \<Rightarrow> state \<Rightarrow> state" where
  "call_unsub Noop s = s"
| "call_unsub (AdapterUnsub k) s = adapter_unsubscribe k s"
| "call_unsub (ParentMapDelete p i) s = delete_map p i s"
| "call_unsub (MapUnsubscribe u) s = map_unsubscribe (nat (mu_recursion u)) u s"
| "call_unsub (UnsubscribeAll n i c ks) s =
     (let s1 = delete_on n i s;
          s2 = fold adapter_unsubscribe ks s1
      in case openUnsubscribe (on_cells s2 c) of
           None \<Rightarrow> s2
         | Some u \<Rightarrow> map_unsubscribe (nat (mu_recursion u)) u s2)"

section \<open>Subscribing\<close>

text \<open>
  Modelled from the spec: \<open>this.adapters.map((adapter) => adapter.get(this.id, cb))\<close>
  (or \<open>list\<close>) registers the callback with every adapter in order and yields the
  registrations.
\<close>

definition adapter_register ::
  "AdapterCall \<Rightarrow> string \<Rightarrow> Callback \<Rightarrow> state \<Rightarrow> nat list \<times> state" where
  "adapter_register call path cb s =
     (map (\<lambda>a. next_sub s + a) [0..<adapters s],
      s\<lparr>adapter_subs := adapter_subs s @
            map (\<lambda>a. (next_sub s + a,
                   \<lparr>as_adapter = a, as_call = call, as_path = path, as_callback = cb\<rparr>))
              [0..<adapters s],
        next_sub := next_sub s + adapters s\<rparr>)"

text \<open>\<open>map(callback, recursion)\<close>.\<close>

definition map_sub :: "node \<Rightarrow> Callback \<Rightarrow> int \<Rightarrow> state \<Rightarrow> MapUnsub \<times> state" where
  "map_sub this cb r s =
     (let i = counter (nodes s this);
          c = next_cell s;
          s1 = update_node this (\<lambda>f. f\<lparr>counter := Suc i\<rparr>) s;
          s2 = update_node this (\<lambda>f. f\<lparr>map_subscriptions :=
                 map_set i \<lparr>callback = TypedCallback cb, recursion = r\<rparr> (map_subscriptions f)\<rparr>) s1;
          s3 = s2\<lparr>next_cell := Suc c,
                 map_cells := (map_cells s2)
                   (c := \<lparr>latestMap = (\<lambda>p. None), adapterSubs = [], openUnsubs = []\<rparr>)\<rparr>;
          (ks, s4) = adapter_register AdapterList (node_id this) (MapCb c cb r this i) s3
      in (MapUnsub this i c r,
          s4\<lparr>map_cells := (map_cells s4)(c := (map_cells s4 c)\<lparr>adapterSubs := ks\<rparr>)\<rparr>))"

text \<open>\<open>open(callback, recursion)\<close>: \<open>this.map(..., recursion)\<close> with a fresh aggregate.\<close>

definition open_sub :: "node \<Rightarrow> Callback \<Rightarrow> int \<Rightarrow> state \<Rightarrow> MapUnsub \<times> state" where
  "open_sub this cb r s =
     (let c = next_cell s;
          s1 = s\<lparr>next_cell := Suc c,
                 open_cells := (open_cells s)(c := \<lparr>aggregated = [], latestTime = None\<rparr>)\<rparr>
      in map_sub this (OpenCallback c cb this) r s1)"

text \<open>\<open>on(callback, returnIfUndefined, recursion)\<close>.\<close>

definition on_sub :: "node \<Rightarrow> Callback \<Rightarrow> bool \<Rightarrow> int \<Rightarrow> state \<Rightarrow> Unsubscribe \<times> state" where
  "on_sub this cb returnIfUndefined r s =
     (let uniqueId = counter (nodes s this);
          c = next_cell s;
          s1 = update_node this (\<lambda>f. f\<lparr>counter := Suc uniqueId\<rparr>) s;
          s2 = s1\<lparr>next_cell := Suc c,
                 on_cells := (on_cells s1)(c := \<lparr>latestValue = None, openUnsubscribe = None\<rparr>)\<rparr>;
          localCallback = LocalCallback c cb returnIfUndefined r this;
          s3 = update_node this (\<lambda>f. f\<lparr>on_subscriptions :=
                 map_set uniqueId \<lparr>callback = localCallback, recursion = r\<rparr> (on_subscriptions f)\<rparr>) s2;
          (ks, s4) = adapter_register AdapterGet (node_id this) localCallback s3
      in (UnsubscribeAll this uniqueId c ks, s4))"

text \<open>
  \<open>once(callback?, returnIfUndefined, recursion)\<close>: the promise is the cell; what
  \<open>this.on(...)\<close> returns is dropped.
\<close>

definition once_sub :: "node \<Rightarrow> Callback option \<Rightarrow> bool \<Rightarrow> int \<Rightarrow> state \<Rightarrow> nat \<times> state" where
  "once_sub this cb returnIfUndefined r s =
     (let c = next_cell s;
          s1 = s\<lparr>next_cell := Suc c,
                 once_cells := (once_cells s)(c := \<lparr>resolved = False, promise = None\<rparr>)\<rparr>;
          (u, s2) = on_sub this (OnceCb c cb) returnIfUndefined r s1
      in (c, s2))"

section \<open>Callbacks\<close>

datatype completion = Done | Failed

text \<open>
  The assignments inside \<open>localCallback\<close> of \<open>on\<close>:
  \<open>if (value !== undefined && updatedAt !== undefined) latestValue = {value, updatedAt}\<close>
  and \<open>if (isDirectory(value) && recursion > 0 && !openUnsubscribe)
  openUnsubscribe = this.open(callback, recursion - 1, typeGuard)\<close>.
\<close>

definition record_latest :: "nat \<Rightarrow> JsonValue \<Rightarrow> int option \<Rightarrow> state \<Rightarrow> state" where
  "record_latest c v t s =
     (case t of
        None \<Rightarrow> s
      | Some u \<Rightarrow>
          if v \<noteq> Undefined
          then s\<lparr>on_cells := (on_cells s)(c := (on_cells s c)
                 \<lparr>latestValue := Some \<lparr>val = v, updatedAt = u, expiresAt = None\<rparr>\<rparr>)\<rparr>
          else s)"

definition open_directory :: "nat \<Rightarrow> Callback \<Rightarrow> int \<Rightarrow> node \<Rightarrow> JsonValue \<Rightarrow> state \<Rightarrow> state" where
  "open_directory c cb r this v s =
     (if isDirectory v \<and> r > 0 \<and> openUnsubscribe (on_cells s c) = None
      then (case open_sub this cb (r - 1) s of
              (u, s') \<Rightarrow> s'\<lparr>on_cells := (on_cells s')(c := (on_cells s' c)
                           \<lparr>openUnsubscribe := Some u\<rparr>)\<rparr>)
      else s)"

text \<open>
  The assignments inside the arrow function of \<open>open\<close>:
  \<open>if (updatedAt !== undefined && (!latestTime || latestTime < updatedAt))
  latestTime = updatedAt\<close> (\<open>!latestTime\<close> holds for \<open>undefined\<close> and for 0) and
  \<open>aggregated[childName] = childValue\<close>.
\<close>

definition track_latestTime :: "nat \<Rightarrow> int option \<Rightarrow> state \<Rightarrow> state" where
  "track_latestTime c t s =
     (case t of
        None \<Rightarrow> s
      | Some u \<Rightarrow>
          (case latestTime (open_cells s c) of
             None \<Rightarrow> s\<lparr>open_cells := (open_cells s)(c := (open_cells s c)\<lparr>latestTime := Some u\<rparr>)\<rparr>
           | Some l \<Rightarrow>
               if l = 0 \<or> l < u
               then s\<lparr>open_cells := (open_cells s)(c := (open_cells s c)\<lparr>latestTime := Some u\<rparr>)\<rparr>
               else s))"

definition aggregate :: "nat \<Rightarrow> string \<Rightarrow> JsonValue \<Rightarrow> state \<Rightarrow> state" where
  "aggregate c childName childValue s =
     s\<lparr>open_cells := (open_cells s)(c := (open_cells s c)
        \<lparr>aggregated := map_set childName childValue (aggregated (open_cells s c))\<rparr>)\<rparr>"

text \<open>
  Inside \<open>cb\<close> of \<open>map\<close>: \<open>if (updatedAt !== undefined) latestMap.set(path, {value,
  updatedAt})\<close> and \<open>if (!openUnsubs[childName]) openUnsubs[childName] =
  this.get(childName).open(callback, recursion - 1)\<close>.
\<close>

definition record_child :: "nat \<Rightarrow> string \<Rightarrow> JsonValue \<Rightarrow> int option \<Rightarrow> state \<Rightarrow> state" where
  "record_child c path v t s =
     (case t of
        None \<Rightarrow> s
      | Some u \<Rightarrow> s\<lparr>map_cells := (map_cells s)(c := (map_cells s c)
          \<lparr>latestMap := (latestMap (map_cells s c))
             (path \<mapsto> \<lparr>val = v, updatedAt = u, expiresAt = None\<rparr>)\<rparr>)\<rparr>)"

definition open_child :: "nat \<Rightarrow> Callback \<Rightarrow> int \<Rightarrow> node \<Rightarrow> string \<Rightarrow> state \<Rightarrow> state" where
  "open_child c cb r this childName s =
     (if map_of (openUnsubs (map_cells s c)) childName = None
      then (case get this childName s of
              (child, s1) \<Rightarrow>
                (case open_sub child cb (r - 1) s1 of
                   (u, s2) \<Rightarrow>
                     s2\<lparr>map_cells := (map_cells s2)(c := (map_cells s2 c)
                        \<lparr>openUnsubs := map_set childName u (openUnsubs (map_cells s2 c))\<rparr>)\<rparr>))
      else s)"

text \<open>
  Invoking a callback with \<open>(value, path, updatedAt, unsubscribe)\<close>. \<open>Failed\<close> is a
  thrown exception; nothing in the engine catches one.
\<close>

fun invoke ::
  "Callback \<Rightarrow> JsonValue \<Rightarrow> string \<Rightarrow> int option \<Rightarrow> Unsubscribe \<Rightarrow> state \<Rightarrow> completion \<times> state"
where
  "invoke (User u b) v path t unsub s =
     (let s1 = s\<lparr>log := log s @ [\<lparr>d_callback = u, d_value = v, d_path = path,
                 d_updatedAt = t, d_unsubscribe = unsub\<rparr>]\<rparr>
      in case b of
           Returns \<Rightarrow> (Done, s1)
         | Throws \<Rightarrow> (Failed, s1)
         | Unsubscribes \<Rightarrow> (Done, call_unsub unsub s1))"
| "invoke (OnceCb c cb) v path t unsub s =
     (if resolved (once_cells s c) then (Done, s)
      else
        let s1 = s\<lparr>once_cells := (once_cells s)(c := \<lparr>resolved = True, promise = Some v\<rparr>)\<rparr>;
            (r, s2) = (case cb of None \<Rightarrow> (Done, s1) | Some f \<Rightarrow> invoke f v path t Noop s1)
        in if r = Failed then (Failed, s2) else (Done, call_unsub unsub s2))"
| "invoke (LocalCallback c cb returnIfUndefined r this) v path t unsub s =
     (let latest = latestValue (on_cells s c);
          olderThanLatest =
            (case latest of None \<Rightarrow> False
             | Some l \<Rightarrow> (case t of None \<Rightarrow> False | Some u \<Rightarrow> updatedAt l \<ge> u));
          noReturnUndefined = (\<not> returnIfUndefined \<and> v = Undefined)
      in if olderThanLatest \<or> noReturnUndefined then (Done, s)
         else if latest = None \<and> returnIfUndefined \<and> v = Undefined
         then invoke cb v path t unsub s
         else
           let s1 = record_latest c v t s;
               s2 = open_directory c cb r this v s1
           in if \<not> isDirectory v \<or> r = 0 then invoke cb v path t unsub s2
              else (Done, s2))"
| "invoke (OpenCallback c cb this) childValue path t unsub s =
     (let s1 = track_latestTime c t s;
          childName = childNameOf path;
          s2 = aggregate c childName childValue s1
      in invoke cb (JObj (aggregated (open_cells s2 c))) (node_id this)
           (latestTime (open_cells s2 c)) Noop s2)"
| "invoke (TypedCallback cb) v path t unsub s = invoke cb v path t unsub s"
| "invoke (MapCb c cb r this i) v path t unsub s =
     (let latest = latestMap (map_cells s c) path;
          stale = (case t of None \<Rightarrow> False
                   | Some u \<Rightarrow> (case latest of None \<Rightarrow> False | Some l \<Rightarrow> updatedAt l \<ge> u))
      in if stale then (Done, s)
         else
           let s1 = record_child c path v t s;
               childName = childNameOf path
           in if r > 0 \<and> isDirectory v
              then (Done, open_child c cb r this childName s1)
              else invoke cb v path t (MapUnsubscribe (MapUnsub this i c r)) s1)"

declare invoke.simps [simp del]

section \<open>Writing\<close>

text \<open>
  \<open>notifyChange(value, updatedAt)\<close>: \<open>this.on_subscriptions.forEach\<close>. The entries are
  visited in insertion order; an entry deleted before its turn is not visited. An
  exception leaves the loop.
\<close>

fun notify_each ::
  "node \<Rightarrow> (nat \<times> Subscription) list \<Rightarrow> JsonValue \<Rightarrow> int option \<Rightarrow> state \<Rightarrow> completion \<times> state"
where
  "notify_each this [] v t s = (Done, s)"
| "notify_each this ((i, sub) # rest) v t s =
     (if map_of (on_subscriptions (nodes s this)) i = None then notify_each this rest v t s
      else if recursion sub > 0 \<and> isDirectory v then notify_each this rest v t s
      else (case invoke (callback sub) v (node_id this) t Noop s of
              (Failed, s1) \<Rightarrow> (Failed, s1)
            | (Done, s1) \<Rightarrow> notify_each this rest v t s1))"

definition notifyChange :: "node \<Rightarrow> JsonValue \<Rightarrow> int option \<Rightarrow> state \<Rightarrow> completion \<times> state" where
  "notifyChange this v t s = notify_each this (on_subscriptions (nodes s this)) v t s"

text \<open>
  \<open>this.adapters.map((adapter) => adapter.set(this.id, nodeValue))\<close>: one call per
  adapter, in order. \<open>Promise.all\<close> of the results rejects when one of them does.
\<close>

definition adapters_set :: "string \<Rightarrow> NodeValue \<Rightarrow> state \<Rightarrow> state" where
  "adapters_set path nv s = s\<lparr>sets := sets s @ map (\<lambda>a. (a, path, nv)) [0..<adapters s]\<rparr>"

definition set_rejected :: "state \<Rightarrow> bool" where
  "set_rejected s \<longleftrightarrow> list_ex (failing s) [0..<adapters s]"

text \<open>
  \<open>putValue\<close>. \<open>await\<close> is modelled by sequencing: the awaited computation runs to
  its end where the promise is created.
\<close>

definition putValue ::
  "node \<Rightarrow> JsonValue \<Rightarrow> int \<Rightarrow> int option \<Rightarrow> state \<Rightarrow> completion \<times> state" where
  "putValue this v t e s =
     (let s1 = (if \<not> isDirectory v
                then update_node this (\<lambda>f. f\<lparr>children := (\<lambda>k. None)\<rparr>) s else s);
          nodeValue = \<lparr>val = v, updatedAt = t, expiresAt = e\<rparr>;
          s2 = adapters_set (node_id this) nodeValue s1
      in case notifyChange this v (Some t) s2 of
           (Failed, s3) \<Rightarrow> (Failed, s3)
         | (Done, s3) \<Rightarrow> (if set_rejected s3 then Failed else Done, s3))"

text \<open>
  The \<open>for ... of this.parent.map_subscriptions\<close> loop of \<open>put\<close>, with \<open>this\<close> and its
  parent \<open>p\<close>.
\<close>

fun map_each ::
  "node \<Rightarrow> node \<Rightarrow> (nat \<times> Subscription) list \<Rightarrow> JsonValue \<Rightarrow> int \<Rightarrow> state \<Rightarrow> completion \<times> state"
where
  "map_each this p [] v t s = (Done, s)"
| "map_each this p ((i, sub) # rest) v t s =
     (if map_of (map_subscriptions (nodes s p)) i = None then map_each this p rest v t s
      else if \<not> isDirectory v \<or> recursion sub = 0
      then (case invoke (callback sub) v (node_id this) (Some t) (ParentMapDelete p i) s of
              (Failed, s1) \<Rightarrow> (Failed, s1)
            | (Done, s1) \<Rightarrow> map_each this p rest v t s1)
      else map_each this p rest v t s)"

lemma size_parent: "parent n = Some p \<Longrightarrow> size p < size n"
  by (cases n) simp

text \<open>
  In \<open>put\<close>, with \<open>p\<close> the parent: \<open>const childName = this.id.split('/').pop()!;
  if (!this.parent.children.has(childName)) this.parent.children.set(childName, this)\<close>.
\<close>

definition cache_child :: "node \<Rightarrow> node \<Rightarrow> state \<Rightarrow> state" where
  "cache_child p this s =
     (let childName = childNameOf (node_id this)
      in if children (nodes s p) childName = None
         then update_node p (\<lambda>f. f\<lparr>children := (children f)(childName \<mapsto> this)\<rparr>) s
         else s)"

text \<open>\<open>Object.keys(value)\<close> paired with \<open>value[key]\<close>.\<close>

fun entries :: "JsonValue \<Rightarrow> (string \<times> JsonValue) list" where
  "entries (JObj kvs) = kvs"
| "entries _ = []"

text \<open>The measure of \<open>put\<close>: the nesting of objects in the value.\<close>

fun weight :: "JsonValue \<Rightarrow> nat" where
  "weight (JObj kvs) = sum_list (map (\<lambda>kv. Suc (weight (snd kv))) kvs)"
| "weight _ = 0"

lemma weight_entries: "sum_list (map (\<lambda>kv. Suc (weight (snd kv))) (entries v)) = weight v"
  by (cases v) simp_all

text \<open>
  \<open>put(value, updatedAt, expiresAt)\<close>, with \<open>putChildValues\<close> in its first branch;
  \<open>putChildren\<close> is
  \<open>children.map((key) => this.get(key).put(value[key], updatedAt))\<close>: every child's
  \<open>put\<close> is started whatever the others do, and \<open>Promise.all\<close> rejects when one of
  them does.
\<close>

function put ::
    "node \<Rightarrow> JsonValue \<Rightarrow> int \<Rightarrow> int option \<Rightarrow> state \<Rightarrow> completion \<times> state"
  and putChildren ::
    "node \<Rightarrow> (string \<times> JsonValue) list \<Rightarrow> int \<Rightarrow> state \<Rightarrow> completion \<times> state"
where
  "put this v t e s =
     (case (if isNonEmptyObject v
            then (let s1 = adapters_set (node_id this)
                             \<lparr>val = DIRECTORY_VALUE, updatedAt = t, expiresAt = e\<rparr> s
                  in case putChildren this (entries v) t s1 of
                       (r, s2) \<Rightarrow> (if set_rejected s2 then Failed else r, s2))
            else putValue this v t e s) of
        (Failed, s3) \<Rightarrow> (Failed, s3)
      | (Done, s3) \<Rightarrow>
          (case parent this of
             None \<Rightarrow> (Done, s3)
           | Some p \<Rightarrow>
               (case put p DIRECTORY_VALUE t None s3 of
                  (Failed, s4) \<Rightarrow> (Failed, s4)
                | (Done, s4) \<Rightarrow>
                    (let s5 = cache_child p this s4
                     in map_each this p (map_subscriptions (nodes s5 p)) v t s5))))"
| "putChildren this [] t s = (Done, s)"
| "putChildren this ((key, v) # rest) t s =
     (case get this key s of
        (child, s1) \<Rightarrow>
          (case put child v t None s1 of
             (r, s2) \<Rightarrow>
               (case putChildren this rest t s2 of
                  (r', s3) \<Rightarrow> (if r = Failed then Failed else r', s3))))"
  by pat_completeness auto
termination
  apply (relation "inv_image (less_than <*lex*> less_than)
      (\<lambda>x. case x of
         Inl (this, v, t, e, s) \<Rightarrow> (weight v, Suc (size this))
       | Inr (this, kvs, t, s) \<Rightarrow> (sum_list (map (\<lambda>kv. Suc (weight (snd kv))) kvs), 0))")
  apply (auto simp: DIRECTORY_VALUE_def size_parent weight_entries)
  done

declare put.simps [simp del]

text \<open>
  Modelled from the spec: an adapter invokes \<open>onChange(value, path, updatedAt,
  unsubscribe)\<close> of a registration it holds; a registration that was ended is not
  invoked.
\<close>

definition adapter_notify ::
  "nat \<Rightarrow> JsonValue \<Rightarrow> string \<Rightarrow> int option \<Rightarrow> Unsubscribe \<Rightarrow> state \<Rightarrow> completion \<times> state" where
  "adapter_notify k v path t unsub s =
     (case map_of (adapter_subs s) k of
        None \<Rightarrow> (Done, s)
      | Some sub \<Rightarrow> invoke (as_callback sub) v path t unsub s)"

section \<open>Path resolution\<close>

fun get_path :: "node \<Rightarrow> string list \<Rightarrow> state \<Rightarrow> node \<times> state" where
  "get_path n [] s = (n, s)"
| "get_path n [x] s = get_child n x s"
| "get_path n (x # y # ys) s = (case get_child n x s of (c, s1) \<Rightarrow> get_path c (y # ys) s1)"

definition slash_free :: "string \<Rightarrow> bool" where
  "slash_free x \<longleftrightarrow> CHR ''/'' \<notin> set x"

lemma split_slash_free: "x \<in> set (split_slash cs) \<Longrightarrow> slash_free x"
  by (induction cs arbitrary: x) (auto simp: slash_free_def split: if_splits list.splits)

lemma split_slash_free_id: "slash_free x \<Longrightarrow> split_slash x = [x]"
  by (induction x) (auto simp: slash_free_def)

lemma split_slash_append:
  "split_slash (p @ CHR ''/'' # q) = split_slash p @ split_slash q"
  by (induction p) (auto split: list.splits simp: split_slash_not_Nil)

lemma split_join_slash:
  "xs \<noteq> [] \<Longrightarrow> \<forall>x\<in>set xs. slash_free x \<Longrightarrow> split_slash (join_slash xs) = xs"
proof (induction xs rule: join_slash.induct)
  case 1
  then show ?case by simp
next
  case (2 x)
  then show ?case by (simp add: split_slash_free_id)
next
  case (3 x y ys)
  then show ?case by (simp add: split_slash_append split_slash_free_id)
qed

lemma get_eq_get_path: "get n key s = get_path n (split_slash key) s"
proof (induction "length key" arbitrary: n key s rule: less_induct)
  case less
  obtain x xs where sp: "split_slash key = x # xs"
    using split_slash_not_Nil [of key] by (cases "split_slash key") auto
  show ?case
  proof (cases xs)
    case Nil
    with sp show ?thesis by (subst get.simps) (simp add: Let_def split: prod.splits)
  next
    case (Cons y ys)
    have fr: "\<forall>z\<in>set (y # ys). slash_free z"
      using split_slash_free [of _ key] sp Cons by auto
    have len: "length (join_slash (y # ys)) < length key"
      using length_join_tl [of key] sp Cons by simp
    have "split_slash (join_slash (y # ys)) = y # ys"
      using split_join_slash [OF _ fr] by simp
    with less [OF len] sp Cons show ?thesis
      by (subst get.simps) (simp add: Let_def split: prod.splits)
  qed
qed

lemma get_path_append:
  "xs \<noteq> [] \<Longrightarrow> ys \<noteq> [] \<Longrightarrow>
   get_path n (xs @ ys) s = (case get_path n xs s of (m, s1) \<Rightarrow> get_path m ys s1)"
proof (induction n xs s rule: get_path.induct)
  case (1 n s)
  then show ?case by simp
next
  case (2 n x s)
  then show ?case by (cases ys) (auto split: prod.splits)
next
  case (3 n x y ys' s)
  then show ?case by (auto split: prod.splits)
qed

lemma get_multi: "get n (p @ ''/'' @ q) s = (case get n p s of (m, s1) \<Rightarrow> get m q s1)"
  by (simp add: get_eq_get_path split_slash_append get_path_append split_slash_not_Nil)

definition cache_allocated :: "state \<Rightarrow> bool" where
  "cache_allocated s \<longleftrightarrow> (\<forall>x k c. children_of s x k = Some c \<longrightarrow> oid c < next_oid s)"

lemma node_neq_child: "Node i p (Some n) \<noteq> n"
proof
  assume "Node i p (Some n) = n"
  then have "size (Node i p (Some n)) = size n" by simp
  then show False by simp
qed

lemma get_child_cases:
  assumes "get_child n x s = (c, s1)"
  shows "(children_of s n x = Some c \<and> s1 = s) \<or>
         (children_of s n x = None \<and> oid c = next_oid s \<and>
          next_oid s1 = Suc (next_oid s) \<and> children_of s1 n x = Some c \<and>
          (\<forall>k. k \<noteq> x \<longrightarrow> children_of s1 n k = children_of s n k) \<and>
          (\<forall>k. children_of s1 c k = None) \<and>
          (\<forall>y k. y \<noteq> c \<longrightarrow> y \<noteq> n \<longrightarrow> children_of s1 y k = children_of s y k))"
proof (cases "children (nodes s n) x")
  case None
  with assms show ?thesis
    using node_neq_child [of "next_oid s" "node_id n @ ''/'' @ x" n]
    by (auto simp: get_child_def children_of_def Let_def new_fields_def)
next
  case (Some d)
  with assms show ?thesis by (auto simp: get_child_def children_of_def)
qed

lemma get_child_again:
  assumes "get_child n x s = (c, s1)"
  shows "get_child n x s1 = (c, s1)"
proof -
  have "children_of s1 n x = Some c"
    using get_child_cases [OF assms] by auto
  then show ?thesis by (simp add: get_child_def children_of_def)
qed

lemma get_child_allocated:
  assumes "get_child n x s = (c, s1)" "cache_allocated s"
  shows "cache_allocated s1 \<and> oid c < next_oid s1 \<and> next_oid s \<le> next_oid s1"
  using get_child_cases [OF assms(1)] assms(2)
  unfolding cache_allocated_def
  by (metis less_Suc_eq le_refl le_SucI option.distinct(1) option.inject)

lemma get_child_keeps:
  assumes "get_child n x s = (c, s1)" "oid y < next_oid s" "children_of s y k = Some d"
  shows "children_of s1 y k = Some d"
  using get_child_cases [OF assms(1)] assms(2,3)
  by (metis less_irrefl option.distinct(1))

lemma get_path_allocated:
  "get_path n xs s = (m, s') \<Longrightarrow> cache_allocated s \<Longrightarrow> oid n < next_oid s \<Longrightarrow>
   cache_allocated s' \<and> oid m < next_oid s' \<and> next_oid s \<le> next_oid s'"
proof (induction n xs s arbitrary: m s' rule: get_path.induct)
  case (1 n s)
  then show ?case by simp
next
  case (2 n x s)
  then show ?case using get_child_allocated by simp
next
  case (3 n x y ys s)
  obtain c s1 where c: "get_child n x s = (c, s1)" by (cases "get_child n x s")
  from get_child_allocated [OF c "3.prems"(2)]
  have a: "cache_allocated s1" "oid c < next_oid s1" "next_oid s \<le> next_oid s1" by auto
  from "3.prems"(1) c have "get_path c (y # ys) s1 = (m, s')" by simp
  from "3.IH" [OF c [symmetric] this a(1) a(2)] a(3) show ?case by simp
qed

lemma get_path_keeps:
  "get_path n xs s = (m, s') \<Longrightarrow> cache_allocated s \<Longrightarrow> oid n < next_oid s \<Longrightarrow>
   oid y < next_oid s \<Longrightarrow> children_of s y k = Some d \<Longrightarrow> children_of s' y k = Some d"
proof (induction n xs s arbitrary: m s' rule: get_path.induct)
  case (1 n s)
  then show ?case by simp
next
  case (2 n x s)
  then show ?case using get_child_keeps by simp
next
  case (3 n x y' ys s)
  obtain c s1 where c: "get_child n x s = (c, s1)" by (cases "get_child n x s")
  from get_child_allocated [OF c "3.prems"(2)]
  have a: "cache_allocated s1" "oid c < next_oid s1" "next_oid s \<le> next_oid s1" by auto
  from "3.prems"(1) c have g: "get_path c (y' # ys) s1 = (m, s')" by simp
  have k: "children_of s1 y k = Some d"
    using get_child_keeps [OF c "3.prems"(4,5)] .
  from "3.IH" [OF c [symmetric] g a(1) a(2) _ k] a(3) "3.prems"(4) show ?case by simp
qed

lemma get_path_again:
  "get_path n xs s = (m, s') \<Longrightarrow> cache_allocated s \<Longrightarrow> oid n < next_oid s \<Longrightarrow>
   get_path n xs s' = (m, s')"
proof (induction n xs s arbitrary: m s' rule: get_path.induct)
  case (1 n s)
  then show ?case by simp
next
  case (2 n x s)
  then show ?case using get_child_again by simp
next
  case (3 n x y ys s)
  obtain c s1 where c: "get_child n x s = (c, s1)" by (cases "get_child n x s")
  from get_child_allocated [OF c "3.prems"(2)]
  have a: "cache_allocated s1" "oid c < next_oid s1" "next_oid s \<le> next_oid s1" by auto
  from "3.prems"(1) c have g: "get_path c (y # ys) s1 = (m, s')" by simp
  have again: "get_path c (y # ys) s' = (m, s')"
    using "3.IH" [OF c [symmetric] g a(1) a(2)] .
  have "children_of s1 n x = Some c"
    using get_child_cases [OF c] by auto
  then have "children_of s' n x = Some c"
    using get_path_keeps [OF g a(1) a(2)] "3.prems"(3) a(3) by simp
  then have "get_child n x s' = (c, s')"
    by (simp add: get_child_def children_of_def)
  with again show ?case by simp
qed

lemma get_cached: "cache_allocated s \<Longrightarrow> oid n < next_oid s \<Longrightarrow> get n p (snd (get n p s)) = get n p s"
  using get_path_again [of n "split_slash p" s "fst (get n p s)" "snd (get n p s)"]
  by (simp add: get_eq_get_path)

text \<open>
  What the child caches hold under a path: \<open>this.children.get(seg)\<close> for one segment
  after the other, with no handle created.
\<close>

fun resolve :: "state \<Rightarrow> node \<Rightarrow> string list \<Rightarrow> node option" where
  "resolve s n [] = Some n"
| "resolve s n (x # xs) =
     (case children (nodes s n) x of None \<Rightarrow> None | Some c \<Rightarrow> resolve s c xs)"

lemma get_path_resolved: "resolve s n xs = Some h \<Longrightarrow> get_path n xs s = (h, s)"
proof (induction n xs s rule: get_path.induct)
  case (1 n s)
  then show ?case by simp
next
  case (2 n x s)
  then show ?case by (auto simp: get_child_def split: option.splits)
next
  case (3 n x y ys s)
  from "3.prems" obtain c where c: "children (nodes s n) x = Some c"
    and r: "resolve s c (y # ys) = Some h" by (auto split: option.splits)
  from c have g: "get_child n x s = (c, s)" by (simp add: get_child_def)
  from "3.IH" [OF g [symmetric] r] g show ?case by simp
qed

lemma get_path_resolves:
  "get_path n xs s = (m, s') \<Longrightarrow> cache_allocated s \<Longrightarrow> oid n < next_oid s \<Longrightarrow>
   resolve s' n xs = Some m"
proof (induction n xs s arbitrary: m s' rule: get_path.induct)
  case (1 n s)
  then show ?case by simp
next
  case (2 n x s)
  then have "children_of s' n x = Some m" using get_child_cases [of n x s m s'] by auto
  then show ?case by (simp add: children_of_def)
next
  case (3 n x y ys s)
  obtain c s1 where c: "get_child n x s = (c, s1)" by (cases "get_child n x s")
  from get_child_allocated [OF c "3.prems"(2)]
  have a: "cache_allocated s1" "oid c < next_oid s1" "next_oid s \<le> next_oid s1" by auto
  from "3.prems"(1) c have g: "get_path c (y # ys) s1 = (m, s')" by simp
  have r: "resolve s' c (y # ys) = Some m"
    using "3.IH" [OF c [symmetric] g a(1) a(2)] .
  have "children_of s1 n x = Some c"
    using get_child_cases [OF c] by auto
  then have "children_of s' n x = Some c"
    using get_path_keeps [OF g a(1) a(2)] "3.prems"(3) a(3) by simp
  with r show ?case by (simp add: children_of_def)
qed

lemma get_path_fresh:
  "get_path n xs s = (h, s1) \<Longrightarrow> resolve s n xs = None \<Longrightarrow> next_oid s \<le> oid h"
proof (induction n xs s arbitrary: h s1 rule: get_path.induct)
  case (1 n s)
  then show ?case by simp
next
  case (2 n x s)
  then have "children_of s n x = None" by (auto simp: children_of_def split: option.splits)
  with get_child_cases [of n x s h s1] "2.prems"(1) show ?case by auto
next
  case (3 n x y ys s)
  obtain c s2 where c: "get_child n x s = (c, s2)" by (cases "get_child n x s")
  from "3.prems"(1) c have g: "get_path c (y # ys) s2 = (h, s1)" by simp
  from get_child_cases [OF c] consider "children_of s n x = Some c" "s2 = s"
    | "children_of s n x = None" "next_oid s2 = Suc (next_oid s)" "\<forall>k. children_of s2 c k = None"
    by auto
  then show ?case
  proof cases
    case 1
    with "3.prems"(2) have "resolve s2 c (y # ys) = None" by (simp add: children_of_def)
    from "3.IH" [OF c [symmetric] g this] 1 show ?thesis by simp
  next
    case 2
    then have "resolve s2 c (y # ys) = None" by (simp add: children_of_def)
    from "3.IH" [OF c [symmetric] g this] 2 show ?thesis by simp
  qed
qed

lemma resolve_children:
  "(\<And>m. children (nodes s2 m) = children (nodes s1 m)) \<Longrightarrow> resolve s2 n xs = resolve s1 n xs"
  by (induction xs arbitrary: n) (auto split: option.splits)

text \<open>
  C8, amended. In a tree whose cached handles were allocated before the next one (every
  state the engine builds), \<open>get(p)\<close> returns the handle \<open>h\<close> that the child caches
  hold under \<open>p\<close> once it has run, and a second \<open>get(p)\<close> right after it returns \<open>h\<close>
  and changes nothing; so does \<open>get(p)\<close> in any state whose caches still hold \<open>h\<close>
  under \<open>p\<close>, in particular in any state with the same child caches; when the caches
  held no handle under \<open>p\<close> before, \<open>h\<close> is a handle allocated by this call; and
  \<open>get(p/q)\<close> is \<open>get(q)\<close> on \<open>h\<close> in the tree the resolution of \<open>p\<close> left.
\<close>

theorem get_cached_handle:
  assumes "cache_allocated s" and "oid n < next_oid s" and "get n p s = (h, s1)"
  shows "resolve s1 n (split_slash p) = Some h \<and>
         get n p s1 = (h, s1) \<and>
         (\<forall>s2. resolve s2 n (split_slash p) = Some h \<longrightarrow> get n p s2 = (h, s2)) \<and>
         (\<forall>s2. (\<forall>m. children (nodes s2 m) = children (nodes s1 m)) \<longrightarrow> get n p s2 = (h, s2)) \<and>
         (resolve s n (split_slash p) = None \<longrightarrow> next_oid s \<le> oid h \<and> oid h < next_oid s1) \<and>
         get n (p @ ''/'' @ q) s = get h q s1"
proof -
  from assms(3) have g: "get_path n (split_slash p) s = (h, s1)" by (simp add: get_eq_get_path)
  have 1: "resolve s1 n (split_slash p) = Some h" by (rule get_path_resolves [OF g assms(1,2)])
  have 2: "get n p s2 = (h, s2)" if "resolve s2 n (split_slash p) = Some h" for s2
    using get_path_resolved [OF that] by (simp add: get_eq_get_path)
  have 3: "get n p s2 = (h, s2)" if "\<forall>m. children (nodes s2 m) = children (nodes s1 m)" for s2
  proof -
    have "resolve s2 n (split_slash p) = resolve s1 n (split_slash p)"
      by (rule resolve_children) (use that in simp)
    with 1 2 show ?thesis by simp
  qed
  have 4: "next_oid s \<le> oid h \<and> oid h < next_oid s1" if "resolve s n (split_slash p) = None"
    using get_path_fresh [OF g that] get_path_allocated [OF g assms(1,2)] by simp
  have 5: "get n (p @ ''/'' @ q) s = get h q s1" using get_multi [of n p q s] assms(3) by simp
  from 1 2 have 6: "get n p s1 = (h, s1)" by simp
  from 1 2 3 4 5 6 show ?thesis by blast
qed

text \<open>
  C8 as stated fails: after \<open>root.get('a')\<close>, \<open>root.put(5, 1)\<close> replaces the child
  cache of the root, and the next \<open>root.get('a')\<close> returns a handle allocated anew, not
  the first one.
\<close>

theorem get_after_leaf_put_counterexample:
  "cache_allocated (init_state 1) \<and> oid root < next_oid (init_state 1) \<and>
   fst (get root ''a'' (init_state 1)) = Node 1 ''/a'' (Some root) \<and>
   fst (get root ''a'' (snd (put root (JNum 5) 1 None (snd (get root ''a'' (init_state 1)))))) =
     Node 2 ''/a'' (Some root) \<and>
   Node 2 ''/a'' (Some root) \<noteq> Node 1 ''/a'' (Some root)"
  by (simp add: cache_allocated_def children_of_def get.simps get_child_def init_state_def root_def
      new_fields_def Let_def put.simps putValue_def notifyChange_def adapters_set_def
      set_rejected_def update_node_def)

theorem get_cached_handle_witness:
  "cache_allocated (init_state 1) \<and> oid root < next_oid (init_state 1) \<and>
   get root ''a/b'' (init_state 1) =
     (Node 2 ''/a/b'' (Some (Node 1 ''/a'' (Some root))), snd (get root ''a/b'' (init_state 1))) \<and>
   resolve (init_state 1) root (split_slash ''a/b'') = None \<and>
   resolve (snd (get root ''a/b'' (init_state 1))) root (split_slash ''a/b'') =
     Some (Node 2 ''/a/b'' (Some (Node 1 ''/a'' (Some root)))) \<and>
   get root ''a/b'' (snd (get root ''a/b'' (init_state 1))) =
     (Node 2 ''/a/b'' (Some (Node 1 ''/a'' (Some root))), snd (get root ''a/b'' (init_state 1))) \<and>
   fst (get root ''a/b'' (snd (on_sub root (User 1 Returns) False 1
          (snd (get root ''a/b'' (init_state 1)))))) =
     Node 2 ''/a/b'' (Some (Node 1 ''/a'' (Some root))) \<and>
   get root (''a/b'' @ ''/'' @ ''c'') (init_state 1) =
     get (Node 2 ''/a/b'' (Some (Node 1 ''/a'' (Some root)))) ''c''
       (snd (get root ''a/b'' (init_state 1)))"
proof -
  let ?h = "Node 2 ''/a/b'' (Some (Node 1 ''/a'' (Some root)))"
  let ?s1 = "snd (get root ''a/b'' (init_state 1))"
  let ?s2 = "snd (on_sub root (User 1 Returns) False 1 ?s1)"
  have a: "cache_allocated (init_state 1)"
    by (simp add: cache_allocated_def children_of_def init_state_def new_fields_def)
  have b: "oid root < next_oid (init_state 1)"
    by (simp add: root_def init_state_def)
  have "fst (get root ''a/b'' (init_state 1)) = ?h"
    by (simp add: get.simps get_child_def init_state_def root_def new_fields_def Let_def)
  then have c: "get root ''a/b'' (init_state 1) = (?h, ?s1)" by (simp add: prod_eq_iff)
  have d: "resolve (init_state 1) root (split_slash ''a/b'') = None"
    by (simp add: init_state_def new_fields_def)
  have e: "\<forall>m. children (nodes ?s2 m) = children (nodes ?s1 m)"
    by (simp add: on_sub_def Let_def adapter_register_def update_node_def)
  note th = get_cached_handle [OF a b c, of "''c''"]
  from th have 1: "resolve ?s1 root (split_slash ''a/b'') = Some ?h" by simp
  from th 1 have 2: "get root ''a/b'' ?s1 = (?h, ?s1)" by blast
  from th e have 3: "get root ''a/b'' ?s2 = (?h, ?s2)" by blast
  from th have 4: "get root (''a/b'' @ ''/'' @ ''c'') (init_state 1) = get ?h ''c'' ?s1" by simp
  from a b c d 1 2 3 4 show ?thesis by simp
qed

section \<open>The \<open>on\<close> subscription\<close>

text \<open>
  The callbacks an application hands to \<open>on\<close>: its own function, or the wrapper
  \<open>once\<close> builds around it.
\<close>

fun plain :: "Callback \<Rightarrow> bool" where
  "plain (User u b) = True"
| "plain (OnceCb c None) = True"
| "plain (OnceCb c (Some f)) = plain f"
| "plain _ = False"

text \<open>
  The notifications one callback receives, in the order they arrive, each with the
  unsubscribe function its sender passes: from any adapter, or from \<open>notifyChange\<close>.
\<close>

type_synonym notification = "JsonValue \<times> string \<times> int option \<times> Unsubscribe"

fun notify_all :: "Callback \<Rightarrow> notification list \<Rightarrow> state \<Rightarrow> state" where
  "notify_all cb [] s = s"
| "notify_all cb ((v, p, t, u) # ns) s = notify_all cb ns (snd (invoke cb v p t u s))"

text \<open>A subscription \<open>root.on(callback)\<close> on a tree with two adapters.\<close>

definition example_on_state :: state where
  "example_on_state = snd (on_sub root (User 7 Returns) False 1 (init_state 2))"

definition example_localCallback :: Callback where
  "example_localCallback = LocalCallback 0 (User 7 Returns) False 1 root"

text \<open>The same after the notification \<open>(1, '', 200)\<close> was accepted.\<close>

definition example_accepted_state :: state where
  "example_accepted_state =
     snd (invoke example_localCallback (JNum 1) [] (Some 200) Noop example_on_state)"

lemmas example_on_defs =
  example_accepted_state_def example_on_state_def example_localCallback_def on_sub_def Let_def
  init_state_def root_def update_node_def adapter_register_def new_fields_def
  record_latest_def open_directory_def

lemma on_cells_fold_adapter_unsubscribe [simp]:
  "on_cells (fold adapter_unsubscribe ks s) = on_cells s"
  by (induction ks arbitrary: s) (simp_all add: adapter_unsubscribe_def)

lemma on_cells_delete_map [simp]: "on_cells (delete_map n i s) = on_cells s"
  by (simp add: delete_map_def update_node_def)

lemma on_cells_delete_on [simp]: "on_cells (delete_on n i s) = on_cells s"
  by (simp add: delete_on_def update_node_def)

lemma on_cells_map_unsubscribe [simp]: "on_cells (map_unsubscribe d u s) = on_cells s"
proof (induction d arbitrary: u s)
  case 0
  then show ?case by (cases u) (simp add: Let_def)
next
  case (Suc d)
  have f: "on_cells (fold (\<lambda>e. map_unsubscribe d (snd e)) es s') = on_cells s'" for es s'
    by (induction es arbitrary: s') (simp_all add: Suc)
  show ?case by (cases u) (simp add: Let_def f)
qed

lemma on_cells_call_unsub [simp]: "on_cells (call_unsub u s) = on_cells s"
  by (cases u) (simp_all add: Let_def adapter_unsubscribe_def split: option.splits)

lemma on_cells_invoke_plain:
  "plain cb \<Longrightarrow> on_cells (snd (invoke cb v p t u s)) = on_cells s"
proof (induction cb arbitrary: v p t u s rule: plain.induct)
  case (1 u b)
  then show ?case by (cases b) (simp_all add: Let_def invoke.simps)
next
  case (2 c)
  then show ?case by (simp add: Let_def invoke.simps)
next
  case (3 c f)
  let ?s1 = "s\<lparr>once_cells := (once_cells s)(c := \<lparr>resolved = True, promise = Some v\<rparr>)\<rparr>"
  obtain r s2 where i: "invoke f v p t Noop ?s1 = (r, s2)"
    by (cases "invoke f v p t Noop ?s1")
  have "on_cells s2 = on_cells ?s1"
    using "3.IH" [of v p t Noop ?s1] "3.prems" i by simp
  with i show ?case by (simp add: Let_def invoke.simps)
qed simp_all

lemma on_cells_map_sub [simp]: "on_cells (snd (map_sub this cb r s)) = on_cells s"
  by (simp add: map_sub_def Let_def adapter_register_def update_node_def)

lemma on_cells_open_sub [simp]: "on_cells (snd (open_sub this cb r s)) = on_cells s"
  by (simp add: open_sub_def Let_def)

text \<open>What \<open>latestValue\<close> holds after a notification: the notification itself when it
  was accepted with a value and a timestamp, and what it held before otherwise.\<close>

lemma latest_after:
  assumes "plain cb"
  shows "latestValue (on_cells (snd (invoke (LocalCallback c cb riu r this) v p t u s)) c) =
     (case t of
        None \<Rightarrow> latestValue (on_cells s c)
      | Some tt \<Rightarrow>
          if v \<noteq> Undefined \<and> (\<forall>l. latestValue (on_cells s c) = Some l \<longrightarrow> updatedAt l < tt)
          then Some \<lparr>val = v, updatedAt = tt, expiresAt = None\<rparr>
          else latestValue (on_cells s c))"
proof -
  note ip = on_cells_invoke_plain [OF assms]
  have os: "on_cells s' = on_cells s''" if "open_sub this cb (r - 1) s'' = (x, s')" for x s' s''
    using on_cells_open_sub [of this cb "r - 1" s''] that by simp
  show ?thesis
    by (auto simp: invoke.simps Let_def ip os record_latest_def open_directory_def
        split: option.splits prod.splits)
qed

lemma notify_all_append:
  "notify_all cb (ns @ ms) s = notify_all cb ms (notify_all cb ns s)"
  by (induction ns arbitrary: s) auto

lemma latest_mono:
  assumes "plain cb"
  shows "latestValue (on_cells s c) = Some l \<Longrightarrow>
     \<exists>l'. latestValue (on_cells (notify_all (LocalCallback c cb riu r this) ns s) c) = Some l'
          \<and> updatedAt l \<le> updatedAt l'"
proof (induction ns arbitrary: s l)
  case Nil
  then show ?case by simp
next
  case (Cons n ns)
  obtain v p t u where n: "n = (v, p, t, u)" by (cases n)
  let ?s1 = "snd (invoke (LocalCallback c cb riu r this) v p t u s)"
  have "\<exists>l1. latestValue (on_cells ?s1 c) = Some l1 \<and> updatedAt l \<le> updatedAt l1"
    using Cons.prems by (cases t) (auto simp: latest_after [OF assms])
  then obtain l1 where l1: "latestValue (on_cells ?s1 c) = Some l1" "updatedAt l \<le> updatedAt l1"
    by blast
  from Cons.IH [OF l1(1)] obtain l' where
    "latestValue (on_cells (notify_all (LocalCallback c cb riu r this) ns ?s1) c) = Some l'"
    "updatedAt l1 \<le> updatedAt l'" by blast
  with l1(2) n show ?case by auto
qed

lemma drop_stale:
  "latestValue (on_cells s c) = Some l \<Longrightarrow> t \<le> updatedAt l \<Longrightarrow>
   invoke (LocalCallback c cb riu r this) v p (Some t) u s = (Done, s)"
  by (simp add: Let_def invoke.simps)

text \<open>
  C1. Let the notifications \<open>before\<close> reach \<open>localCallback\<close>, then a notification
  with a value \<open>v0\<close> and a timestamp \<open>t0\<close> that is accepted (no recorded timestamp is
  \<open>t0\<close> or later), then any notifications \<open>after\<close>, with whatever unsubscribe
  functions their senders pass. A notification with a timestamp \<open>t \<le> t0\<close> that
  arrives then is dropped: the callback is not invoked and nothing changes. With the
  last accepted notification for \<open>(v0, t0)\<close>, this is the claim.
\<close>

theorem on_last_write_wins:
  assumes "plain cb" and "v0 \<noteq> Undefined"
    and "\<forall>l. latestValue (on_cells (notify_all (LocalCallback c cb riu r this) before s) c) = Some l
           \<longrightarrow> updatedAt l < t0"
    and "t \<le> t0"
  shows "invoke (LocalCallback c cb riu r this) v p (Some t) u
           (notify_all (LocalCallback c cb riu r this) (before @ [(v0, p0, Some t0, u0)] @ after) s)
         = (Done, notify_all (LocalCallback c cb riu r this) (before @ [(v0, p0, Some t0, u0)] @ after) s)"
proof -
  let ?lc = "LocalCallback c cb riu r this"
  let ?s1 = "notify_all ?lc before s"
  let ?s2 = "snd (invoke ?lc v0 p0 (Some t0) u0 ?s1)"
  have "latestValue (on_cells ?s2 c) = Some \<lparr>val = v0, updatedAt = t0, expiresAt = None\<rparr>"
    using assms(2,3) by (simp add: latest_after [OF assms(1)])
  from latest_mono [OF assms(1) this, of riu r this after]
  obtain l' where l': "latestValue (on_cells (notify_all ?lc after ?s2) c) = Some l'"
    "t0 \<le> updatedAt l'" by auto
  have "notify_all ?lc (before @ [(v0, p0, Some t0, u0)] @ after) s = notify_all ?lc after ?s2"
    by (simp add: notify_all_append)
  with drop_stale [OF l'(1), of t] l'(2) assms(4) show ?thesis by simp
qed

theorem on_last_write_wins_witness:
  "plain (User 7 Returns) \<and> JNum 1 \<noteq> Undefined \<and>
   latestValue (on_cells (notify_all (LocalCallback 0 (User 7 Returns) False 1 root) []
          example_on_state) 0) = None \<and>
   (100 :: int) \<le> 200 \<and>
   invoke (LocalCallback 0 (User 7 Returns) False 1 root) (JNum 3) [] (Some 100) (AdapterUnsub 1)
     (notify_all (LocalCallback 0 (User 7 Returns) False 1 root)
        ([] @ [(JNum 1, [], Some 200, AdapterUnsub 0)] @ [(JNum 2, [], None, Noop)]) example_on_state)
   = (Done, notify_all (LocalCallback 0 (User 7 Returns) False 1 root)
        ([] @ [(JNum 1, [], Some 200, AdapterUnsub 0)] @ [(JNum 2, [], None, Noop)]) example_on_state) \<and>
   map d_value (log (notify_all (LocalCallback 0 (User 7 Returns) False 1 root)
        ([] @ [(JNum 1, [], Some 200, AdapterUnsub 0)] @ [(JNum 2, [], None, Noop)]) example_on_state))
   = [JNum 1, JNum 2]"
proof -
  have n: "latestValue (on_cells (notify_all (LocalCallback 0 (User 7 Returns) False 1 root) []
          example_on_state) 0) = None"
    by (simp add: example_on_defs)
  then have a: "\<forall>l. latestValue (on_cells (notify_all (LocalCallback 0 (User 7 Returns) False 1 root) []
          example_on_state) 0) = Some l \<longrightarrow> updatedAt l < 200"
    by simp
  have b: "map d_value (log (notify_all (LocalCallback 0 (User 7 Returns) False 1 root)
        ([] @ [(JNum 1, [], Some 200, AdapterUnsub 0)] @ [(JNum 2, [], None, Noop)]) example_on_state))
     = [JNum 1, JNum 2]"
    by (simp add: example_on_defs invoke.simps)
  have c: "plain (User 7 Returns)" "JNum 1 \<noteq> Undefined" "(100 :: int) \<le> 200" by simp_all
  from on_last_write_wins [OF c(1) c(2) a c(3), of "JNum 3" "[]" "AdapterUnsub 1" "[]"
      "AdapterUnsub 0" "[(JNum 2, [], None, Noop)]"] n b c
  show ?thesis by blast
qed

text \<open>
  C9 as stated fails: after \<open>(1, '', 200)\<close> was accepted, the notification
  \<open>({}, '', undefined)\<close> has a value and no timestamp, and the callback of a
  subscription with the default \<open>recursion = 1\<close> is not invoked for it (the engine
  opens the directory instead).
\<close>

theorem on_undefined_time_directory_counterexample:
  "latestValue (on_cells example_accepted_state 0) =
     Some \<lparr>val = JNum 1, updatedAt = 200, expiresAt = None\<rparr> \<and>
   JObj [] \<noteq> Undefined \<and>
   log (snd (invoke (LocalCallback 0 (User 7 Returns) False 1 root) (JObj []) [] None Noop
          example_accepted_state))
     = log example_accepted_state"
  by (simp add: example_on_defs invoke.simps open_sub_def map_sub_def)

text \<open>
  C9, amended. A notification with a value and no timestamp is never dropped as stale,
  whatever was accepted before: when the value is not the directory marker, or the
  recursion budget is 0, \<open>localCallback\<close> does exactly what invoking the callback with
  the same four arguments does; and in every case the recorded latest value stays as
  it was.
\<close>

theorem on_undefined_time_delivered:
  assumes "v \<noteq> Undefined" and "plain cb"
  shows "(\<not> isDirectory v \<or> r = 0 \<longrightarrow>
            invoke (LocalCallback c cb riu r this) v p None u s = invoke cb v p None u s) \<and>
         latestValue (on_cells (snd (invoke (LocalCallback c cb riu r this) v p None u s)) c) =
           latestValue (on_cells s c)"
proof -
  have "invoke (LocalCallback c cb riu r this) v p None u s = invoke cb v p None u s"
    if "\<not> isDirectory v \<or> r = 0"
    using that assms(1)
    by (auto simp: invoke.simps Let_def record_latest_def open_directory_def split: option.splits)
  then show ?thesis by (simp add: latest_after [OF assms(2)])
qed

theorem on_undefined_time_delivered_witness:
  "JNum 2 \<noteq> Undefined \<and> plain (User 7 Returns) \<and> \<not> isDirectory (JNum 2) \<and>
   invoke (LocalCallback 0 (User 7 Returns) False 1 root) (JNum 2) [] None Noop example_accepted_state
     = invoke (User 7 Returns) (JNum 2) [] None Noop example_accepted_state \<and>
   latestValue (on_cells (snd (invoke (LocalCallback 0 (User 7 Returns) False 1 root) (JNum 2) []
       None Noop example_accepted_state)) 0) = latestValue (on_cells example_accepted_state 0) \<and>
   map d_value (log (snd (invoke (LocalCallback 0 (User 7 Returns) False 1 root) (JNum 2) []
       None Noop example_accepted_state))) = [JNum 1, JNum 2]"
proof -
  have a: "JNum 2 \<noteq> Undefined" "plain (User 7 Returns)" "\<not> isDirectory (JNum 2)"
    by simp_all
  have b: "map d_value (log (snd (invoke (LocalCallback 0 (User 7 Returns) False 1 root) (JNum 2) []
       None Noop example_accepted_state))) = [JNum 1, JNum 2]"
    by (simp add: example_on_defs invoke.simps)
  from on_undefined_time_delivered [OF a(1) a(2), of 1 0 False root "[]" Noop example_accepted_state]
    a b show ?thesis by blast
qed

section \<open>The \<open>open\<close> subscription\<close>

text \<open>
  C10. Whatever \<open>open\<close>'s arrow function receives, it invokes the subscriber's
  callback with \<open>() => {}\<close> as the fourth argument, having touched neither the node
  tables nor the adapter registrations nor the cells of \<open>on\<close> and \<open>map\<close>; calling
  that function changes nothing, so a subscriber that calls it leaves every table as it
  was.
\<close>

theorem open_unsubscribe_argument_noop:
  "(\<exists>v' t' s'. invoke (OpenCallback c cb this) v p t u s = invoke cb v' (node_id this) t' Noop s' \<and>
       nodes s' = nodes s \<and> adapter_subs s' = adapter_subs s \<and> on_cells s' = on_cells s \<and>
       map_cells s' = map_cells s) \<and>
   call_unsub Noop s = s \<and>
   nodes (snd (invoke (OpenCallback c (User k Unsubscribes) this) v p t u s)) = nodes s \<and>
   adapter_subs (snd (invoke (OpenCallback c (User k Unsubscribes) this) v p t u s)) = adapter_subs s \<and>
   d_unsubscribe (last (log (snd (invoke (OpenCallback c (User k b) this) v p t u s)))) = Noop"
proof -
  have a: "\<exists>v' t' s'. invoke (OpenCallback c cb this) v p t u s = invoke cb v' (node_id this) t' Noop s' \<and>
       nodes s' = nodes s \<and> adapter_subs s' = adapter_subs s \<and> on_cells s' = on_cells s \<and>
       map_cells s' = map_cells s"
    by (auto simp: invoke.simps Let_def track_latestTime_def aggregate_def split: option.splits
        intro!: exI)
  have b: "nodes (snd (invoke (OpenCallback c (User k Unsubscribes) this) v p t u s)) = nodes s"
    by (simp add: invoke.simps Let_def track_latestTime_def aggregate_def split: option.splits)
  have c: "adapter_subs (snd (invoke (OpenCallback c (User k Unsubscribes) this) v p t u s)) = adapter_subs s"
    by (simp add: invoke.simps Let_def track_latestTime_def aggregate_def split: option.splits)
  have d: "d_unsubscribe (last (log (snd (invoke (OpenCallback c (User k b) this) v p t u s)))) = Noop"
    by (cases b) (simp_all add: invoke.simps Let_def track_latestTime_def aggregate_def
        split: option.splits)
  from a b c d show ?thesis by simp
qed

section \<open>Scenarios on the node \<open>a\<close>\<close>

text \<open>\<open>root.get('a')\<close> on a tree with one adapter.\<close>

definition node_a :: node where
  "node_a = Node 1 ''/a'' (Some root)"

definition tree_a :: state where
  "tree_a = snd (get root ''a'' (init_state 1))"

lemmas eval_defs =
  node_a_def tree_a_def get.simps get_child_def init_state_def Let_def root_def
  new_fields_def once_sub_def on_sub_def map_sub_def open_sub_def update_node_def
  adapter_register_def put.simps putValue_def notifyChange_def adapters_set_def set_rejected_def
  invoke.simps DIRECTORY_VALUE_def childNameOf_def cache_child_def record_latest_def open_directory_def
  track_latestTime_def aggregate_def record_child_def open_child_def

section \<open>\<open>once\<close>\<close>

text \<open>\<open>a.once(callback)\<close>, and the state after \<open>a.put(5, 100)\<close>.\<close>

definition once_state :: state where
  "once_state = snd (once_sub node_a (Some (User 7 Returns)) False 1 tree_a)"

definition once_written :: state where
  "once_written = snd (put node_a (JNum 5) 100 None once_state)"

text \<open>
  C5. After \<open>a.once(callback)\<close>, \<open>a.put(5, 100)\<close> resolves the promise with 5 and
  invokes the callback once; a second \<open>a.put(6, 200)\<close> does not invoke it again. But
  \<open>notifyChange\<close> passed \<open>() => {}\<close> as the unsubscribe function, and what
  \<open>this.on(...)\<close> returned was dropped: the entry is still in \<open>on_subscriptions\<close>, the
  adapter registration is still there, and the second write still runs
  \<open>localCallback\<close>, which records it.
\<close>

theorem once_stays_subscribed:
  "fst (put node_a (JNum 5) 100 None once_state) = Done \<and>
   promise (once_cells once_written 0) = Some (JNum 5) \<and>
   map d_value (log once_written) = [JNum 5] \<and>
   map fst (on_subscriptions (nodes once_written node_a)) = [0] \<and>
   map fst (adapter_subs once_written) = [0] \<and>
   map d_value (log (snd (put node_a (JNum 6) 200 None once_written))) = [JNum 5] \<and>
   latestValue (on_cells (snd (put node_a (JNum 6) 200 None once_written)) 1) =
     Some \<lparr>val = JNum 6, updatedAt = 200, expiresAt = None\<rparr>"
  by (simp add: once_written_def once_state_def eval_defs)

section \<open>Callbacks that throw\<close>

text \<open>Two subscriptions \<open>a.on(...)\<close>: the first callback throws, the second returns.\<close>

definition two_subscribers :: state where
  "two_subscribers =
     snd (on_sub node_a (User 2 Returns) False 1 (snd (on_sub node_a (User 1 Throws) False 1 tree_a)))"

definition two_subscribers_set :: state where
  "two_subscribers_set =
     adapters_set (node_id node_a) \<lparr>val = JNum 5, updatedAt = 100, expiresAt = None\<rparr>
       (update_node node_a (\<lambda>f. f\<lparr>children := (\<lambda>k. None)\<rparr>) two_subscribers)"

definition first_subscription :: Subscription where
  "first_subscription = \<lparr>callback = LocalCallback 0 (User 1 Throws) False 1 node_a, recursion = 1\<rparr>"

definition second_subscription :: Subscription where
  "second_subscription = \<lparr>callback = LocalCallback 1 (User 2 Returns) False 1 node_a, recursion = 1\<rparr>"

lemma notify_each_append:
  "notify_each this (pre @ post) v t s =
     (case notify_each this pre v t s of
        (Failed, s1) \<Rightarrow> (Failed, s1)
      | (Done, s1) \<Rightarrow> notify_each this post v t s1)"
  by (induction pre arbitrary: s) (auto split: prod.splits completion.splits)

text \<open>
  C7 as stated fails: \<open>a.put(5, 100)\<close> with these two subscribers invokes the first
  callback only, and the \<open>put\<close> is rejected.
\<close>

theorem throwing_subscriber_counterexample:
  "map (\<lambda>e. callback (snd e)) (on_subscriptions (nodes two_subscribers node_a)) =
     [LocalCallback 0 (User 1 Throws) False 1 node_a, LocalCallback 1 (User 2 Returns) False 1 node_a] \<and>
   fst (put node_a (JNum 5) 100 None two_subscribers) = Failed \<and>
   map d_callback (log (snd (put node_a (JNum 5) 100 None two_subscribers))) = [1]"
  by (simp add: two_subscribers_def eval_defs)

section \<open>What callbacks leave alone\<close>

fun get_free :: "Callback \<Rightarrow> bool" where
  "get_free (User u b) = True"
| "get_free (OnceCb c None) = True"
| "get_free (OnceCb c (Some f)) = get_free f"
| "get_free (LocalCallback c cb riu r this) = get_free cb"
| "get_free (OpenCallback c cb this) = get_free cb"
| "get_free (TypedCallback cb) = get_free cb"
| "get_free (MapCb c cb r this i) = False"

definition tables_get_free :: "state \<Rightarrow> bool" where
  "tables_get_free s \<longleftrightarrow>
     (\<forall>n e. e \<in> set (on_subscriptions (nodes s n)) \<union> set (map_subscriptions (nodes s n))
        \<longrightarrow> get_free (callback (snd e)))"

text \<open>What the callbacks of a write leave alone.\<close>

definition kept :: "state \<Rightarrow> state \<Rightarrow> bool" where
  "kept s s' \<longleftrightarrow>
     (\<forall>n. children (nodes s' n) = children (nodes s n)) \<and> sets s' = sets s \<and>
     adapters s' = adapters s \<and> failing s' = failing s \<and> next_oid s' = next_oid s \<and>
     (tables_get_free s \<longrightarrow> tables_get_free s')"

lemma kept_refl [simp]: "kept s s"
  by (simp add: kept_def)

lemma kept_trans: "kept s s1 \<Longrightarrow> kept s1 s2 \<Longrightarrow> kept s s2"
  by (simp add: kept_def)

lemma set_map_delete: "set (map_delete k xs) \<subseteq> set xs"
  by (auto simp: map_delete_def)

lemma set_map_set: "set (map_set k v xs) \<subseteq> insert (k, v) (set xs)"
  by (induction xs) (auto split: if_splits)

lemma kept_delete_map [simp]: "kept s (delete_map n i s)"
  using set_map_delete [of i]
  by (fastforce simp: kept_def delete_map_def update_node_def tables_get_free_def)

lemma kept_delete_on [simp]: "kept s (delete_on n i s)"
  using set_map_delete [of i]
  by (fastforce simp: kept_def delete_on_def update_node_def tables_get_free_def)

lemma kept_adapter_unsubscribe [simp]: "kept s (adapter_unsubscribe k s)"
  by (simp add: kept_def adapter_unsubscribe_def tables_get_free_def)

lemma kept_fold:
  assumes "\<And>x s. kept s (f x s)"
  shows "kept s (fold f xs s)"
proof (induction xs arbitrary: s)
  case Nil
  show ?case by simp
next
  case (Cons x xs)
  show ?case using kept_trans [OF assms [of s x] Cons [of "f x s"]] by simp
qed

lemma kept_map_unsubscribe [simp]: "kept s (map_unsubscribe d u s)"
proof (induction d arbitrary: u s)
  case 0
  obtain n i c r where u: "u = MapUnsub n i c r" by (cases u)
  have "kept s (fold adapter_unsubscribe (adapterSubs (map_cells (delete_map n i s) c)) (delete_map n i s))"
    by (rule kept_trans [OF kept_delete_map]) (rule kept_fold, simp)
  with u show ?case by (simp add: Let_def)
next
  case (Suc d)
  obtain n i c r where u: "u = MapUnsub n i c r" by (cases u)
  let ?s1 = "delete_map n i s"
  let ?s2 = "fold adapter_unsubscribe (adapterSubs (map_cells ?s1 c)) ?s1"
  have 1: "kept s ?s2"
    by (rule kept_trans [OF kept_delete_map]) (rule kept_fold, simp)
  have 2: "kept ?s2 (fold (\<lambda>e. map_unsubscribe d (snd e)) (openUnsubs (map_cells ?s2 c)) ?s2)"
    by (rule kept_fold) (rule Suc)
  from kept_trans [OF 1 2] u show ?case by (simp add: Let_def)
qed

lemma kept_call_unsub [simp]: "kept s (call_unsub u s)"
proof (cases u)
  case (UnsubscribeAll n i c ks)
  let ?s1 = "delete_on n i s"
  let ?s2 = "fold adapter_unsubscribe ks ?s1"
  have 1: "kept s ?s2"
    by (rule kept_trans [OF kept_delete_on]) (rule kept_fold, simp)
  show ?thesis
  proof (cases "openUnsubscribe (on_cells ?s2 c)")
    case None
    with 1 UnsubscribeAll show ?thesis by (simp add: Let_def)
  next
    case (Some m)
    with kept_trans [OF 1 kept_map_unsubscribe] UnsubscribeAll show ?thesis by (simp add: Let_def)
  qed
qed simp_all


lemma kept_map_sub: "get_free cb \<Longrightarrow> kept s (snd (map_sub this cb r s))"
  using set_map_set [of "counter (nodes s this)" "\<lparr>callback = TypedCallback cb, recursion = r\<rparr>"
      "map_subscriptions (nodes s this)"]
  by (fastforce simp: kept_def map_sub_def Let_def adapter_register_def update_node_def
      tables_get_free_def)

lemma kept_open_sub: "get_free cb \<Longrightarrow> kept s (snd (open_sub this cb r s))"
proof -
  assume g: "get_free cb"
  let ?s1 = "s\<lparr>next_cell := Suc (next_cell s),
                 open_cells := (open_cells s)(next_cell s := \<lparr>aggregated = [], latestTime = None\<rparr>)\<rparr>"
  have 1: "kept s ?s1" by (simp add: kept_def tables_get_free_def)
  have 2: "kept ?s1 (snd (map_sub this (OpenCallback (next_cell s) cb this) r ?s1))"
    by (rule kept_map_sub) (simp add: g)
  from kept_trans [OF 1 2] show ?thesis by (simp add: open_sub_def Let_def)
qed

lemma kept_cells:
  "kept s (s\<lparr>on_cells := a\<rparr>)" "kept s (s\<lparr>open_cells := b\<rparr>)" "kept s (s\<lparr>once_cells := c\<rparr>)"
  "kept s (s\<lparr>map_cells := d\<rparr>)" "kept s (s\<lparr>log := l\<rparr>)"
  by (simp_all add: kept_def tables_get_free_def)

lemma kept_record_latest [simp]: "kept s (record_latest c v t s)"
  by (auto simp: record_latest_def split: option.splits intro: kept_cells)

lemma kept_track_latestTime [simp]: "kept s (track_latestTime c t s)"
  by (auto simp: track_latestTime_def split: option.splits intro: kept_cells)

lemma kept_aggregate [simp]: "kept s (aggregate c k v s)"
  by (auto simp: aggregate_def intro: kept_cells)

lemma kept_open_directory: "get_free cb \<Longrightarrow> kept s (open_directory c cb r this v s)"
  using kept_trans [OF kept_open_sub [of cb s this "r - 1"] kept_cells(1)]
  by (auto simp: open_directory_def split: prod.splits)

lemma kept_invoke: "get_free cb \<Longrightarrow> kept s (snd (invoke cb v p t u s))"
proof (induction cb arbitrary: v p t u s rule: get_free.induct)
  case (1 k b)
  let ?s1 = "s\<lparr>log := log s @ [\<lparr>d_callback = k, d_value = v, d_path = p,
                 d_updatedAt = t, d_unsubscribe = u\<rparr>]\<rparr>"
  have "kept s ?s1" by (rule kept_cells)
  with kept_trans [OF this kept_call_unsub [of ?s1 u]] show ?case
    by (cases b) (simp_all add: invoke.simps Let_def)
next
  case (2 c)
  let ?s1 = "s\<lparr>once_cells := (once_cells s)(c := \<lparr>resolved = True, promise = Some v\<rparr>)\<rparr>"
  have "kept s ?s1" by (rule kept_cells)
  with kept_trans [OF this kept_call_unsub [of ?s1 u]] show ?case
    by (simp add: invoke.simps Let_def)
next
  case (3 c f)
  let ?s1 = "s\<lparr>once_cells := (once_cells s)(c := \<lparr>resolved = True, promise = Some v\<rparr>)\<rparr>"
  obtain r s2 where i: "invoke f v p t Noop ?s1 = (r, s2)" by (cases "invoke f v p t Noop ?s1")
  have 1: "kept s ?s1" by (rule kept_cells)
  have "kept ?s1 (snd (invoke f v p t Noop ?s1))" using "3.prems" by (intro "3.IH") simp
  then have 2: "kept ?s1 s2" using i by simp
  from kept_trans [OF kept_trans [OF 1 2] kept_call_unsub [of s2 u]] kept_trans [OF 1 2] i
  show ?case by (simp add: invoke.simps Let_def)
next
  case (4 c cb riu r this)
  then have g: "get_free cb" by simp
  note ih = "4.IH" [OF g]
  let ?s2 = "open_directory c cb r this v (record_latest c v t s)"
  have 12: "kept s ?s2"
    by (rule kept_trans [OF kept_record_latest kept_open_directory [OF g]])
  have 3: "kept s (snd (invoke cb v p t u ?s2))" by (rule kept_trans [OF 12 ih])
  have 4: "kept s (snd (invoke cb v p t u s))" by (rule ih)
  show ?case
    using 12 3 4 by (auto simp: invoke.simps Let_def)
next
  case (5 c cb this)
  then have g: "get_free cb" by simp
  note ih = "5.IH" [OF g]
  have "kept s (aggregate c (childNameOf p) v (track_latestTime c t s))"
    by (rule kept_trans [OF kept_track_latestTime kept_aggregate])
  from kept_trans [OF this ih] show ?case
    by (simp add: invoke.simps Let_def)
next
  case (6 cb)
  then show ?case by (simp add: invoke.simps)
next
  case (7 c cb r this i)
  then show ?case by simp
qed

lemma kept_notify_each:
  "tables_get_free s \<Longrightarrow> \<forall>e\<in>set subs. get_free (callback (snd e)) \<Longrightarrow>
   kept s (snd (notify_each this subs v t s))"
proof (induction subs arbitrary: s)
  case Nil
  then show ?case by simp
next
  case (Cons e subs)
  obtain i sub where e: "e = (i, sub)" by (cases e)
  obtain r s1 where inv: "invoke (callback sub) v (node_id this) t Noop s = (r, s1)"
    by (cases "invoke (callback sub) v (node_id this) t Noop s")
  have k1: "kept s s1"
    using kept_invoke [of "callback sub" s v "node_id this" t Noop] Cons.prems(2) e inv by simp
  then have "tables_get_free s1" using Cons.prems(1) by (simp add: kept_def)
  then have "kept s1 (snd (notify_each this subs v t s1))"
    using Cons.IH Cons.prems(2) by simp
  with k1 have k2: "kept s (snd (notify_each this subs v t s1))" by (rule kept_trans)
  have k3: "kept s (snd (notify_each this subs v t s))"
    using Cons.IH Cons.prems by simp
  show ?case using e inv k1 k2 k3 by (cases r) simp_all
qed

lemma kept_notifyChange:
  "tables_get_free s \<Longrightarrow> kept s (snd (notifyChange this v t s))"
  unfolding notifyChange_def
  by (rule kept_notify_each) (auto simp: tables_get_free_def)

lemma kept_map_each:
  "tables_get_free s \<Longrightarrow> \<forall>e\<in>set subs. get_free (callback (snd e)) \<Longrightarrow>
   kept s (snd (map_each this q subs v t s))"
proof (induction subs arbitrary: s)
  case Nil
  then show ?case by simp
next
  case (Cons e subs)
  obtain i sub where e: "e = (i, sub)" by (cases e)
  obtain r s1 where inv:
    "invoke (callback sub) v (node_id this) (Some t) (ParentMapDelete q i) s = (r, s1)"
    by (cases "invoke (callback sub) v (node_id this) (Some t) (ParentMapDelete q i) s")
  have k1: "kept s s1"
    using kept_invoke [of "callback sub" s v "node_id this" "Some t" "ParentMapDelete q i"]
      Cons.prems(2) e inv by simp
  then have "tables_get_free s1" using Cons.prems(1) by (simp add: kept_def)
  then have "kept s1 (snd (map_each this q subs v t s1))"
    using Cons.IH Cons.prems(2) by simp
  with k1 have k2: "kept s (snd (map_each this q subs v t s1))" by (rule kept_trans)
  have k3: "kept s (snd (map_each this q subs v t s))"
    using Cons.IH Cons.prems by simp
  show ?case using e inv k1 k2 k3 by (cases r) simp_all
qed

section \<open>The steps of \<open>put\<close>\<close>

definition put_local :: "node \<Rightarrow> JsonValue \<Rightarrow> int \<Rightarrow> int option \<Rightarrow> state \<Rightarrow> completion \<times> state" where
  "put_local this v t e s =
     (if isNonEmptyObject v
      then (let s1 = adapters_set (node_id this)
                       \<lparr>val = DIRECTORY_VALUE, updatedAt = t, expiresAt = e\<rparr> s
            in case putChildren this (entries v) t s1 of
                 (r, s2) \<Rightarrow> (if set_rejected s2 then Failed else r, s2))
      else putValue this v t e s)"

lemma put_unfold:
  "put this v t e s =
     (case put_local this v t e s of
        (Failed, s3) \<Rightarrow> (Failed, s3)
      | (Done, s3) \<Rightarrow>
          (case parent this of
             None \<Rightarrow> (Done, s3)
           | Some p \<Rightarrow>
               (case put p DIRECTORY_VALUE t None s3 of
                  (Failed, s4) \<Rightarrow> (Failed, s4)
                | (Done, s4) \<Rightarrow>
                    (let s5 = cache_child p this s4
                     in map_each this p (map_subscriptions (nodes s5 p)) v t s5))))"
  by (subst put.simps) (simp add: put_local_def Let_def)

text \<open>What no callback and no path resolution touches: the writes and the adapters.\<close>

definition quiet :: "state \<Rightarrow> state \<Rightarrow> bool" where
  "quiet s s' \<longleftrightarrow> sets s' = sets s \<and> adapters s' = adapters s \<and> failing s' = failing s"

lemma quiet_refl [simp]: "quiet s s"
  by (simp add: quiet_def)

lemma quiet_trans: "quiet s s1 \<Longrightarrow> quiet s1 s2 \<Longrightarrow> quiet s s2"
  by (simp add: quiet_def)

lemma quiet_fold:
  assumes "\<And>x s. quiet s (f x s)"
  shows "quiet s (fold f xs s)"
proof (induction xs arbitrary: s)
  case Nil
  show ?case by simp
next
  case (Cons x xs)
  show ?case using quiet_trans [OF assms [of s x] Cons [of "f x s"]] by simp
qed

lemma quiet_prims [simp]:
  "quiet s (delete_map n i s)" "quiet s (delete_on n i s)" "quiet s (adapter_unsubscribe k s)"
  "quiet s (update_node n f s)"
  "quiet s (s\<lparr>on_cells := a\<rparr>)" "quiet s (s\<lparr>open_cells := b\<rparr>)" "quiet s (s\<lparr>once_cells := c\<rparr>)"
  "quiet s (s\<lparr>map_cells := d\<rparr>)" "quiet s (s\<lparr>log := l\<rparr>)"
  by (simp_all add: quiet_def delete_map_def delete_on_def adapter_unsubscribe_def update_node_def)

lemma quiet_map_unsubscribe [simp]: "quiet s (map_unsubscribe d u s)"
proof (induction d arbitrary: u s)
  case 0
  obtain n i c r where u: "u = MapUnsub n i c r" by (cases u)
  have "quiet s (fold adapter_unsubscribe (adapterSubs (map_cells (delete_map n i s) c)) (delete_map n i s))"
    by (rule quiet_trans [OF quiet_prims(1)]) (rule quiet_fold, simp)
  with u show ?case by (simp add: Let_def)
next
  case (Suc d)
  obtain n i c r where u: "u = MapUnsub n i c r" by (cases u)
  let ?s1 = "delete_map n i s"
  let ?s2 = "fold adapter_unsubscribe (adapterSubs (map_cells ?s1 c)) ?s1"
  have 1: "quiet s ?s2"
    by (rule quiet_trans [OF quiet_prims(1)]) (rule quiet_fold, simp)
  have 2: "quiet ?s2 (fold (\<lambda>e. map_unsubscribe d (snd e)) (openUnsubs (map_cells ?s2 c)) ?s2)"
    by (rule quiet_fold) (rule Suc)
  from quiet_trans [OF 1 2] u show ?case by (simp add: Let_def)
qed

lemma quiet_call_unsub [simp]: "quiet s (call_unsub u s)"
proof (cases u)
  case (UnsubscribeAll n i c ks)
  let ?s1 = "delete_on n i s"
  let ?s2 = "fold adapter_unsubscribe ks ?s1"
  have 1: "quiet s ?s2"
    by (rule quiet_trans [OF quiet_prims(2)]) (rule quiet_fold, simp)
  show ?thesis
  proof (cases "openUnsubscribe (on_cells ?s2 c)")
    case None
    with 1 UnsubscribeAll show ?thesis by (simp add: Let_def)
  next
    case (Some m)
    with quiet_trans [OF 1 quiet_map_unsubscribe] UnsubscribeAll show ?thesis by (simp add: Let_def)
  qed
qed simp_all

lemma quiet_map_sub [simp]: "quiet s (snd (map_sub this cb r s))"
  by (simp add: quiet_def map_sub_def Let_def adapter_register_def update_node_def)

lemma quiet_open_sub [simp]: "quiet s (snd (open_sub this cb r s))"
proof -
  let ?s1 = "s\<lparr>next_cell := Suc (next_cell s),
                 open_cells := (open_cells s)(next_cell s := \<lparr>aggregated = [], latestTime = None\<rparr>)\<rparr>"
  have 1: "quiet s ?s1" by (simp add: quiet_def)
  from quiet_trans [OF 1 quiet_map_sub] show ?thesis by (simp add: open_sub_def Let_def)
qed

lemma quiet_get_child [simp]: "quiet s (snd (get_child n x s))"
  by (simp add: quiet_def get_child_def Let_def split: option.splits)

lemma quiet_get_path [simp]: "quiet s (snd (get_path n xs s))"
proof (induction n xs s rule: get_path.induct)
  case (3 n x y ys s)
  obtain c s1 where c: "get_child n x s = (c, s1)" by (cases "get_child n x s")
  have 1: "quiet s s1" using quiet_get_child [of s n x] c by simp
  have 2: "quiet s1 (snd (get_path c (y # ys) s1))" using 3 c by simp
  from quiet_trans [OF 1 2] c show ?case by simp
qed simp_all

lemma quiet_get [simp]: "quiet s (snd (get n key s))"
  by (simp add: get_eq_get_path)

lemma quiet_steps [simp]:
  "quiet s (record_latest c v t s)" "quiet s (track_latestTime c t s)" "quiet s (aggregate c k v s)"
  "quiet s (record_child c p v t s)"
  by (auto simp: record_latest_def track_latestTime_def aggregate_def record_child_def
      split: option.splits)

lemma quiet_open_directory [simp]: "quiet s (open_directory c cb r this v s)"
  using quiet_trans [OF quiet_open_sub [of s this cb "r - 1"] quiet_prims(5)]
  by (auto simp: open_directory_def split: prod.splits)

lemma quiet_open_child [simp]: "quiet s (open_child c cb r this k s)"
proof (cases "map_of (openUnsubs (map_cells s c)) k = None")
  case False
  then show ?thesis by (auto simp: open_child_def)
next
  case True
  obtain child s1 where g: "get this k s = (child, s1)" by (cases "get this k s")
  obtain u s2 where o: "open_sub child cb (r - 1) s1 = (u, s2)" by (cases "open_sub child cb (r - 1) s1")
  have 1: "quiet s s1" using quiet_get [of s this k] g by simp
  have 2: "quiet s1 s2" using quiet_open_sub [of s1 child cb "r - 1"] o by simp
  from quiet_trans [OF quiet_trans [OF 1 2] quiet_prims(8)] True g o
  show ?thesis by (simp add: open_child_def)
qed

lemma quiet_invoke [simp]: "quiet s (snd (invoke cb v p t u s))"
proof (induction cb arbitrary: v p t u s)
  case (User k b)
  let ?s1 = "s\<lparr>log := log s @ [\<lparr>d_callback = k, d_value = v, d_path = p,
                 d_updatedAt = t, d_unsubscribe = u\<rparr>]\<rparr>"
  have "quiet s ?s1" by simp
  with quiet_trans [OF this quiet_call_unsub [of ?s1 u]] show ?case
    by (cases b) (simp_all add: invoke.simps Let_def)
next
  case (OnceCb c cb)
  let ?s1 = "s\<lparr>once_cells := (once_cells s)(c := \<lparr>resolved = True, promise = Some v\<rparr>)\<rparr>"
  have 1: "quiet s ?s1" by simp
  show ?case
  proof (cases cb)
    case None
    with quiet_trans [OF 1 quiet_call_unsub [of ?s1 u]] show ?thesis
      by (simp add: invoke.simps Let_def)
  next
    case (Some f)
    obtain r s2 where i: "invoke f v p t Noop ?s1 = (r, s2)" by (cases "invoke f v p t Noop ?s1")
    have "quiet ?s1 (snd (invoke f v p t Noop ?s1))"
      using OnceCb Some by simp
    then have 2: "quiet s s2" using i quiet_trans [OF 1] by simp
    from 2 quiet_trans [OF 2 quiet_call_unsub [of s2 u]] Some i show ?thesis
      by (simp add: invoke.simps Let_def)
  qed
next
  case (LocalCallback c cb riu r this)
  let ?s2 = "open_directory c cb r this v (record_latest c v t s)"
  have 12: "quiet s ?s2"
    by (rule quiet_trans [OF quiet_steps(1) quiet_open_directory])
  have 3: "quiet s (snd (invoke cb v p t u ?s2))" by (rule quiet_trans [OF 12 LocalCallback])
  have 4: "quiet s (snd (invoke cb v p t u s))" by (rule LocalCallback)
  show ?case
    using 12 3 4 by (auto simp: invoke.simps Let_def)
next
  case (OpenCallback c cb this)
  have "quiet s (aggregate c (childNameOf p) v (track_latestTime c t s))"
    by (rule quiet_trans [OF quiet_steps(2) quiet_steps(3)])
  from quiet_trans [OF this OpenCallback] show ?case
    by (simp add: invoke.simps Let_def)
next
  case (TypedCallback cb)
  then show ?case by (simp add: invoke.simps)
next
  case (MapCb c cb r this i)
  let ?s1 = "record_child c p v t s"
  have 1: "quiet s ?s1" by simp
  have 2: "quiet s (open_child c cb r this (childNameOf p) ?s1)"
    by (rule quiet_trans [OF 1 quiet_open_child])
  have 3: "quiet s (snd (invoke cb v p t (MapUnsubscribe (MapUnsub this i c r)) ?s1))"
    by (rule quiet_trans [OF 1 MapCb])
  show ?case using 2 3 by (auto simp: invoke.simps Let_def)
qed

lemma quiet_notify_each [simp]: "quiet s (snd (notify_each this subs v t s))"
proof (induction subs arbitrary: s)
  case Nil
  then show ?case by simp
next
  case (Cons e subs)
  obtain i sub where e: "e = (i, sub)" by (cases e)
  obtain r s1 where inv: "invoke (callback sub) v (node_id this) t Noop s = (r, s1)"
    by (cases "invoke (callback sub) v (node_id this) t Noop s")
  have k1: "quiet s s1"
    using quiet_invoke [of s "callback sub" v "node_id this" t Noop] inv by simp
  from quiet_trans [OF k1 Cons [of s1]] have k2: "quiet s (snd (notify_each this subs v t s1))" .
  show ?case using e inv k1 k2 Cons [of s] by (cases r) simp_all
qed

lemma quiet_map_each [simp]: "quiet s (snd (map_each this q subs v t s))"
proof (induction subs arbitrary: s)
  case Nil
  then show ?case by simp
next
  case (Cons e subs)
  obtain i sub where e: "e = (i, sub)" by (cases e)
  obtain r s1 where inv:
    "invoke (callback sub) v (node_id this) (Some t) (ParentMapDelete q i) s = (r, s1)"
    by (cases "invoke (callback sub) v (node_id this) (Some t) (ParentMapDelete q i) s")
  have k1: "quiet s s1"
    using quiet_invoke [of s "callback sub" v "node_id this" "Some t" "ParentMapDelete q i"] inv
    by simp
  from quiet_trans [OF k1 Cons [of s1]] have k2: "quiet s (snd (map_each this q subs v t s1))" .
  show ?case using e inv k1 k2 Cons [of s] by (cases r) simp_all
qed

section \<open>The writes of a \<open>put\<close>\<close>

text \<open>What a write at time \<open>t\<close> does to the adapters: more \<open>set\<close> calls, all at \<open>t\<close>.\<close>

definition extends :: "int \<Rightarrow> state \<Rightarrow> state \<Rightarrow> bool" where
  "extends t s s' \<longleftrightarrow>
     adapters s' = adapters s \<and> failing s' = failing s \<and>
     (\<exists>xs. sets s' = sets s @ xs \<and> (\<forall>x\<in>set xs. updatedAt (snd (snd x)) = t))"

lemma extends_refl [simp]: "extends t s s"
  by (simp add: extends_def)

lemma quiet_extends: "quiet s s' \<Longrightarrow> extends t s s'"
  by (simp add: quiet_def extends_def)

lemma extends_trans: "extends t s s1 \<Longrightarrow> extends t s1 s2 \<Longrightarrow> extends t s s2"
proof -
  assume "extends t s s1" and "extends t s1 s2"
  then obtain xs ys where a: "adapters s1 = adapters s" "failing s1 = failing s"
      "sets s1 = sets s @ xs" "\<forall>x\<in>set xs. updatedAt (snd (snd x)) = t"
    and b: "adapters s2 = adapters s1" "failing s2 = failing s1" "sets s2 = sets s1 @ ys"
      "\<forall>x\<in>set ys. updatedAt (snd (snd x)) = t"
    unfolding extends_def by blast
  have "sets s2 = sets s @ (xs @ ys)" using a b by simp
  moreover have "\<forall>x\<in>set (xs @ ys). updatedAt (snd (snd x)) = t" using a b by auto
  ultimately have "\<exists>zs. sets s2 = sets s @ zs \<and> (\<forall>x\<in>set zs. updatedAt (snd (snd x)) = t)"
    by blast
  with a b show ?thesis by (simp add: extends_def)
qed

lemma extends_adapters_set: "updatedAt nv = t \<Longrightarrow> extends t s (adapters_set path nv s)"
  by (auto simp: extends_def adapters_set_def)

lemma quiet_cache_child [simp]: "quiet s (cache_child p this s)"
  by (simp add: cache_child_def Let_def)

lemma extends_putValue: "extends t s (snd (putValue this v t e s))"
proof -
  let ?s1 = "(if \<not> isDirectory v then update_node this (\<lambda>f. f\<lparr>children := (\<lambda>k. None)\<rparr>) s else s)"
  let ?s2 = "adapters_set (node_id this) \<lparr>val = v, updatedAt = t, expiresAt = e\<rparr> ?s1"
  have 1: "extends t s ?s1" by (auto intro: quiet_extends)
  have 2: "extends t ?s1 ?s2" by (rule extends_adapters_set) simp
  have 3: "extends t ?s2 (snd (notifyChange this v (Some t) ?s2))"
    unfolding notifyChange_def by (rule quiet_extends) simp
  obtain r s3 where n: "notifyChange this v (Some t) ?s2 = (r, s3)"
    by (cases "notifyChange this v (Some t) ?s2")
  have "extends t s (snd (notifyChange this v (Some t) ?s2))"
    by (rule extends_trans [OF extends_trans [OF 1 2] 3])
  with n have "extends t s s3" by simp
  with n show ?thesis
    by (cases r) (simp_all add: putValue_def Let_def)
qed

lemma extends_put:
  "extends t s (snd (put this v t e s))"
  "extends t s (snd (putChildren this kvs t s))"
proof (induction this v t e s and this kvs t s rule: put_putChildren.induct)
  case (1 this v t e s)
  obtain r3 s3 where l: "put_local this v t e s = (r3, s3)" by (cases "put_local this v t e s")
  have loc: "extends t s s3"
  proof (cases "isNonEmptyObject v")
    case True
    let ?s1 = "adapters_set (node_id this) \<lparr>val = DIRECTORY_VALUE, updatedAt = t, expiresAt = e\<rparr> s"
    have a: "extends t s ?s1" by (rule extends_adapters_set) simp
    have b: "extends t ?s1 (snd (putChildren this (entries v) t ?s1))"
      by (rule "1.IH"(1) [OF True refl])
    from extends_trans [OF a b] l True show ?thesis
      by (auto simp: put_local_def Let_def split: prod.splits)
  next
    case False
    with l extends_putValue [of t s this v e] show ?thesis by (simp add: put_local_def)
  qed
  show ?case
  proof (cases r3)
    case Failed
    with l loc show ?thesis by (simp add: put_unfold)
  next
    case Done
    show ?thesis
    proof (cases "parent this")
      case None
      with l loc Done show ?thesis by (simp add: put_unfold)
    next
      case (Some q)
      obtain r4 s4 where p: "put q DIRECTORY_VALUE t None s3 = (r4, s4)"
        by (cases "put q DIRECTORY_VALUE t None s3")
      have "(r3, s3) = (if isNonEmptyObject v
            then let s1 = adapters_set (node_id this)
                           \<lparr>val = DIRECTORY_VALUE, updatedAt = t, expiresAt = e\<rparr> s
                 in case putChildren this (entries v) t s1 of
                    (r, s2) \<Rightarrow> (if set_rejected s2 then Failed else r, s2)
            else putValue this v t e s)"
        using l by (simp add: put_local_def)
      from "1.IH"(2) [OF this Done Some] p have up: "extends t s3 s4" by simp
      have s4: "extends t s s4" by (rule extends_trans [OF loc up])
      let ?s5 = "cache_child q this s4"
      have "extends t s4 (snd (map_each this q (map_subscriptions (nodes ?s5 q)) v t ?s5))"
        by (rule quiet_extends) (rule quiet_trans [OF quiet_cache_child quiet_map_each])
      from extends_trans [OF s4 this] s4 l Done Some p show ?thesis
        by (cases r4) (simp_all add: put_unfold Let_def)
    qed
  qed
next
  case (2 this t s)
  show ?case by simp
next
  case (3 this key v rest t s)
  obtain child s1 where g: "get this key s = (child, s1)" by (cases "get this key s")
  obtain r s2 where p: "put child v t None s1 = (r, s2)" by (cases "put child v t None s1")
  obtain r' s3 where c: "putChildren this rest t s2 = (r', s3)" by (cases "putChildren this rest t s2")
  have 1: "extends t s s1" using quiet_get [of s this key] g by (simp add: quiet_extends)
  have 2: "extends t s1 s2" using "3.IH"(1) [OF g [symmetric]] p by simp
  have 3: "extends t s2 s3" using "3.IH"(2) [OF g [symmetric] p [symmetric]] c by simp
  from extends_trans [OF extends_trans [OF 1 2] 3] g p c show ?case by simp
qed

section \<open>Markers on the way to the root\<close>

fun ancestors :: "node \<Rightarrow> node list" where
  "ancestors (Node i p None) = []"
| "ancestors (Node i p (Some q)) = q # ancestors q"

text \<open>The value of the most recent \<open>set\<close> call to adapter \<open>a\<close> for \<open>path\<close>.\<close>

definition last_set :: "nat \<Rightarrow> string \<Rightarrow> state \<Rightarrow> NodeValue option" where
  "last_set a path s =
     (case filter (\<lambda>x. fst x = a \<and> fst (snd x) = path) (sets s) of
        [] \<Rightarrow> None
      | x # xs \<Rightarrow> Some (snd (snd (last (x # xs)))))"

definition marker :: "int \<Rightarrow> NodeValue" where
  "marker t = \<lparr>val = DIRECTORY_VALUE, updatedAt = t, expiresAt = None\<rparr>"

text \<open>More \<open>set\<close> calls, each writing the marker at \<open>t\<close> to a path in \<open>P\<close>.\<close>

definition marks :: "string set \<Rightarrow> int \<Rightarrow> state \<Rightarrow> state \<Rightarrow> bool" where
  "marks P t s s' \<longleftrightarrow>
     adapters s' = adapters s \<and>
     (\<exists>xs. sets s' = sets s @ xs \<and>
        (\<forall>x\<in>set xs. snd (snd x) = marker t \<and> fst (snd x) \<in> P))"

lemma marks_refl [simp]: "marks P t s s"
  by (simp add: marks_def)

lemma quiet_marks: "quiet s s' \<Longrightarrow> marks P t s s'"
  by (simp add: quiet_def marks_def)

lemma marks_trans: "marks P t s s1 \<Longrightarrow> marks P t s1 s2 \<Longrightarrow> marks P t s s2"
proof -
  assume "marks P t s s1" and "marks P t s1 s2"
  then obtain xs ys where a: "adapters s1 = adapters s"
      "sets s1 = sets s @ xs" "\<forall>x\<in>set xs. snd (snd x) = marker t \<and> fst (snd x) \<in> P"
    and b: "adapters s2 = adapters s1" "sets s2 = sets s1 @ ys"
      "\<forall>x\<in>set ys. snd (snd x) = marker t \<and> fst (snd x) \<in> P"
    unfolding marks_def by blast
  have "sets s2 = sets s @ (xs @ ys)" using a b by simp
  moreover have "\<forall>x\<in>set (xs @ ys). snd (snd x) = marker t \<and> fst (snd x) \<in> P"
    using a b by auto
  ultimately have "\<exists>zs. sets s2 = sets s @ zs \<and>
      (\<forall>x\<in>set zs. snd (snd x) = marker t \<and> fst (snd x) \<in> P)"
    by blast
  with a b show ?thesis by (simp add: marks_def)
qed

lemma marks_mono: "marks P t s s' \<Longrightarrow> P \<subseteq> Q \<Longrightarrow> marks Q t s s'"
  unfolding marks_def by blast

lemma last_set_marks:
  assumes "marks P t s s'" and "last_set a path s = Some (marker t)"
  shows "last_set a path s' = Some (marker t)"
proof -
  from assms(1) obtain xs where xs: "sets s' = sets s @ xs" "\<forall>x\<in>set xs. snd (snd x) = marker t"
    unfolding marks_def by blast
  let ?P = "\<lambda>x. fst x = a \<and> fst (snd x) = path"
  show ?thesis
  proof (cases "filter ?P xs = []")
    case True
    with xs assms(2) show ?thesis by (simp add: last_set_def)
  next
    case False
    then have "last (filter ?P (sets s) @ filter ?P xs) = last (filter ?P xs)" by simp
    moreover have "last (filter ?P xs) \<in> set xs"
      using False last_in_set [of "filter ?P xs"] by auto
    ultimately have "snd (snd (last (filter ?P (sets s) @ filter ?P xs))) = marker t"
      using xs(2) by simp
    with False xs(1) show ?thesis
      by (cases "filter ?P (sets s) @ filter ?P xs") (auto simp: last_set_def)
  qed
qed

lemma upt_filter_singleton: "a < n \<Longrightarrow> filter (\<lambda>x. x = a) [0..<n] = [a]"
  by (induction n) (auto simp: less_Suc_eq)

lemma last_set_adapters_set:
  "a < adapters s \<Longrightarrow> last_set a path (adapters_set path nv s) = Some nv"
proof -
  assume a: "a < adapters s"
  let ?P = "\<lambda>x. fst x = a \<and> fst (snd x) = path"
  have f: "filter ?P (map (\<lambda>a. (a, path, nv)) [0..<adapters s]) = [(a, path, nv)]"
  proof -
    have "filter ?P (map (\<lambda>a. (a, path, nv)) [0..<adapters s])
        = map (\<lambda>a. (a, path, nv)) (filter (\<lambda>x. x = a) [0..<adapters s])"
      by (simp add: filter_map comp_def)
    also have "filter (\<lambda>x. x = a) [0..<adapters s] = [a]"
      using a upt_filter_singleton by simp
    finally show ?thesis by simp
  qed
  show ?thesis
    by (cases "filter ?P (sets s)") (simp_all add: last_set_def adapters_set_def f)
qed

lemma quiet_last_set: "quiet s s' \<Longrightarrow> last_set a path s' = last_set a path s"
  by (simp add: quiet_def last_set_def)

lemma putValue_marker:
  assumes "putValue q DIRECTORY_VALUE t None s = (r, s')"
  shows "marks {node_id q} t s s' \<and> (\<forall>i<adapters s. last_set i (node_id q) s' = Some (marker t))"
proof -
  let ?s2 = "adapters_set (node_id q) (marker t) s"
  have q: "quiet ?s2 (snd (notifyChange q DIRECTORY_VALUE (Some t) ?s2))"
    unfolding notifyChange_def by simp
  have s': "s' = snd (notifyChange q DIRECTORY_VALUE (Some t) ?s2)"
    using assms
    by (auto simp: putValue_def Let_def DIRECTORY_VALUE_def marker_def
        split: prod.splits completion.splits)
  have m: "marks {node_id q} t s ?s2" by (auto simp: marks_def adapters_set_def)
  have "marks {node_id q} t s s'" using marks_trans [OF m quiet_marks [OF q]] s' by simp
  moreover have "last_set i (node_id q) s' = Some (marker t)" if "i < adapters s" for i
    using quiet_last_set [OF q] s' last_set_adapters_set [OF that] by simp
  ultimately show ?thesis by simp
qed

lemma put_marker_chain:
  "put q DIRECTORY_VALUE t None s = (r, s') \<Longrightarrow>
   marks (node_id ` set (q # ancestors q)) t s s' \<and>
   (r = Done \<longrightarrow> (\<forall>a\<in>set (q # ancestors q). \<forall>i<adapters s.
      last_set i (node_id a) s' = Some (marker t)))"
proof (induction q arbitrary: s r s')
  case (Node i path par)
  let ?q = "Node i path par"
  obtain r3 s3 where l: "putValue ?q DIRECTORY_VALUE t None s = (r3, s3)"
    by (cases "putValue ?q DIRECTORY_VALUE t None s")
  have loc: "put_local ?q DIRECTORY_VALUE t None s = (r3, s3)"
    using l by (simp add: put_local_def DIRECTORY_VALUE_def)
  note pv0 = putValue_marker [OF l]
  have pv: "marks (node_id ` set (?q # ancestors ?q)) t s s3"
    "\<forall>i<adapters s. last_set i (node_id ?q) s3 = Some (marker t)"
    using pv0 marks_mono [of "{node_id ?q}" t s s3 "node_id ` set (?q # ancestors ?q)"] by auto
  show ?case
  proof (cases r3)
    case Failed
    with loc pv Node.prems show ?thesis by (simp add: put_unfold)
  next
    case Done
    show ?thesis
    proof (cases par)
      case None
      with loc pv Done Node.prems show ?thesis by (auto simp: put_unfold)
    next
      case (Some p)
      obtain r4 s4 where p: "put p DIRECTORY_VALUE t None s3 = (r4, s4)"
        by (cases "put p DIRECTORY_VALUE t None s3")
      have ih: "marks (node_id ` set (p # ancestors p)) t s3 s4 \<and>
        (r4 = Done \<longrightarrow> (\<forall>a\<in>set (p # ancestors p). \<forall>i<adapters s3.
            last_set i (node_id a) s4 = Some (marker t)))"
        using Node.IH [of p s3 r4 s4] Some p by simp
      have ad: "adapters s3 = adapters s" using pv by (simp add: marks_def)
      have "marks (node_id ` set (?q # ancestors ?q)) t s3 s4"
        using ih Some marks_mono [of "node_id ` set (p # ancestors p)" t s3 s4
            "node_id ` set (?q # ancestors ?q)"] by auto
      then have m4: "marks (node_id ` set (?q # ancestors ?q)) t s s4"
        using marks_trans pv(1) by blast
      show ?thesis
      proof (cases r4)
        case Failed
        with loc Done Some p m4 Node.prems show ?thesis by (simp add: put_unfold)
      next
        case Done4: Done
        let ?s5 = "cache_child p ?q s4"
        let ?res = "map_each ?q p (map_subscriptions (nodes ?s5 p)) DIRECTORY_VALUE t ?s5"
        have res: "put ?q DIRECTORY_VALUE t None s = ?res"
          using loc Done Some p Done4 by (simp add: put_unfold Let_def)
        have qq: "quiet s4 (snd ?res)"
          by (rule quiet_trans [OF quiet_cache_child quiet_map_each])
        have s': "s' = snd ?res" using res Node.prems by (metis snd_conv)
        have m: "marks (node_id ` set (?q # ancestors ?q)) t s s'"
          using marks_trans [OF m4 quiet_marks [OF qq]] s' by simp
        have "last_set j (node_id a) s' = Some (marker t)"
          if "a \<in> set (?q # ancestors ?q)" "j < adapters s" for a j
        proof (cases "a = ?q")
          case True
          have "last_set j (node_id ?q) s3 = Some (marker t)" using pv that(2) by simp
          then have "last_set j (node_id ?q) s4 = Some (marker t)"
            using last_set_marks ih by blast
          with True quiet_last_set [OF qq] s' show ?thesis by simp
        next
          case False
          with that(1) Some have "a \<in> set (p # ancestors p)" by simp
          then have "last_set j (node_id a) s4 = Some (marker t)"
            using ih Done4 that(2) ad by auto
          with quiet_last_set [OF qq] s' show ?thesis by simp
        qed
        with m show ?thesis by simp
      qed
    qed
  qed
qed

section \<open>Child caches\<close>

text \<open>
  What a write at \<open>this\<close> may do to the child caches of the nodes outside \<open>R\<close>: an
  entry stays as it is, or an absent entry of a node becomes the handle on the path
  from \<open>this\<close> to the root that has this node as parent and this key as name.
\<close>

definition grows :: "node \<Rightarrow> (node \<Rightarrow> bool) \<Rightarrow> state \<Rightarrow> state \<Rightarrow> bool" where
  "grows this R s s' \<longleftrightarrow>
     (\<forall>n k. \<not> R n \<longrightarrow>
        children (nodes s' n) k = children (nodes s n) k \<or>
        (children (nodes s n) k = None \<and>
         (\<exists>m\<in>set (this # ancestors this). parent m = Some n \<and> childNameOf (node_id m) = k \<and>
            children (nodes s' n) k = Some m)))"

lemma grows_refl [simp]: "grows this R s s"
  by (simp add: grows_def)

lemma kept_grows: "kept s s' \<Longrightarrow> grows this R s s'"
  by (simp add: grows_def kept_def)

lemma grows_trans: "grows this R s s1 \<Longrightarrow> grows this R s1 s2 \<Longrightarrow> grows this R s s2"
  unfolding grows_def by (metis option.distinct(1))

lemma grows_mono: "grows this R s s' \<Longrightarrow> (\<And>n. R n \<Longrightarrow> R' n) \<Longrightarrow> grows this R' s s'"
  unfolding grows_def by blast

lemma ancestors_parent: "parent n = Some p \<Longrightarrow> ancestors n = p # ancestors p"
  by (cases n) auto

lemma grows_parent:
  "parent this = Some p \<Longrightarrow> grows p R s s' \<Longrightarrow> grows this R s s'"
  unfolding grows_def by (simp add: ancestors_parent) blast

lemma grows_cache_child:
  "parent this = Some p \<Longrightarrow> grows this R s (cache_child p this s)"
  by (auto simp: grows_def cache_child_def Let_def update_node_def)

lemma kept_tables: "kept s s' \<Longrightarrow> tables_get_free s \<Longrightarrow> tables_get_free s'"
  by (simp add: kept_def)

lemma tables_cache_child: "tables_get_free s \<Longrightarrow> tables_get_free (cache_child p this s)"
  by (simp add: cache_child_def Let_def update_node_def tables_get_free_def)

lemma tables_adapters_set: "tables_get_free s \<Longrightarrow> tables_get_free (adapters_set path nv s)"
  by (simp add: adapters_set_def tables_get_free_def)

lemma kept_adapters_children:
  "children (nodes (adapters_set path nv s) n) = children (nodes s n)"
  by (simp add: adapters_set_def)

text \<open>\<open>putValue\<close>: the cache of \<open>this\<close> is emptied unless the value is the marker; no
  other cache changes.\<close>

lemma putValue_children:
  assumes "tables_get_free s" and "putValue this v t e s = (r, s')"
  shows "tables_get_free s' \<and>
         (\<forall>n. children (nodes s' n) =
            (if n = this \<and> \<not> isDirectory v then (\<lambda>k. None) else children (nodes s n)))"
proof -
  let ?s1 = "(if \<not> isDirectory v then update_node this (\<lambda>f. f\<lparr>children := (\<lambda>k. None)\<rparr>) s else s)"
  let ?s2 = "adapters_set (node_id this) \<lparr>val = v, updatedAt = t, expiresAt = e\<rparr> ?s1"
  have t1: "tables_get_free ?s1"
    using assms(1) by (simp add: update_node_def tables_get_free_def)
  have t2: "tables_get_free ?s2" by (rule tables_adapters_set [OF t1])
  have k: "kept ?s2 (snd (notifyChange this v (Some t) ?s2))" by (rule kept_notifyChange [OF t2])
  have s': "s' = snd (notifyChange this v (Some t) ?s2)"
    using assms(2) by (auto simp: putValue_def Let_def split: prod.splits completion.splits)
  have c2: "children (nodes ?s2 n) =
      (if n = this \<and> \<not> isDirectory v then (\<lambda>k. None) else children (nodes s n))" for n
    by (simp add: adapters_set_def update_node_def)
  from k s' have "children (nodes s' n) = children (nodes ?s2 n)" for n
    by (simp add: kept_def)
  with c2 kept_tables [OF k t2] s' show ?thesis by simp
qed

lemma put_marker_grows:
  "tables_get_free s \<Longrightarrow> put q DIRECTORY_VALUE t None s = (r, s') \<Longrightarrow>
   tables_get_free s' \<and> grows q (\<lambda>n. False) s s'"
proof (induction q arbitrary: s r s')
  case (Node i path par)
  let ?q = "Node i path par"
  obtain r3 s3 where l: "putValue ?q DIRECTORY_VALUE t None s = (r3, s3)"
    by (cases "putValue ?q DIRECTORY_VALUE t None s")
  have loc: "put_local ?q DIRECTORY_VALUE t None s = (r3, s3)"
    using l by (simp add: put_local_def DIRECTORY_VALUE_def)
  from putValue_children [OF Node.prems(1) l]
  have t3: "tables_get_free s3" and c3: "\<And>n. children (nodes s3 n) = children (nodes s n)"
    by (simp_all add: DIRECTORY_VALUE_def)
  have g3: "grows ?q (\<lambda>n. False) s s3" using c3 by (simp add: grows_def)
  show ?case
  proof (cases r3)
    case Failed
    with loc t3 g3 Node.prems(2) show ?thesis by (simp add: put_unfold)
  next
    case Done
    show ?thesis
    proof (cases par)
      case None
      with loc t3 g3 Done Node.prems(2) show ?thesis by (auto simp: put_unfold)
    next
      case (Some p)
      obtain r4 s4 where p: "put p DIRECTORY_VALUE t None s3 = (r4, s4)"
        by (cases "put p DIRECTORY_VALUE t None s3")
      have ih: "tables_get_free s4 \<and> grows p (\<lambda>n. False) s3 s4"
        using Node.IH [of p s3 r4 s4] Some t3 p by simp
      have par: "parent ?q = Some p" using Some by simp
      have g4: "grows ?q (\<lambda>n. False) s s4"
        using grows_trans [OF g3 grows_parent [OF par]] ih by blast
      show ?thesis
      proof (cases r4)
        case Failed
        with loc Done Some p g4 ih Node.prems(2) show ?thesis by (simp add: put_unfold)
      next
        case Done4: Done
        let ?s5 = "cache_child p ?q s4"
        let ?res = "map_each ?q p (map_subscriptions (nodes ?s5 p)) DIRECTORY_VALUE t ?s5"
        have res: "put ?q DIRECTORY_VALUE t None s = ?res"
          using loc Done Some p Done4 by (simp add: put_unfold Let_def)
        have s': "s' = snd ?res" using res Node.prems(2) by (metis snd_conv)
        have t5: "tables_get_free ?s5" using ih by (simp add: tables_cache_child)
        have k: "kept ?s5 (snd ?res)"
          by (rule kept_map_each [OF t5]) (use t5 in \<open>auto simp: tables_get_free_def\<close>)
        have g5: "grows ?q (\<lambda>n. False) s ?s5"
          by (rule grows_trans [OF g4 grows_cache_child [OF par]])
        from grows_trans [OF g5 kept_grows [OF k]] kept_tables [OF k t5] s'
        show ?thesis by simp
      qed
    qed
  qed
qed

lemma chain_parent:
  "m \<in> set (q # ancestors q) \<Longrightarrow> parent m = Some n \<Longrightarrow> n \<in> set (ancestors q)"
proof (induction q rule: ancestors.induct)
  case (1 i p)
  then show ?case by auto
next
  case (2 i p q)
  then show ?case by auto
qed

lemma size_ancestors: "a \<in> set (ancestors n) \<Longrightarrow> size a < size n"
proof (induction n rule: ancestors.induct)
  case (1 i p)
  then show ?case by simp
next
  case (2 i p q)
  then show ?case by auto
qed

lemma not_own_ancestor: "n \<notin> set (ancestors n)"
  using size_ancestors [of n n] by auto

lemma grows_unchanged:
  assumes "grows q (\<lambda>n. False) s s'" and "n \<notin> set (ancestors q)"
  shows "children (nodes s' n) = children (nodes s n)"
proof
  fix k
  from assms(1) have "children (nodes s' n) k = children (nodes s n) k \<or>
        (\<exists>m\<in>set (q # ancestors q). parent m = Some n)"
    unfolding grows_def by blast
  with chain_parent assms(2) show "children (nodes s' n) k = children (nodes s n) k" by blast
qed

lemma put_leaf_clears_children:
  assumes "tables_get_free s" and "\<not> isNonEmptyObject v"
  shows "children (nodes (snd (put this v t e s)) this) =
           (if isDirectory v then children (nodes s this) else (\<lambda>k. None))"
proof -
  obtain r3 s3 where l: "putValue this v t e s = (r3, s3)" by (cases "putValue this v t e s")
  have loc: "put_local this v t e s = (r3, s3)" using l assms(2) by (simp add: put_local_def)
  from putValue_children [OF assms(1) l]
  have t3: "tables_get_free s3"
    and c3: "children (nodes s3 this) = (if isDirectory v then children (nodes s this) else (\<lambda>k. None))"
    by auto
  show ?thesis
  proof (cases r3)
    case Failed
    with loc c3 show ?thesis by (simp add: put_unfold)
  next
    case Done
    show ?thesis
    proof (cases "parent this")
      case None
      with loc c3 Done show ?thesis by (simp add: put_unfold)
    next
      case (Some p)
      obtain r4 s4 where p: "put p DIRECTORY_VALUE t None s3 = (r4, s4)"
        by (cases "put p DIRECTORY_VALUE t None s3")
      from put_marker_grows [OF t3 p] have t4: "tables_get_free s4"
        and g4: "grows p (\<lambda>n. False) s3 s4" by simp_all
      have "this \<notin> set (ancestors p)"
        using not_own_ancestor [of this] ancestors_parent [OF Some] by auto
      from grows_unchanged [OF g4 this] have c4: "children (nodes s4 this) = children (nodes s3 this)" .
      show ?thesis
      proof (cases r4)
        case Failed
        with loc Done Some p c4 c3 show ?thesis by (simp add: put_unfold)
      next
        case Done4: Done
        let ?s5 = "cache_child p this s4"
        let ?res = "map_each this p (map_subscriptions (nodes ?s5 p)) v t ?s5"
        have res: "put this v t e s = ?res"
          using loc Done Some p Done4 by (simp add: put_unfold Let_def)
        have t5: "tables_get_free ?s5" using t4 by (simp add: tables_cache_child)
        have k: "kept ?s5 (snd ?res)"
          by (rule kept_map_each [OF t5]) (use t5 in \<open>auto simp: tables_get_free_def\<close>)
        have "p \<noteq> this" using Some size_parent [OF Some] by auto
        then have c5: "children (nodes ?s5 this) = children (nodes s4 this)"
          by (simp add: cache_child_def Let_def update_node_def)
        from k have "children (nodes (snd ?res) this) = children (nodes ?s5 this)"
          by (simp add: kept_def)
        with c5 c4 c3 res show ?thesis by simp
      qed
    qed
  qed
qed

section \<open>Well-formed handles and caches\<close>

fun handle_ok :: "node \<Rightarrow> bool" where
  "handle_ok (Node i p None) = True"
| "handle_ok (Node i p (Some q)) = (p = node_id q @ ''/'' @ childNameOf p \<and> handle_ok q)"

definition cache_ok :: "state \<Rightarrow> bool" where
  "cache_ok s \<longleftrightarrow>
     (\<forall>n k c. children (nodes s n) k = Some c \<longrightarrow>
        parent c = Some n \<and> node_id c = node_id n @ ''/'' @ k \<and> slash_free k)"

definition below_eq :: "node \<Rightarrow> node \<Rightarrow> bool" where
  "below_eq this n \<longleftrightarrow> n = this \<or> this \<in> set (ancestors n)"

lemma childNameOf_append: "slash_free k \<Longrightarrow> childNameOf (p @ ''/'' @ k) = k"
  using split_slash_append [of p k] by (simp add: childNameOf_def split_slash_free_id)

lemma childNameOf_slash_free: "slash_free (childNameOf p)"
  unfolding childNameOf_def
  using split_slash_free [of "last (split_slash p)" p] split_slash_not_Nil [of p] by simp

lemma handle_ok_parent: "handle_ok n \<Longrightarrow> parent n = Some p \<Longrightarrow>
  handle_ok p \<and> node_id n = node_id p @ ''/'' @ childNameOf (node_id n)"
  by (cases n) auto

lemma handle_ok_child:
  "handle_ok n \<Longrightarrow> slash_free k \<Longrightarrow> handle_ok (Node i (node_id n @ ''/'' @ k) (Some n))"
  using childNameOf_append [of k "node_id n"] by simp

lemma ancestors_trans:
  "a \<in> set (ancestors b) \<Longrightarrow> b \<in> set (ancestors c) \<Longrightarrow> a \<in> set (ancestors c)"
proof (induction c rule: ancestors.induct)
  case (1 i p)
  then show ?case by simp
next
  case (2 i p q)
  then show ?case by auto
qed

lemma below_eq_refl [simp]: "below_eq this this"
  by (simp add: below_eq_def)

lemma below_eq_trans: "below_eq a b \<Longrightarrow> below_eq b c \<Longrightarrow> below_eq a c"
  unfolding below_eq_def using ancestors_trans by blast

lemma below_eq_child: "parent c = Some n \<Longrightarrow> below_eq n c"
  by (simp add: below_eq_def ancestors_parent)

text \<open>\<open>get\<close> from a well-formed handle in a well-formed cache.\<close>

lemma get_child_ok:
  assumes "get_child n x s = (c, s1)" and "cache_ok s" and "handle_ok n" and "slash_free x"
    and "tables_get_free s"
  shows "cache_ok s1 \<and> handle_ok c \<and> tables_get_free s1 \<and> parent c = Some n \<and>
         node_id c = node_id n @ ''/'' @ x \<and>
         (\<forall>m. \<not> below_eq n m \<longrightarrow> children (nodes s1 m) = children (nodes s m))"
proof (cases "children (nodes s n) x")
  case (Some d)
  with assms(1) have e: "c = d" "s1 = s" by (auto simp: get_child_def)
  from Some assms(2) have "parent d = Some n" "node_id d = node_id n @ ''/'' @ x"
    by (auto simp: cache_ok_def)
  moreover have "handle_ok d"
    using calculation assms(3,4) childNameOf_append [of x "node_id n"] by (cases d) auto
  ultimately show ?thesis using e assms(2,5) by simp
next
  case None
  let ?c = "Node (next_oid s) (node_id n @ ''/'' @ x) (Some n)"
  have c: "c = ?c" using assms(1) None by (auto simp: get_child_def Let_def)
  have ne: "?c \<noteq> n" by (rule node_neq_child)
  have ch: "children (nodes s1 m) =
      (if m = n then (children (nodes s n))(x \<mapsto> ?c) else if m = ?c then (\<lambda>k. None)
       else children (nodes s m))" for m
    using assms(1) None ne by (auto simp: get_child_def Let_def new_fields_def)
  have tb: "on_subscriptions (nodes s1 m) = (if m = ?c then [] else on_subscriptions (nodes s m)) \<and>
      map_subscriptions (nodes s1 m) = (if m = ?c then [] else map_subscriptions (nodes s m))" for m
    using assms(1) None ne by (auto simp: get_child_def Let_def new_fields_def)
  have 1: "cache_ok s1"
    unfolding cache_ok_def
  proof (intro allI impI)
    fix m k d assume a: "children (nodes s1 m) k = Some d"
    show "parent d = Some m \<and> node_id d = node_id m @ ''/'' @ k \<and> slash_free k"
    proof (cases "m = n \<and> k = x")
      case True
      with a ch [of m] assms(4) show ?thesis by auto
    next
      case False
      with a ch [of m] have "children (nodes s m) k = Some d"
        by (auto split: if_splits)
      with assms(2) show ?thesis unfolding cache_ok_def by blast
    qed
  qed
  have 2: "tables_get_free s1"
    using assms(5) tb unfolding tables_get_free_def by (auto split: if_splits)
  have 3: "\<not> below_eq n m \<Longrightarrow> children (nodes s1 m) = children (nodes s m)" for m
    using ch [of m] by (auto simp: below_eq_def)
  from 1 2 3 c handle_ok_child [OF assms(3,4)] show ?thesis by simp
qed

lemma get_path_ok:
  "get_path n xs s = (c, s1) \<Longrightarrow> xs \<noteq> [] \<Longrightarrow> cache_ok s \<Longrightarrow> handle_ok n \<Longrightarrow>
   \<forall>x\<in>set xs. slash_free x \<Longrightarrow> tables_get_free s \<Longrightarrow>
   cache_ok s1 \<and> handle_ok c \<and> tables_get_free s1 \<and> n \<in> set (ancestors c) \<and>
   node_id c = node_id n @ ''/'' @ join_slash xs \<and>
   (\<forall>m. \<not> below_eq n m \<longrightarrow> children (nodes s1 m) = children (nodes s m))"
proof (induction n xs s arbitrary: c s1 rule: get_path.induct)
  case (1 n s)
  then show ?case by simp
next
  case (2 n x s)
  from get_child_ok [of n x s c s1] 2 show ?case by (simp add: ancestors_parent)
next
  case (3 n x y ys s)
  obtain d s' where d: "get_child n x s = (d, s')" by (cases "get_child n x s")
  from get_child_ok [OF d] 3 have ok: "cache_ok s'" "handle_ok d" "tables_get_free s'"
    "parent d = Some n" "node_id d = node_id n @ ''/'' @ x"
    "\<And>m. \<not> below_eq n m \<Longrightarrow> children (nodes s' m) = children (nodes s m)"
    by simp_all
  have g: "get_path d (y # ys) s' = (c, s1)" using "3.prems"(1) d by simp
  from "3.IH" [OF d [symmetric] g _ ok(1,2) _ ok(3)] "3.prems"(5)
  have ih: "cache_ok s1" "handle_ok c" "tables_get_free s1" "d \<in> set (ancestors c)"
    "node_id c = node_id d @ ''/'' @ join_slash (y # ys)"
    "\<And>m. \<not> below_eq d m \<Longrightarrow> children (nodes s1 m) = children (nodes s' m)"
    by simp_all
  have a: "n \<in> set (ancestors c)"
    using ancestors_trans [OF _ ih(4), of n] ok(4) by (simp add: ancestors_parent)
  have b: "children (nodes s1 m) = children (nodes s m)" if "\<not> below_eq n m" for m
  proof -
    have "\<not> below_eq d m"
      using that below_eq_trans [OF below_eq_child [OF ok(4)], of m] by blast
    with ih(6) ok(6) that show ?thesis by simp
  qed
  from ih(1-3) a b ih(5) ok(5) show ?case by simp
qed

lemma get_ok:
  assumes "get n key s = (c, s1)" and "cache_ok s" and "handle_ok n" and "tables_get_free s"
  shows "cache_ok s1 \<and> handle_ok c \<and> tables_get_free s1 \<and> n \<in> set (ancestors c) \<and>
         node_id c = node_id n @ ''/'' @ key \<and>
         (\<forall>m. \<not> below_eq n m \<longrightarrow> children (nodes s1 m) = children (nodes s m))"
  using get_path_ok [of n "split_slash key" s c s1] assms split_slash_free [of _ key]
  by (simp add: get_eq_get_path split_slash_not_Nil join_split_slash)

section \<open>What a \<open>put\<close> preserves\<close>

text \<open>The nodes whose child cache a \<open>put\<close> of \<open>v\<close> at \<open>this\<close> may rewrite.\<close>

definition region :: "node \<Rightarrow> JsonValue \<Rightarrow> node \<Rightarrow> bool" where
  "region this v n \<longleftrightarrow>
     (if isNonEmptyObject v then below_eq this n
      else if isDirectory v then False else n = this)"

lemma region_below: "region this v n \<Longrightarrow> below_eq this n"
  by (auto simp: region_def split: if_splits)

lemma chain_below:
  "m \<in> set (c # ancestors c) \<Longrightarrow> this \<in> set (ancestors c) \<Longrightarrow>
   m \<in> set (this # ancestors this) \<or> this \<in> set (ancestors m)"
proof (induction c rule: ancestors.induct)
  case (1 i p)
  then show ?case by simp
next
  case (2 i p q)
  show ?case
  proof (cases "m = Node i p (Some q)")
    case True
    with "2.prems"(2) show ?thesis by simp
  next
    case False
    with "2.prems"(1) have m: "m \<in> set (q # ancestors q)" by simp
    show ?thesis
    proof (cases "this = q")
      case True
      with m show ?thesis by simp
    next
      case False
      with "2.prems"(2) have "this \<in> set (ancestors q)" by simp
      from "2.IH" [OF m this] show ?thesis .
    qed
  qed
qed

lemma grows_below:
  assumes "this \<in> set (ancestors c)" and "grows c R s s'" and "\<And>n. R n \<Longrightarrow> below_eq this n"
  shows "grows this (below_eq this) s s'"
  unfolding grows_def
proof (intro allI impI)
  fix n k assume n: "\<not> below_eq this n"
  then have "\<not> R n" using assms(3) by blast
  with assms(2) consider "children (nodes s' n) k = children (nodes s n) k"
    | m where "children (nodes s n) k = None" "m \<in> set (c # ancestors c)" "parent m = Some n"
      "childNameOf (node_id m) = k" "children (nodes s' n) k = Some m"
    unfolding grows_def by blast
  then show "children (nodes s' n) k = children (nodes s n) k \<or>
        (children (nodes s n) k = None \<and>
         (\<exists>m\<in>set (this # ancestors this). parent m = Some n \<and> childNameOf (node_id m) = k \<and>
            children (nodes s' n) k = Some m))"
  proof cases
    case 1
    then show ?thesis by simp
  next
    case (2 m)
    from chain_below [OF 2(2) assms(1)] have "m \<in> set (this # ancestors this)"
    proof
      assume "this \<in> set (ancestors m)"
      then have "below_eq this n" using 2(3) by (auto simp: below_eq_def ancestors_parent)
      with n show ?thesis by simp
    qed
    with 2 show ?thesis by blast
  qed
qed

lemma cache_ok_kept: "kept s s' \<Longrightarrow> cache_ok s \<Longrightarrow> cache_ok s'"
  by (simp add: kept_def cache_ok_def)

lemma cache_ok_adapters_set: "cache_ok s \<Longrightarrow> cache_ok (adapters_set path nv s)"
  by (simp add: cache_ok_def adapters_set_def)

lemma cache_ok_cache_child:
  assumes "cache_ok s" and "handle_ok this" and "parent this = Some p"
  shows "cache_ok (cache_child p this s)"
proof -
  from handle_ok_parent [OF assms(2,3)]
  have i: "node_id this = node_id p @ ''/'' @ childNameOf (node_id this)" by simp
  show ?thesis
    using assms(1,3) i childNameOf_slash_free [of "node_id this"]
    by (auto simp: cache_ok_def cache_child_def Let_def update_node_def)
qed

lemma put_inv:
  "tables_get_free s \<Longrightarrow> cache_ok s \<Longrightarrow> handle_ok this \<Longrightarrow>
   tables_get_free (snd (put this v t e s)) \<and> cache_ok (snd (put this v t e s)) \<and>
   grows this (region this v) s (snd (put this v t e s))"
  "tables_get_free s \<Longrightarrow> cache_ok s \<Longrightarrow> handle_ok this \<Longrightarrow>
   tables_get_free (snd (putChildren this kvs t s)) \<and> cache_ok (snd (putChildren this kvs t s)) \<and>
   grows this (below_eq this) s (snd (putChildren this kvs t s))"
proof (induction this v t e s and this kvs t s rule: put_putChildren.induct)
  case (1 this v t e s)
  obtain r3 s3 where l: "put_local this v t e s = (r3, s3)" by (cases "put_local this v t e s")
  have loc: "tables_get_free s3 \<and> cache_ok s3 \<and> grows this (region this v) s s3"
  proof (cases "isNonEmptyObject v")
    case True
    let ?s1 = "adapters_set (node_id this) \<lparr>val = DIRECTORY_VALUE, updatedAt = t, expiresAt = e\<rparr> s"
    have a: "tables_get_free ?s1" "cache_ok ?s1"
      using "1.prems" by (simp_all add: tables_adapters_set cache_ok_adapters_set)
    have g1: "grows this (region this v) s ?s1" by (simp add: grows_def adapters_set_def)
    from "1.IH"(1) [OF True refl a "1.prems"(3)]
    have b: "tables_get_free (snd (putChildren this (entries v) t ?s1))"
      "cache_ok (snd (putChildren this (entries v) t ?s1))"
      "grows this (below_eq this) ?s1 (snd (putChildren this (entries v) t ?s1))" by simp_all
    have s3: "s3 = snd (putChildren this (entries v) t ?s1)"
      using l True by (auto simp: put_local_def Let_def split: prod.splits)
    have "region this v = below_eq this" using True by (auto simp: region_def)
    with grows_trans [OF g1] b s3 show ?thesis by simp
  next
    case False
    then have pv: "putValue this v t e s = (r3, s3)" using l by (simp add: put_local_def)
    from putValue_children [OF "1.prems"(1) pv]
    have c: "tables_get_free s3" "\<And>n. children (nodes s3 n) =
            (if n = this \<and> \<not> isDirectory v then (\<lambda>k. None) else children (nodes s n))"
      by simp_all
    have "cache_ok s3" using "1.prems"(2) c(2) unfolding cache_ok_def by (auto split: if_splits)
    moreover have "grows this (region this v) s s3"
      using False c(2) by (auto simp: grows_def region_def)
    ultimately show ?thesis using c(1) by simp
  qed
  show ?case
  proof (cases r3)
    case Failed
    with l loc show ?thesis by (simp add: put_unfold)
  next
    case Done
    show ?thesis
    proof (cases "parent this")
      case None
      with l loc Done show ?thesis by (simp add: put_unfold)
    next
      case (Some q)
      obtain r4 s4 where p: "put q DIRECTORY_VALUE t None s3 = (r4, s4)"
        by (cases "put q DIRECTORY_VALUE t None s3")
      have eq: "(r3, s3) = (if isNonEmptyObject v
            then let s1 = adapters_set (node_id this)
                           \<lparr>val = DIRECTORY_VALUE, updatedAt = t, expiresAt = e\<rparr> s
                 in case putChildren this (entries v) t s1 of
                    (r, s2) \<Rightarrow> (if set_rejected s2 then Failed else r, s2)
            else putValue this v t e s)"
        using l by (simp add: put_local_def)
      have hq: "handle_ok q" using handle_ok_parent [OF "1.prems"(3) Some] by simp
      from "1.IH"(2) [OF eq Done Some _ _ hq] loc p
      have up: "tables_get_free s4" "cache_ok s4" "grows q (region q DIRECTORY_VALUE) s3 s4"
        by simp_all
      have "region q DIRECTORY_VALUE = (\<lambda>n. False)"
        by (rule ext) (simp add: region_def DIRECTORY_VALUE_def)
      then have "grows q (\<lambda>n. False) s3 s4"
        using up(3) by simp
      then have "grows this (region this v) s3 s4"
        using grows_mono [OF grows_parent [OF Some]] by blast
      then have g4: "grows this (region this v) s s4" using grows_trans loc by blast
      show ?thesis
      proof (cases r4)
        case Failed
        with l Done Some p up g4 show ?thesis by (simp add: put_unfold)
      next
        case Done4: Done
        let ?s5 = "cache_child q this s4"
        let ?res = "map_each this q (map_subscriptions (nodes ?s5 q)) v t ?s5"
        have res: "put this v t e s = ?res"
          using l Done Some p Done4 by (simp add: put_unfold Let_def)
        have t5: "tables_get_free ?s5" using up(1) by (simp add: tables_cache_child)
        have c5: "cache_ok ?s5" by (rule cache_ok_cache_child [OF up(2) "1.prems"(3) Some])
        have k: "kept ?s5 (snd ?res)"
          by (rule kept_map_each [OF t5]) (use t5 in \<open>auto simp: tables_get_free_def\<close>)
        have g5: "grows this (region this v) s ?s5"
          by (rule grows_trans [OF g4 grows_cache_child [OF Some]])
        from grows_trans [OF g5 kept_grows [OF k]] kept_tables [OF k t5] cache_ok_kept [OF k c5] res
        show ?thesis by simp
      qed
    qed
  qed
next
  case (2 this t s)
  then show ?case by simp
next
  case (3 this key v rest t s)
  obtain child s1 where g: "get this key s = (child, s1)" by (cases "get this key s")
  obtain r s2 where p: "put child v t None s1 = (r, s2)" by (cases "put child v t None s1")
  obtain r' s3 where c: "putChildren this rest t s2 = (r', s3)" by (cases "putChildren this rest t s2")
  from get_ok [OF g "3.prems"(2,3,1)]
  have ok: "cache_ok s1" "handle_ok child" "tables_get_free s1" "this \<in> set (ancestors child)"
    "\<And>m. \<not> below_eq this m \<Longrightarrow> children (nodes s1 m) = children (nodes s m)"
    by simp_all
  have g1: "grows this (below_eq this) s s1" using ok(5) by (simp add: grows_def)
  from "3.IH"(1) [OF g [symmetric] ok(3,1,2)] p
  have a: "tables_get_free s2" "cache_ok s2" "grows child (region child v) s1 s2" by simp_all
  have "below_eq this n" if "region child v n" for n
    using region_below [OF that] ok(4) below_eq_trans [of this child n]
    by (simp add: below_eq_def)
  from grows_below [OF ok(4) a(3) this] have g2: "grows this (below_eq this) s1 s2" .
  from "3.IH"(2) [OF g [symmetric] p [symmetric] a(1,2) "3.prems"(3)] c
  have b: "tables_get_free s3" "cache_ok s3" "grows this (below_eq this) s2 s3" by simp_all
  from grows_trans [OF grows_trans [OF g1 g2] b(3)] b(1,2) g p c show ?case by simp
qed

section \<open>The write path\<close>

lemma extends_subset: "extends t s s' \<Longrightarrow> set (sets s) \<subseteq> set (sets s')"
  by (auto simp: extends_def)

lemma put_after_local:
  assumes "put_local this v t e s = (r3, s3)"
  shows "extends t s3 (snd (put this v t e s))"
proof (cases r3)
  case Failed
  with assms show ?thesis by (simp add: put_unfold)
next
  case Done
  show ?thesis
  proof (cases "parent this")
    case None
    with assms Done show ?thesis by (simp add: put_unfold)
  next
    case (Some q)
    obtain r4 s4 where p: "put q DIRECTORY_VALUE t None s3 = (r4, s4)"
      by (cases "put q DIRECTORY_VALUE t None s3")
    have up: "extends t s3 s4" using extends_put(1) [of t s3 q DIRECTORY_VALUE None] p by simp
    let ?s5 = "cache_child q this s4"
    have "extends t s4 (snd (map_each this q (map_subscriptions (nodes ?s5 q)) v t ?s5))"
      by (rule quiet_extends) (rule quiet_trans [OF quiet_cache_child quiet_map_each])
    from extends_trans [OF up this] up assms Done Some p show ?thesis
      by (cases r4) (simp_all add: put_unfold Let_def)
  qed
qed

text \<open>What \<open>put\<close> hands to the adapters for the node itself: the marker for a non-empty
  object, the value otherwise.\<close>

definition stored :: "JsonValue \<Rightarrow> JsonValue" where
  "stored v = (if isNonEmptyObject v then DIRECTORY_VALUE else v)"

lemma put_first_write:
  assumes "a < adapters s"
  shows "(a, node_id this, \<lparr>val = stored v, updatedAt = t, expiresAt = e\<rparr>)
           \<in> set (sets (snd (put this v t e s)))"
proof -
  obtain r3 s3 where l: "put_local this v t e s = (r3, s3)" by (cases "put_local this v t e s")
  let ?nv = "\<lparr>val = stored v, updatedAt = t, expiresAt = e\<rparr>"
  have "(a, node_id this, ?nv) \<in> set (sets s3)"
  proof (cases "isNonEmptyObject v")
    case True
    let ?s1 = "adapters_set (node_id this) \<lparr>val = DIRECTORY_VALUE, updatedAt = t, expiresAt = e\<rparr> s"
    have 1: "(a, node_id this, ?nv) \<in> set (sets ?s1)"
      using assms True by (auto simp: adapters_set_def stored_def)
    have "s3 = snd (putChildren this (entries v) t ?s1)"
      using l True by (auto simp: put_local_def Let_def split: prod.splits)
    with extends_subset [OF extends_put(2) [of t ?s1 this "entries v"]] 1 show ?thesis by auto
  next
    case False
    let ?s1 = "(if \<not> isDirectory v then update_node this (\<lambda>f. f\<lparr>children := (\<lambda>k. None)\<rparr>) s else s)"
    let ?s2 = "adapters_set (node_id this) \<lparr>val = v, updatedAt = t, expiresAt = e\<rparr> ?s1"
    have 1: "(a, node_id this, ?nv) \<in> set (sets ?s2)"
      using assms False by (auto simp: adapters_set_def stored_def update_node_def)
    have "quiet ?s2 (snd (notifyChange this v (Some t) ?s2))"
      unfolding notifyChange_def by simp
    moreover have "s3 = snd (notifyChange this v (Some t) ?s2)"
      using l False
      by (auto simp: put_local_def putValue_def Let_def split: prod.splits completion.splits)
    ultimately show ?thesis using 1 by (simp add: quiet_def)
  qed
  with extends_subset [OF put_after_local [OF l]] show ?thesis by auto
qed

lemma putChildren_writes:
  "tables_get_free s \<Longrightarrow> cache_ok s \<Longrightarrow> handle_ok this \<Longrightarrow> kv \<in> set kvs \<Longrightarrow> a < adapters s \<Longrightarrow>
   (a, node_id this @ ''/'' @ fst kv, \<lparr>val = stored (snd kv), updatedAt = t, expiresAt = None\<rparr>)
     \<in> set (sets (snd (putChildren this kvs t s)))"
proof (induction kvs arbitrary: s)
  case Nil
  then show ?case by simp
next
  case (Cons x rest)
  obtain key v where x: "x = (key, v)" by (cases x)
  obtain child s1 where g: "get this key s = (child, s1)" by (cases "get this key s")
  obtain r s2 where p: "put child v t None s1 = (r, s2)" by (cases "put child v t None s1")
  obtain r' s3 where c: "putChildren this rest t s2 = (r', s3)" by (cases "putChildren this rest t s2")
  have res: "snd (putChildren this (x # rest) t s) = s3" using x g p c by simp
  from get_ok [OF g Cons.prems(2,3,1)]
  have ok: "cache_ok s1" "handle_ok child" "tables_get_free s1"
    "node_id child = node_id this @ ''/'' @ key" by simp_all
  have q1: "quiet s s1" using quiet_get [of s this key] g by simp
  have e2: "extends t s1 s2" using extends_put(1) [of t s1 child v None] p by simp
  have e3: "extends t s2 s3" using extends_put(2) [of t s2 this rest] c by simp
  have ad: "adapters s1 = adapters s" "adapters s2 = adapters s"
    using q1 e2 by (simp_all add: quiet_def extends_def)
  from put_inv(1) [OF ok(3,1,2), of v t None] p
  have inv2: "tables_get_free s2" "cache_ok s2" by simp_all
  show ?case
  proof (cases "kv = x")
    case True
    have "(a, node_id child, \<lparr>val = stored v, updatedAt = t, expiresAt = None\<rparr>) \<in> set (sets s2)"
      using put_first_write [of a s1 child v t None] p Cons.prems(5) ad by simp
    with extends_subset [OF e3] True x ok(4) res show ?thesis by auto
  next
    case False
    with Cons.prems(4) have "kv \<in> set rest" by simp
    from Cons.IH [OF inv2 Cons.prems(3) this] Cons.prems(5) ad c res show ?thesis by simp
  qed
qed

text \<open>
  \<open>children.map((key) => this.get(key).put(value[key], updatedAt))\<close> of
  \<open>putChildValues\<close>: the children's puts in key order, each on the handle that \<open>get\<close>
  returns, with the completion of each.
\<close>

fun child_puts :: "node \<Rightarrow> (string \<times> JsonValue) list \<Rightarrow> int \<Rightarrow> state \<Rightarrow> completion list \<times> state" where
  "child_puts this [] t s = ([], s)"
| "child_puts this ((key, v) # rest) t s =
     (case get this key s of
        (child, s1) \<Rightarrow>
          (case put child v t None s1 of
             (r, s2) \<Rightarrow>
               (case child_puts this rest t s2 of
                  (rs, s3) \<Rightarrow> (r # rs, s3))))"

lemma putChildren_child_puts:
  "putChildren this kvs t s =
     (if Failed \<in> set (fst (child_puts this kvs t s)) then Failed else Done,
      snd (child_puts this kvs t s))"
proof (induction kvs arbitrary: s)
  case Nil
  show ?case by simp
next
  case (Cons x rest)
  obtain key v where x: "x = (key, v)" by (cases x)
  obtain child s1 where g: "get this key s = (child, s1)" by (cases "get this key s")
  obtain r s2 where p: "put child v t None s1 = (r, s2)" by (cases "put child v t None s1")
  obtain rs s3 where c: "child_puts this rest t s2 = (rs, s3)" by (cases "child_puts this rest t s2")
  from Cons [of s2] c have "putChildren this rest t s2 = (if Failed \<in> set rs then Failed else Done, s3)"
    by simp
  with x g p c show ?case by (cases r) simp_all
qed

lemma length_child_puts: "length (fst (child_puts this kvs t s)) = length kvs"
proof (induction kvs arbitrary: s)
  case Nil
  show ?case by simp
next
  case (Cons x rest)
  obtain key v where x: "x = (key, v)" by (cases x)
  obtain child s1 where g: "get this key s = (child, s1)" by (cases "get this key s")
  obtain r s2 where p: "put child v t None s1 = (r, s2)" by (cases "put child v t None s1")
  obtain rs s3 where c: "child_puts this rest t s2 = (rs, s3)" by (cases "child_puts this rest t s2")
  from Cons [of s2] c x g p show ?case by simp
qed

text \<open>
  The part of \<open>put\<close> after the local write, \<open>if (this.parent) { ... }\<close>, given how the
  local write ended.
\<close>

definition propagate :: "node \<Rightarrow> JsonValue \<Rightarrow> int \<Rightarrow> completion \<times> state \<Rightarrow> completion \<times> state" where
  "propagate this v t local =
     (case local of
        (Failed, s3) \<Rightarrow> (Failed, s3)
      | (Done, s3) \<Rightarrow>
          (case parent this of
             None \<Rightarrow> (Done, s3)
           | Some p \<Rightarrow>
               (case put p DIRECTORY_VALUE t None s3 of
                  (Failed, s4) \<Rightarrow> (Failed, s4)
                | (Done, s4) \<Rightarrow>
                    (let s5 = cache_child p this s4
                     in map_each this p (map_subscriptions (nodes s5 p)) v t s5))))"

lemma put_propagate: "put this v t e s = propagate this v t (put_local this v t e s)"
  by (simp add: put_unfold propagate_def)

text \<open>
  The writes a \<open>put\<close> of \<open>v\<close> at path \<open>p\<close> is to make: the marker for a non-empty object
  and then the writes of each property at \<open>p/key\<close>, the value itself otherwise.
\<close>

fun writes :: "string \<Rightarrow> JsonValue \<Rightarrow> (string \<times> JsonValue) list" where
  "writes p (JObj kvs) =
     (p, DIRECTORY_VALUE) # concat (map (\<lambda>kv. writes (p @ ''/'' @ fst kv) (snd kv)) kvs)"
| "writes p v = [(p, v)]"

lemma writes_head: "writes p v = (p, stored v) # tl (writes p v)"
  by (cases v) (auto simp: stored_def DIRECTORY_VALUE_def)

lemma writes_tl:
  "set (tl (writes p v)) = (\<Union>kv\<in>set (entries v). set (writes (p @ ''/'' @ fst kv) (snd kv)))"
  by (cases v) auto

lemma put_writes:
  "tables_get_free s \<Longrightarrow> cache_ok s \<Longrightarrow> handle_ok this \<Longrightarrow>
   \<forall>pw\<in>set (tl (writes (node_id this) v)). \<forall>a<adapters s.
     (a, fst pw, \<lparr>val = snd pw, updatedAt = t, expiresAt = None\<rparr>)
       \<in> set (sets (snd (put this v t e s)))"
  "tables_get_free s \<Longrightarrow> cache_ok s \<Longrightarrow> handle_ok this \<Longrightarrow>
   \<forall>kv\<in>set kvs. \<forall>pw\<in>set (writes (node_id this @ ''/'' @ fst kv) (snd kv)). \<forall>a<adapters s.
     (a, fst pw, \<lparr>val = snd pw, updatedAt = t, expiresAt = None\<rparr>)
       \<in> set (sets (snd (putChildren this kvs t s)))"
proof (induction this v t e s and this kvs t s rule: put_putChildren.induct)
  case (1 this v t e s)
  obtain r3 s3 where l: "put_local this v t e s = (r3, s3)" by (cases "put_local this v t e s")
  note after = extends_subset [OF put_after_local [OF l]]
  show ?case
  proof (cases "isNonEmptyObject v")
    case True
    let ?s1 = "adapters_set (node_id this) \<lparr>val = DIRECTORY_VALUE, updatedAt = t, expiresAt = e\<rparr> s"
    have a: "tables_get_free ?s1" "cache_ok ?s1"
      using "1.prems" by (simp_all add: tables_adapters_set cache_ok_adapters_set)
    have ad: "adapters ?s1 = adapters s" by (simp add: adapters_set_def)
    have s3: "s3 = snd (putChildren this (entries v) t ?s1)"
      using l True by (auto simp: put_local_def Let_def split: prod.splits)
    note ih = "1.IH"(1) [OF True refl a "1.prems"(3)]
    show ?thesis
    proof (intro ballI allI impI)
      fix pw a assume pw: "pw \<in> set (tl (writes (node_id this) v))" and a: "a < adapters s"
      from pw obtain kv where kv: "kv \<in> set (entries v)"
        "pw \<in> set (writes (node_id this @ ''/'' @ fst kv) (snd kv))"
        unfolding writes_tl by blast
      from ih kv a ad s3
      have "(a, fst pw, \<lparr>val = snd pw, updatedAt = t, expiresAt = None\<rparr>) \<in> set (sets s3)"
        by simp
      with after show "(a, fst pw, \<lparr>val = snd pw, updatedAt = t, expiresAt = None\<rparr>)
          \<in> set (sets (snd (put this v t e s)))" by blast
    qed
  next
    case False
    then have "entries v = []" by (cases v) auto
    then have "set (tl (writes (node_id this) v)) = {}" unfolding writes_tl by simp
    then show ?thesis by simp
  qed
next
  case (2 this t s)
  show ?case by simp
next
  case (3 this key v rest t s)
  obtain child s1 where g: "get this key s = (child, s1)" by (cases "get this key s")
  obtain r s2 where p: "put child v t None s1 = (r, s2)" by (cases "put child v t None s1")
  obtain r' s3 where c: "putChildren this rest t s2 = (r', s3)" by (cases "putChildren this rest t s2")
  have res: "snd (putChildren this ((key, v) # rest) t s) = s3" using g p c by simp
  from get_ok [OF g "3.prems"(2,3,1)]
  have ok: "cache_ok s1" "handle_ok child" "tables_get_free s1"
    "node_id child = node_id this @ ''/'' @ key" by simp_all
  have q1: "quiet s s1" using quiet_get [of s this key] g by simp
  have e2: "extends t s1 s2" using extends_put(1) [of t s1 child v None] p by simp
  have e3: "extends t s2 s3" using extends_put(2) [of t s2 this rest] c by simp
  have ad: "adapters s1 = adapters s" "adapters s2 = adapters s"
    using q1 e2 by (simp_all add: quiet_def extends_def)
  from put_inv(1) [OF ok(3,1,2), of v t None] p
  have inv2: "tables_get_free s2" "cache_ok s2" by simp_all
  note ih1 = "3.IH"(1) [OF g [symmetric] ok(3,1,2)]
  note ih2 = "3.IH"(2) [OF g [symmetric] p [symmetric] inv2 "3.prems"(3)]
  show ?case
  proof (intro ballI allI impI)
    fix kv pw a
    assume kv: "kv \<in> set ((key, v) # rest)"
      and pw: "pw \<in> set (writes (node_id this @ ''/'' @ fst kv) (snd kv))"
      and a: "a < adapters s"
    show "(a, fst pw, \<lparr>val = snd pw, updatedAt = t, expiresAt = None\<rparr>)
        \<in> set (sets (snd (putChildren this ((key, v) # rest) t s)))"
    proof (cases "kv \<in> set rest")
      case True
      with ih2 pw a ad c res show ?thesis by simp
    next
      case False
      with kv have kv': "kv = (key, v)" by simp
      with pw ok(4) have "pw \<in> set (writes (node_id child) v)" by simp
      then consider "pw = (node_id child, stored v)" | "pw \<in> set (tl (writes (node_id child) v))"
        using writes_head [of "node_id child" v] by (metis set_ConsD)
      then have "(a, fst pw, \<lparr>val = snd pw, updatedAt = t, expiresAt = None\<rparr>) \<in> set (sets s2)"
      proof cases
        case 1
        with put_first_write [of a s1 child v t None] p a ad show ?thesis by simp
      next
        case 2
        with ih1 p a ad show ?thesis by simp
      qed
      with extends_subset [OF e3] res show ?thesis by auto
    qed
  qed
qed

text \<open>
  C2, amended. For a non-empty object, in a well-formed tree: the first writes of the
  \<open>put\<close> are the directory marker for the node itself, one call per adapter, before any
  child is written; then, for each key in order, \<open>put\<close> runs on the handle that
  \<open>get(key)\<close> returns, with the key's value, the same \<open>updatedAt\<close> and no \<open>expiresAt\<close>
  (\<open>child_puts\<close>, one completion per key); the \<open>put\<close> goes on to the parent only if no
  adapter rejects and every child's \<open>put\<close> completed, and otherwise fails in the state
  the children's puts left; and every value nested in the object is written at its own
  path to every adapter, with the same \<open>updatedAt\<close> and no \<open>expiresAt\<close>.
\<close>

theorem put_object_decomposes:
  assumes "isNonEmptyObject v" and "tables_get_free s" and "cache_ok s" and "handle_ok this"
    and "child_puts this (entries v) t
           (adapters_set (node_id this) \<lparr>val = DIRECTORY_VALUE, updatedAt = t, expiresAt = e\<rparr> s) =
         (rs, s2)"
  shows "(\<exists>rest. sets (snd (put this v t e s)) =
            sets s @ map (\<lambda>a. (a, node_id this, \<lparr>val = DIRECTORY_VALUE, updatedAt = t, expiresAt = e\<rparr>))
                       [0..<adapters s] @ rest) \<and>
         length rs = length (entries v) \<and>
         put this v t e s =
           propagate this v t (if set_rejected s \<or> Failed \<in> set rs then Failed else Done, s2) \<and>
         (set_rejected s \<or> Failed \<in> set rs \<longrightarrow> put this v t e s = (Failed, s2)) \<and>
         (fst (put this v t e s) = Done \<longrightarrow> \<not> set_rejected s \<and> (\<forall>r\<in>set rs. r = Done)) \<and>
         (\<forall>pw\<in>set (tl (writes (node_id this) v)). \<forall>a<adapters s.
            (a, fst pw, \<lparr>val = snd pw, updatedAt = t, expiresAt = None\<rparr>)
              \<in> set (sets (snd (put this v t e s))))"
proof -
  let ?s1 = "adapters_set (node_id this) \<lparr>val = DIRECTORY_VALUE, updatedAt = t, expiresAt = e\<rparr> s"
  let ?r = "if set_rejected s \<or> Failed \<in> set rs then Failed else Done"
  have c: "putChildren this (entries v) t ?s1 = (if Failed \<in> set rs then Failed else Done, s2)"
    using putChildren_child_puts [of this "entries v" t ?s1] assms(5) by simp
  have e2: "extends t ?s1 s2" using extends_put(2) [of t ?s1 this "entries v"] c by simp
  have rej: "set_rejected s2 = set_rejected s"
    using e2 by (simp add: set_rejected_def extends_def adapters_set_def)
  have l: "put_local this v t e s = (?r, s2)"
    using assms(1) c rej by (simp add: put_local_def Let_def)
  have p: "put this v t e s = propagate this v t (?r, s2)"
    using put_propagate [of this v t e s] l by simp
  have e3: "extends t s2 (snd (put this v t e s))" by (rule put_after_local [OF l])
  from extends_trans [OF e2 e3] obtain rest where
    "sets (snd (put this v t e s)) = sets ?s1 @ rest" unfolding extends_def by blast
  then have a: "\<exists>rest. sets (snd (put this v t e s)) =
            sets s @ map (\<lambda>a. (a, node_id this, \<lparr>val = DIRECTORY_VALUE, updatedAt = t, expiresAt = e\<rparr>))
                       [0..<adapters s] @ rest"
    by (simp add: adapters_set_def)
  have n: "length rs = length (entries v)"
    using length_child_puts [of this "entries v" t ?s1] assms(5) by simp
  have f: "put this v t e s = (Failed, s2)" if "set_rejected s \<or> Failed \<in> set rs"
    using p that by (simp add: propagate_def)
  have d: "\<not> set_rejected s \<and> (\<forall>r\<in>set rs. r = Done)" if "fst (put this v t e s) = Done"
  proof (rule ccontr)
    assume "\<not> (\<not> set_rejected s \<and> (\<forall>r\<in>set rs. r = Done))"
    then have "set_rejected s \<or> Failed \<in> set rs" by (metis completion.exhaust)
    from f [OF this] that show False by simp
  qed
  note w = put_writes(1) [OF assms(2,3,4), of v t e]
  show ?thesis
  proof (intro conjI)
    show "\<exists>rest. sets (snd (put this v t e s)) =
            sets s @ map (\<lambda>a. (a, node_id this, \<lparr>val = DIRECTORY_VALUE, updatedAt = t, expiresAt = e\<rparr>))
                       [0..<adapters s] @ rest" by (rule a)
    show "length rs = length (entries v)" by (rule n)
    show "put this v t e s =
           propagate this v t (if set_rejected s \<or> Failed \<in> set rs then Failed else Done, s2)"
      by (rule p)
    show "set_rejected s \<or> Failed \<in> set rs \<longrightarrow> put this v t e s = (Failed, s2)"
      using f by (intro impI)
    show "fst (put this v t e s) = Done \<longrightarrow> \<not> set_rejected s \<and> (\<forall>r\<in>set rs. r = Done)"
      using d by (intro impI)
    show "\<forall>pw\<in>set (tl (writes (node_id this) v)). \<forall>a<adapters s.
            (a, fst pw, \<lparr>val = snd pw, updatedAt = t, expiresAt = None\<rparr>)
              \<in> set (sets (snd (put this v t e s)))" by (rule w)
  qed
qed

lemma grows_cases:
  "grows this R s s' \<Longrightarrow> \<not> R n \<Longrightarrow>
   children (nodes s' n) k = children (nodes s n) k \<or>
   (children (nodes s n) k = None \<and>
    (\<exists>m\<in>set (this # ancestors this). parent m = Some n \<and> childNameOf (node_id m) = k \<and>
       children (nodes s' n) k = Some m))"
  by (simp add: grows_def)

lemma put_local_inv:
  assumes "tables_get_free s" and "cache_ok s" and "handle_ok this"
    and "put_local this v t e s = (r3, s3)"
  shows "tables_get_free s3 \<and> cache_ok s3 \<and> grows this (region this v) s s3 \<and> extends t s s3"
proof (cases "isNonEmptyObject v")
  case True
  let ?s1 = "adapters_set (node_id this) \<lparr>val = DIRECTORY_VALUE, updatedAt = t, expiresAt = e\<rparr> s"
  have a: "tables_get_free ?s1" "cache_ok ?s1"
    using assms by (simp_all add: tables_adapters_set cache_ok_adapters_set)
  have g1: "grows this (region this v) s ?s1" by (simp add: grows_def adapters_set_def)
  have e1: "extends t s ?s1" by (rule extends_adapters_set) simp
  have s3: "s3 = snd (putChildren this (entries v) t ?s1)"
    using assms(4) True by (auto simp: put_local_def Let_def split: prod.splits)
  have "region this v = below_eq this" using True by (auto simp: region_def)
  with put_inv(2) [OF a assms(3), of "entries v" t] grows_trans [OF g1]
    extends_trans [OF e1 extends_put(2) [of t ?s1 this "entries v"]] s3
  show ?thesis by simp
next
  case False
  then have pv: "putValue this v t e s = (r3, s3)" using assms(4) by (simp add: put_local_def)
  from putValue_children [OF assms(1) pv]
  have c: "tables_get_free s3" "\<And>n. children (nodes s3 n) =
          (if n = this \<and> \<not> isDirectory v then (\<lambda>k. None) else children (nodes s n))"
    by simp_all
  have "cache_ok s3" using assms(2) c(2) unfolding cache_ok_def by (auto split: if_splits)
  moreover have "grows this (region this v) s s3"
    using False c(2) by (auto simp: grows_def region_def)
  moreover have "extends t s s3" using extends_putValue [of t s this v e] pv by simp
  ultimately show ?thesis using c(1) by simp
qed

lemma put_Done_steps:
  assumes "put this v t e s = (Done, s')" and "parent this = Some p"
  shows "\<exists>s3 s4. put_local this v t e s = (Done, s3) \<and>
           put p DIRECTORY_VALUE t None s3 = (Done, s4) \<and>
           s' = snd (map_each this p (map_subscriptions (nodes (cache_child p this s4) p)) v t
                  (cache_child p this s4))"
proof -
  obtain r3 s3 where l: "put_local this v t e s = (r3, s3)" by (cases "put_local this v t e s")
  obtain r4 s4 where q: "put p DIRECTORY_VALUE t None s3 = (r4, s4)"
    by (cases "put p DIRECTORY_VALUE t None s3")
  have r3: "r3 = Done" using assms l by (cases r3) (simp_all add: put_unfold)
  have r4: "r4 = Done" using assms l r3 q by (cases r4) (simp_all add: put_unfold)
  have "put this v t e s =
      map_each this p (map_subscriptions (nodes (cache_child p this s4) p)) v t (cache_child p this s4)"
    using assms(2) l r3 q r4 by (simp add: put_unfold Let_def)
  with assms(1) have "s' = snd (map_each this p (map_subscriptions (nodes (cache_child p this s4) p))
      v t (cache_child p this s4))" by simp
  with l r3 q r4 show ?thesis by blast
qed

lemma chain_child_unique:
  assumes "m \<in> set (this # ancestors this)" and "parent m = Some p" and "parent this = Some p"
  shows "m = this"
proof (rule ccontr)
  assume "m \<noteq> this"
  with assms(1,3) have "m \<in> set (p # ancestors p)" by (simp add: ancestors_parent)
  then have "size m \<le> size p" using size_ancestors [of m p] by auto
  moreover have "size p < size m" using size_parent [OF assms(2)] .
  ultimately show False by simp
qed

lemma ancestor_not_below: "a \<in> set (ancestors this) \<Longrightarrow> \<not> below_eq this a"
proof
  assume a: "a \<in> set (ancestors this)" and "below_eq this a"
  then consider "a = this" | "this \<in> set (ancestors a)" by (auto simp: below_eq_def)
  then show False
  proof cases
    case 1
    with a not_own_ancestor show ?thesis by simp
  next
    case 2
    from size_ancestors [OF a] size_ancestors [OF 2] show ?thesis by simp
  qed
qed

lemma put_marker_self:
  assumes "put q DIRECTORY_VALUE t None s = (r, s')"
  shows "\<forall>i<adapters s. last_set i (node_id q) s' = Some (marker t)"
proof -
  obtain r3 s3 where l: "putValue q DIRECTORY_VALUE t None s = (r3, s3)"
    by (cases "putValue q DIRECTORY_VALUE t None s")
  have loc: "put_local q DIRECTORY_VALUE t None s = (r3, s3)"
    using l by (simp add: put_local_def DIRECTORY_VALUE_def)
  from putValue_marker [OF l]
  have pv: "\<forall>i<adapters s. last_set i (node_id q) s3 = Some (marker t)" by simp
  show ?thesis
  proof (cases r3)
    case Failed
    with loc pv assms show ?thesis by (simp add: put_unfold)
  next
    case Done
    show ?thesis
    proof (cases "parent q")
      case None
      with loc pv Done assms show ?thesis by (auto simp: put_unfold)
    next
      case (Some p)
      obtain r4 s4 where p: "put p DIRECTORY_VALUE t None s3 = (r4, s4)"
        by (cases "put p DIRECTORY_VALUE t None s3")
      from put_marker_chain [OF p] have m: "marks (node_id ` set (p # ancestors p)) t s3 s4"
        by simp
      have 4: "\<forall>i<adapters s. last_set i (node_id q) s4 = Some (marker t)"
        using pv last_set_marks [OF m] by blast
      show ?thesis
      proof (cases r4)
        case Failed
        with loc Done Some p 4 assms show ?thesis by (simp add: put_unfold)
      next
        case Done4: Done
        let ?s5 = "cache_child p q s4"
        let ?res = "map_each q p (map_subscriptions (nodes ?s5 p)) DIRECTORY_VALUE t ?s5"
        have res: "put q DIRECTORY_VALUE t None s = ?res"
          using loc Done Some p Done4 by (simp add: put_unfold Let_def)
        have qq: "quiet s4 (snd ?res)"
          by (rule quiet_trans [OF quiet_cache_child quiet_map_each])
        have s': "s' = snd ?res" using res assms by (metis snd_conv)
        from 4 quiet_last_set [OF qq] s' show ?thesis by simp
      qed
    qed
  qed
qed

text \<open>
  C3, amended. For a \<open>put\<close> at a node with a parent \<open>p\<close> whose local write completes,
  in a well-formed tree: what is left of the \<open>put\<close> is \<open>put\<close> of the directory marker
  on \<open>p\<close> with the same \<open>updatedAt\<close> and no \<open>expiresAt\<close>, whose failure fails the call,
  then the caching of this node in \<open>p\<close> and the notification of the \<open>map\<close> subscribers
  of \<open>p\<close>; whatever the outcome, the most recent write for \<open>p\<close> to every adapter is the
  marker with that \<open>updatedAt\<close>; and when the \<open>put\<close> on \<open>p\<close> completes, the same holds
  of every ancestor, the ancestors keep their cached children, and the cache of \<open>p\<close> has
  an entry under this node's name, which is this node when there was none.
\<close>

theorem put_marks_ancestors:
  assumes "tables_get_free s" and "cache_ok s" and "handle_ok this"
    and "parent this = Some p" and "put_local this v t e s = (Done, s3)"
  shows "put this v t e s =
           (case put p DIRECTORY_VALUE t None s3 of
              (Failed, s4) \<Rightarrow> (Failed, s4)
            | (Done, s4) \<Rightarrow>
                map_each this p (map_subscriptions (nodes (cache_child p this s4) p)) v t
                  (cache_child p this s4)) \<and>
         (\<forall>i<adapters s. last_set i (node_id p) (snd (put this v t e s)) = Some (marker t)) \<and>
         (\<forall>s4. put p DIRECTORY_VALUE t None s3 = (Done, s4) \<longrightarrow>
            (\<forall>a\<in>set (ancestors this).
               (\<forall>i<adapters s. last_set i (node_id a) (snd (put this v t e s)) = Some (marker t)) \<and>
               (\<forall>k c. children (nodes s a) k = Some c \<longrightarrow>
                  children (nodes (snd (put this v t e s)) a) k = Some c)) \<and>
            children (nodes (snd (put this v t e s)) p) (childNameOf (node_id this)) =
              (case children (nodes s p) (childNameOf (node_id this)) of
                 None \<Rightarrow> Some this
               | Some c \<Rightarrow> Some c))"
proof (intro conjI allI impI ballI)
  note l = assms(5)
  note Some = assms(4)
  show unfold: "put this v t e s =
           (case put p DIRECTORY_VALUE t None s3 of
              (Failed, s4) \<Rightarrow> (Failed, s4)
            | (Done, s4) \<Rightarrow>
                map_each this p (map_subscriptions (nodes (cache_child p this s4) p)) v t
                  (cache_child p this s4))"
    using l Some by (subst put_unfold) (simp add: Let_def split: prod.splits completion.splits)
  from put_local_inv [OF assms(1-3) l]
  have i3: "tables_get_free s3" "cache_ok s3" "grows this (region this v) s s3" "extends t s s3"
    by simp_all
  have ad3: "adapters s3 = adapters s" using i3(4) by (simp add: extends_def)
  {
    fix i assume i: "i < adapters s"
    obtain r4 s4 where q: "put p DIRECTORY_VALUE t None s3 = (r4, s4)"
      by (cases "put p DIRECTORY_VALUE t None s3")
    from put_marker_self [OF q] i ad3
    have 4: "last_set i (node_id p) s4 = Some (marker t)" by simp
    show "last_set i (node_id p) (snd (put this v t e s)) = Some (marker t)"
    proof (cases r4)
      case Failed
      with unfold q 4 show ?thesis by simp
    next
      case Done
      let ?s5 = "cache_child p this s4"
      have qq: "quiet s4 (snd (map_each this p (map_subscriptions (nodes ?s5 p)) v t ?s5))"
        by (rule quiet_trans [OF quiet_cache_child quiet_map_each])
      from unfold q Done 4 quiet_last_set [OF qq] show ?thesis by simp
    qed
  }
  fix s4 assume q: "put p DIRECTORY_VALUE t None s3 = (Done, s4)"
  let ?s' = "snd (put this v t e s)"
  let ?s5 = "cache_child p this s4"
  let ?cn = "childNameOf (node_id this)"
  have s': "?s' = snd (map_each this p (map_subscriptions (nodes ?s5 p)) v t ?s5)"
    using unfold q by simp
  from put_marker_grows [OF i3(1) q] have i4: "tables_get_free s4" "grows p (\<lambda>n. False) s3 s4"
    by simp_all
  have t5: "tables_get_free ?s5" using i4(1) by (simp add: tables_cache_child)
  have k: "kept ?s5 ?s'"
    unfolding s' by (rule kept_map_each [OF t5]) (use t5 in \<open>auto simp: tables_get_free_def\<close>)
  have qq: "quiet s4 ?s'"
    unfolding s' by (rule quiet_trans [OF quiet_cache_child quiet_map_each])
  have g4: "grows this (region this v) s s4"
    using grows_trans [OF i3(3) grows_mono [OF grows_parent [OF Some i4(2)]]] by blast
  have g5: "grows this (region this v) s ?s'"
    by (rule grows_trans [OF grows_trans [OF g4 grows_cache_child [OF Some]] kept_grows [OF k]])
  have anc: "ancestors this = p # ancestors p" by (rule ancestors_parent [OF Some])
  {
    fix a i assume that: "a \<in> set (ancestors this)" "i < adapters s"
    show "last_set i (node_id a) ?s' = Some (marker t)"
      using put_marker_chain [OF q] that anc ad3 quiet_last_set [OF qq] by auto
  }
  {
    fix a k c assume that: "a \<in> set (ancestors this)" "children (nodes s a) k = Some c"
    have "\<not> region this v a" using ancestor_not_below [OF that(1)] region_below by blast
    from grows_cases [OF g5 this, of k] that(2) show "children (nodes ?s' a) k = Some c" by auto
  }
  show "children (nodes ?s' p) ?cn =
      (case children (nodes s p) ?cn of None \<Rightarrow> Some this | Some c \<Rightarrow> Some c)"
  proof -
    have np: "\<not> region this v p"
      using ancestor_not_below [of p this] anc region_below by auto
    have c5: "children (nodes ?s' p) ?cn = children (nodes ?s5 p) ?cn"
      using k by (simp add: kept_def)
    from grows_cases [OF g4 np, of ?cn]
    consider "children (nodes s4 p) ?cn = children (nodes s p) ?cn"
      | m where "children (nodes s p) ?cn = None" "m \<in> set (this # ancestors this)"
          "parent m = Some p" "children (nodes s4 p) ?cn = Some m"
      by auto
    then show ?thesis
    proof cases
      case 1
      then show ?thesis
        using c5 by (auto simp: cache_child_def Let_def update_node_def split: option.splits)
    next
      case (2 m)
      from chain_child_unique [OF 2(2,3) Some] have "m = this" .
      with 2 c5 show ?thesis by (simp add: cache_child_def Let_def)
    qed
  qed
qed

text \<open>
  C4, amended. A \<open>put\<close> of a value that is not a non-empty object leaves the node's
  child cache empty unless the value is the directory marker, which leaves it as it
  was; and it writes only to the node's own path and to its ancestors' paths: nothing
  is written for the children the node had.
\<close>

theorem put_leaf_children_cache:
  assumes "tables_get_free s" and "\<not> isNonEmptyObject v"
  shows "children (nodes (snd (put this v t e s)) this) =
           (if isDirectory v then children (nodes s this) else (\<lambda>k. None)) \<and>
         (\<exists>xs. sets (snd (put this v t e s)) = sets s @ xs \<and>
            (\<forall>x\<in>set xs. fst (snd x) \<in> node_id ` set (this # ancestors this)))"
proof -
  obtain r3 s3 where l: "putValue this v t e s = (r3, s3)" by (cases "putValue this v t e s")
  have loc: "put_local this v t e s = (r3, s3)" using l assms(2) by (simp add: put_local_def)
  let ?s1 = "(if \<not> isDirectory v then update_node this (\<lambda>f. f\<lparr>children := (\<lambda>k. None)\<rparr>) s else s)"
  let ?s2 = "adapters_set (node_id this) \<lparr>val = v, updatedAt = t, expiresAt = e\<rparr> ?s1"
  let ?P = "node_id ` set (this # ancestors this)"
  have q3: "quiet ?s2 s3"
  proof -
    have "quiet ?s2 (snd (notifyChange this v (Some t) ?s2))" unfolding notifyChange_def by simp
    moreover have "s3 = snd (notifyChange this v (Some t) ?s2)"
      using l by (auto simp: putValue_def Let_def split: prod.splits completion.splits)
    ultimately show ?thesis by simp
  qed
  have w3: "\<exists>xs. sets s3 = sets s @ xs \<and> (\<forall>x\<in>set xs. fst (snd x) \<in> ?P)"
    using q3 by (auto simp: quiet_def adapters_set_def update_node_def)
  have first: "children (nodes (snd (put this v t e s)) this) =
           (if isDirectory v then children (nodes s this) else (\<lambda>k. None))"
    by (rule put_leaf_clears_children [OF assms])
  have "\<exists>xs. sets (snd (put this v t e s)) = sets s3 @ xs \<and> (\<forall>x\<in>set xs. fst (snd x) \<in> ?P)"
  proof (cases r3)
    case Failed
    with loc show ?thesis by (simp add: put_unfold)
  next
    case Done
    show ?thesis
    proof (cases "parent this")
      case None
      with loc Done show ?thesis by (simp add: put_unfold)
    next
      case (Some p)
      obtain r4 s4 where p: "put p DIRECTORY_VALUE t None s3 = (r4, s4)"
        by (cases "put p DIRECTORY_VALUE t None s3")
      from put_marker_chain [OF p] have "marks (node_id ` set (p # ancestors p)) t s3 s4" by simp
      then obtain xs where xs: "sets s4 = sets s3 @ xs"
        "\<forall>x\<in>set xs. fst (snd x) \<in> node_id ` set (p # ancestors p)"
        unfolding marks_def by blast
      have sub: "node_id ` set (p # ancestors p) \<subseteq> ?P"
        using ancestors_parent [OF Some] by auto
      let ?s5 = "cache_child p this s4"
      have qq: "quiet s4 (snd (map_each this p (map_subscriptions (nodes ?s5 p)) v t ?s5))"
        by (rule quiet_trans [OF quiet_cache_child quiet_map_each])
      have e: "sets (snd (put this v t e s)) = sets s4"
        using loc Done Some p qq by (cases r4) (simp_all add: put_unfold Let_def quiet_def)
      have "\<forall>x\<in>set xs. fst (snd x) \<in> ?P" using xs(2) sub by blast
      with e xs(1) show ?thesis by simp
    qed
  qed
  then obtain ys where ys: "sets (snd (put this v t e s)) = sets s3 @ ys"
    "\<forall>x\<in>set ys. fst (snd x) \<in> ?P" by blast
  from w3 obtain xs where xs: "sets s3 = sets s @ xs" "\<forall>x\<in>set xs. fst (snd x) \<in> ?P" by blast
  have "sets (snd (put this v t e s)) = sets s @ (xs @ ys)" using xs ys by simp
  moreover have "\<forall>x\<in>set (xs @ ys). fst (snd x) \<in> ?P" using xs ys by auto
  ultimately have "\<exists>zs. sets (snd (put this v t e s)) = sets s @ zs \<and>
      (\<forall>x\<in>set zs. fst (snd x) \<in> ?P)" by blast
  with first show ?thesis by simp
qed

section \<open>Scenarios of the write path\<close>

lemma tables_tree_a: "tables_get_free tree_a"
  by (simp add: tables_get_free_def eval_defs)

lemma cache_tree_a: "cache_ok tree_a"
  by (auto simp: cache_ok_def eval_defs slash_free_def split: if_splits)

lemma handle_node_a: "handle_ok node_a"
  by (simp add: node_a_def root_def childNameOf_def)

text \<open>The child \<open>/a/x\<close>.\<close>

definition node_x :: node where
  "node_x = Node 2 ''/a/x'' (Some node_a)"

text \<open>
  Two subscriptions \<open>a.map(...)\<close>, the first callback throws, with the child \<open>/a/x\<close>
  resolved before.
\<close>

definition two_map_subscribers :: state where
  "two_map_subscribers =
     snd (map_sub node_a (User 2 Returns) 0
       (snd (map_sub node_a (User 1 Throws) 0 (snd (get node_a ''x'' tree_a)))))"

definition first_map_subscription :: Subscription where
  "first_map_subscription = \<lparr>callback = TypedCallback (User 1 Throws), recursion = 0\<rparr>"

definition second_map_subscription :: Subscription where
  "second_map_subscription = \<lparr>callback = TypedCallback (User 2 Returns), recursion = 0\<rparr>"

lemma tables_two_map_subscribers: "tables_get_free two_map_subscribers"
  by (simp add: tables_get_free_def two_map_subscribers_def eval_defs)

lemma cache_two_map_subscribers: "cache_ok two_map_subscribers"
  by (auto simp: cache_ok_def two_map_subscribers_def node_x_def eval_defs slash_free_def
      split: if_splits)

lemma handle_node_x: "handle_ok node_x"
  by (simp add: node_x_def node_a_def root_def childNameOf_def)

definition object_written :: state where
  "object_written = snd (put node_a (JObj [(''x'', JNum 1)]) 100 None tree_a)"

text \<open>
  C2 as stated fails: \<open>a.put({x: 1}, 100)\<close> writes the marker for \<open>/a\<close> first and the
  child \<open>/a/x\<close> after it.
\<close>

theorem put_object_marker_first_counterexample:
  "isNonEmptyObject (JObj [(''x'', JNum 1)]) \<and>
   map (\<lambda>x. (fst (snd x), val (snd (snd x)))) (sets object_written) =
     [(''/a'', DIRECTORY_VALUE), (''/a/x'', JNum 1), (''/a'', DIRECTORY_VALUE),
      ('''', DIRECTORY_VALUE), ('''', DIRECTORY_VALUE)]"
  by (simp add: object_written_def eval_defs)

text \<open>\<open>a.put({x: {y: 1}}, 100)\<close>.\<close>

definition nested_written :: "completion \<times> state" where
  "nested_written = put node_a (JObj [(''x'', JObj [(''y'', JNum 1)])]) 100 None tree_a"

text \<open>The child \<open>/a/x\<close> with a subscriber whose callback throws.\<close>

definition child_throws :: state where
  "child_throws = snd (on_sub node_x (User 1 Throws) False 1 (snd (get node_a ''x'' tree_a)))"

lemma tables_child_throws: "tables_get_free child_throws"
  by (simp add: tables_get_free_def child_throws_def node_x_def eval_defs)

lemma cache_child_throws: "cache_ok child_throws"
  by (auto simp: cache_ok_def child_throws_def node_x_def eval_defs slash_free_def
      split: if_splits)

theorem put_object_decomposes_witness:
  "isNonEmptyObject (JObj [(''x'', JObj [(''y'', JNum 1)])]) \<and> tables_get_free tree_a \<and>
   cache_ok tree_a \<and> handle_ok node_a \<and>
   fst (child_puts node_a (entries (JObj [(''x'', JObj [(''y'', JNum 1)])])) 100
     (adapters_set (node_id node_a) \<lparr>val = DIRECTORY_VALUE, updatedAt = 100, expiresAt = None\<rparr> tree_a)) =
     [Done] \<and>
   fst nested_written = Done \<and>
   map (\<lambda>x. (fst (snd x), val (snd (snd x)))) (sets (snd nested_written)) =
     [(''/a'', DIRECTORY_VALUE), (''/a/x'', DIRECTORY_VALUE), (''/a/x/y'', JNum 1),
      (''/a/x'', DIRECTORY_VALUE), (''/a'', DIRECTORY_VALUE), ('''', DIRECTORY_VALUE),
      (''/a'', DIRECTORY_VALUE), ('''', DIRECTORY_VALUE), ('''', DIRECTORY_VALUE)] \<and>
   (0, ''/a/x'', \<lparr>val = DIRECTORY_VALUE, updatedAt = 100, expiresAt = None\<rparr>)
     \<in> set (sets (snd nested_written)) \<and>
   (0, ''/a/x/y'', \<lparr>val = JNum 1, updatedAt = 100, expiresAt = None\<rparr>)
     \<in> set (sets (snd nested_written)) \<and>
   tables_get_free child_throws \<and> cache_ok child_throws \<and>
   fst (child_puts node_a (entries (JObj [(''x'', JNum 1)])) 100
     (adapters_set (node_id node_a) \<lparr>val = DIRECTORY_VALUE, updatedAt = 100, expiresAt = None\<rparr>
        child_throws)) = [Failed] \<and>
   fst (put node_a (JObj [(''x'', JNum 1)]) 100 None child_throws) = Failed \<and>
   map (\<lambda>x. (fst (snd x), val (snd (snd x))))
     (sets (snd (put node_a (JObj [(''x'', JNum 1)]) 100 None child_throws))) =
     [(''/a'', DIRECTORY_VALUE), (''/a/x'', JNum 1)]"
proof -
  let ?w = "JObj [(''x'', JNum 1)]"
  let ?t1 = "adapters_set (node_id node_a)
      \<lparr>val = DIRECTORY_VALUE, updatedAt = 100, expiresAt = None\<rparr> child_throws"
  have a2: "isNonEmptyObject ?w" by simp
  have f: "fst (child_puts node_a (entries ?w) 100 ?t1) = [Failed]"
    by (simp add: child_throws_def node_x_def eval_defs)
  then have f': "child_puts node_a (entries ?w) 100 ?t1 =
      ([Failed], snd (child_puts node_a (entries ?w) 100 ?t1))"
    by (simp add: prod_eq_iff)
  note th2 = put_object_decomposes [OF a2 tables_child_throws cache_child_throws handle_node_a f']
  from th2 [THEN conjunct2, THEN conjunct2, THEN conjunct2, THEN conjunct1]
  have g: "fst (put node_a ?w 100 None child_throws) = Failed" by simp
  have h: "map (\<lambda>x. (fst (snd x), val (snd (snd x))))
     (sets (snd (put node_a ?w 100 None child_throws))) =
     [(''/a'', DIRECTORY_VALUE), (''/a/x'', JNum 1)]"
    by (simp add: child_throws_def node_x_def eval_defs)
  let ?v = "JObj [(''x'', JObj [(''y'', JNum 1)])]"
  let ?s1 = "adapters_set (node_id node_a) \<lparr>val = DIRECTORY_VALUE, updatedAt = 100, expiresAt = None\<rparr> tree_a"
  have a: "isNonEmptyObject ?v" by simp
  have b: "fst (child_puts node_a (entries ?v) 100 ?s1) = [Done]"
    by (simp add: eval_defs)
  then have b': "child_puts node_a (entries ?v) 100 ?s1 = ([Done], snd (child_puts node_a (entries ?v) 100 ?s1))"
    by (simp add: prod_eq_iff)
  have c: "map (\<lambda>x. (fst (snd x), val (snd (snd x)))) (sets (snd nested_written)) =
     [(''/a'', DIRECTORY_VALUE), (''/a/x'', DIRECTORY_VALUE), (''/a/x/y'', JNum 1),
      (''/a/x'', DIRECTORY_VALUE), (''/a'', DIRECTORY_VALUE), ('''', DIRECTORY_VALUE),
      (''/a'', DIRECTORY_VALUE), ('''', DIRECTORY_VALUE), ('''', DIRECTORY_VALUE)]"
    by (simp add: nested_written_def eval_defs)
  have d: "fst nested_written = Done" by (simp add: nested_written_def eval_defs)
  have ad: "adapters tree_a = 1" by (simp add: eval_defs)
  have w: "set (tl (writes (node_id node_a) ?v)) =
      {(''/a/x'', DIRECTORY_VALUE), (''/a/x/y'', JNum 1)}"
    by (auto simp: node_a_def)
  note th = put_object_decomposes [OF a tables_tree_a cache_tree_a handle_node_a b']
  note deep = th [THEN conjunct2, THEN conjunct2, THEN conjunct2, THEN conjunct2, THEN conjunct2]
  have "\<forall>pw\<in>set (tl (writes (node_id node_a) ?v)).
      (0, fst pw, \<lparr>val = snd pw, updatedAt = 100, expiresAt = None\<rparr>)
        \<in> set (sets (snd (put node_a ?v 100 None tree_a)))"
  proof
    fix pw assume "pw \<in> set (tl (writes (node_id node_a) ?v))"
    with deep have "\<forall>a<adapters tree_a. (a, fst pw, \<lparr>val = snd pw, updatedAt = 100, expiresAt = None\<rparr>)
        \<in> set (sets (snd (put node_a ?v 100 None tree_a)))" by (rule bspec)
    then show "(0, fst pw, \<lparr>val = snd pw, updatedAt = 100, expiresAt = None\<rparr>)
        \<in> set (sets (snd (put node_a ?v 100 None tree_a)))" using ad by simp
  qed
  with w have e: "(0, ''/a/x'', \<lparr>val = DIRECTORY_VALUE, updatedAt = 100, expiresAt = None\<rparr>)
     \<in> set (sets (snd nested_written))"
    "(0, ''/a/x/y'', \<lparr>val = JNum 1, updatedAt = 100, expiresAt = None\<rparr>)
     \<in> set (sets (snd nested_written))"
    by (simp_all add: nested_written_def)
  from a tables_tree_a cache_tree_a handle_node_a b c d e tables_child_throws cache_child_throws
    f g h
  show ?thesis by simp
qed

theorem put_marks_ancestors_witness:
  "tables_get_free two_map_subscribers \<and> cache_ok two_map_subscribers \<and> handle_ok node_x \<and>
   parent node_x = Some node_a \<and>
   fst (put_local node_x (JNum 5) 100 None two_map_subscribers) = Done \<and>
   fst (put node_a DIRECTORY_VALUE 100 None
          (snd (put_local node_x (JNum 5) 100 None two_map_subscribers))) = Done \<and>
   fst (put node_x (JNum 5) 100 None two_map_subscribers) = Failed \<and>
   ancestors node_x = [node_a, root] \<and> adapters two_map_subscribers = 1 \<and>
   last_set 0 (node_id node_a) (snd (put node_x (JNum 5) 100 None two_map_subscribers)) =
     Some (marker 100) \<and>
   last_set 0 (node_id root) (snd (put node_x (JNum 5) 100 None two_map_subscribers)) =
     Some (marker 100) \<and>
   children (nodes two_map_subscribers node_a) ''x'' = Some node_x \<and>
   children (nodes (snd (put node_x (JNum 5) 100 None two_map_subscribers)) node_a) ''x'' =
     Some node_x \<and>
   children (nodes (snd (put node_x (JNum 5) 100 None two_map_subscribers)) root) ''a'' =
     Some node_a"
proof -
  let ?s3 = "snd (put_local node_x (JNum 5) 100 None two_map_subscribers)"
  let ?s4 = "snd (put node_a DIRECTORY_VALUE 100 None ?s3)"
  let ?s' = "snd (put node_x (JNum 5) 100 None two_map_subscribers)"
  have k: "parent node_x = Some node_a" by (simp add: node_x_def)
  have l: "fst (put_local node_x (JNum 5) 100 None two_map_subscribers) = Done"
    by (simp add: put_local_def two_map_subscribers_def node_x_def eval_defs)
  then have l': "put_local node_x (JNum 5) 100 None two_map_subscribers = (Done, ?s3)"
    by (simp add: prod_eq_iff)
  have m: "fst (put node_a DIRECTORY_VALUE 100 None ?s3) = Done"
    by (simp add: put_local_def two_map_subscribers_def node_x_def eval_defs)
  then have m': "put node_a DIRECTORY_VALUE 100 None ?s3 = (Done, ?s4)"
    by (simp add: prod_eq_iff)
  have f: "fst (put node_x (JNum 5) 100 None two_map_subscribers) = Failed"
    by (simp add: two_map_subscribers_def node_x_def eval_defs)
  have an: "ancestors node_x = [node_a, root]" by (simp add: node_x_def eval_defs)
  have ad: "adapters two_map_subscribers = 1" by (simp add: two_map_subscribers_def eval_defs)
  have c0: "children (nodes two_map_subscribers node_a) ''x'' = Some node_x"
    by (simp add: two_map_subscribers_def node_x_def eval_defs)
  have c1: "children (nodes two_map_subscribers root) ''a'' = Some node_a"
    by (simp add: two_map_subscribers_def node_x_def eval_defs)
  have cn: "childNameOf (node_id node_x) = ''x''" by (simp add: node_x_def eval_defs)
  note th = put_marks_ancestors [OF tables_two_map_subscribers cache_two_map_subscribers
      handle_node_x k l']
  note th3 = th [THEN conjunct2, THEN conjunct2, THEN spec, THEN mp, OF m']
  have ra: "root \<in> set (ancestors node_x)" using an by simp
  from th3 [THEN conjunct1, THEN bspec, OF ra] ad c1
  have 1: "last_set 0 (node_id root) ?s' = Some (marker 100)"
    "children (nodes ?s' root) ''a'' = Some node_a"
    by simp_all
  from th [THEN conjunct2, THEN conjunct1] ad
  have 2: "last_set 0 (node_id node_a) ?s' = Some (marker 100)" by simp
  from th3 [THEN conjunct2] c0 cn
  have 3: "children (nodes ?s' node_a) ''x'' = Some node_x" by simp
  from tables_two_map_subscribers cache_two_map_subscribers handle_node_x k l m f an ad 1 2 3 c0
  show ?thesis by simp
qed

text \<open>\<open>root.put(5, 1)\<close> empties the cache of the root; \<open>root.get('a')\<close> then makes a new
  handle for \<open>/a\<close>, and the old one is still in the caller's hands.\<close>

definition stale_state :: state where
  "stale_state = snd (get root ''a'' (snd (put root (JNum 5) 1 None tree_a)))"

text \<open>
  C3 as stated fails. With a subscriber of \<open>/a\<close> whose callback throws,
  \<open>a.put(5, 100)\<close> writes \<open>/a\<close> and is rejected before anything is written for the
  root. And a \<open>put\<close> through the old handle of \<open>/a\<close> leaves the new handle in the
  root's cache.
\<close>

theorem put_marks_ancestors_counterexample:
  "fst (put node_a (JNum 5) 100 None two_subscribers) = Failed \<and>
   sets (snd (put node_a (JNum 5) 100 None two_subscribers)) =
     [(0, ''/a'', \<lparr>val = JNum 5, updatedAt = 100, expiresAt = None\<rparr>)] \<and>
   last_set 0 (node_id root) (snd (put node_a (JNum 5) 100 None two_subscribers)) = None \<and>
   fst (put node_a (JNum 7) 2 None stale_state) = Done \<and>
   children (nodes (snd (put node_a (JNum 7) 2 None stale_state)) root) ''a'' =
     Some (Node 2 ''/a'' (Some root)) \<and>
   Node 2 ''/a'' (Some root) \<noteq> node_a"
  by (simp add: two_subscribers_def stale_state_def last_set_def eval_defs)

definition child_written :: state where
  "child_written = snd (put node_x (JNum 1) 1 None (snd (get node_a ''x'' tree_a)))"

definition overwritten :: state where
  "overwritten = snd (put node_a (JNum 5) 2 None child_written)"

definition overwritten_mapped :: state where
  "overwritten_mapped = snd (map_sub node_a (User 9 Returns) 0 overwritten)"

text \<open>
  C4 as stated fails. After \<open>a.get('x').put(1, 1)\<close> and \<open>a.put(5, 2)\<close> the cache of
  \<open>/a\<close> is empty, but the only write ever made for \<open>/a/x\<close> is still \<open>(1, 1)\<close>; a
  \<open>map\<close> subscription made afterwards is registered with the adapter's \<open>list\<close> for
  \<open>/a\<close>, and when the adapter reports that child, the subscriber's callback receives it.
\<close>

theorem put_leaf_children_visible_counterexample:
  "children (nodes child_written node_a) ''x'' = Some node_x \<and>
   children (nodes overwritten node_a) ''x'' = None \<and>
   filter (\<lambda>x. fst (snd x) = ''/a/x'') (sets overwritten_mapped) =
     [(0, ''/a/x'', \<lparr>val = JNum 1, updatedAt = 1, expiresAt = None\<rparr>)] \<and>
   map (\<lambda>e. (as_call (snd e), as_path (snd e))) (adapter_subs overwritten_mapped) =
     [(AdapterList, ''/a'')] \<and>
   map (\<lambda>d. (d_callback d, d_value d, d_path d))
     (log (snd (adapter_notify 0 (JNum 1) ''/a/x'' (Some 1) (AdapterUnsub 0) overwritten_mapped))) =
     [(9, JNum 1, ''/a/x'')]"
  by (simp add: overwritten_mapped_def overwritten_def child_written_def node_x_def
      adapter_notify_def eval_defs)

theorem put_leaf_children_cache_witness:
  "tables_get_free tree_a \<and> \<not> isNonEmptyObject (JNum 5) \<and>
   children (nodes tree_a root) ''a'' = Some node_a \<and>
   children (nodes (snd (put root (JNum 5) 1 None tree_a)) root) = (\<lambda>k. None) \<and>
   sets (snd (put root (JNum 5) 1 None tree_a)) =
     [(0, [], \<lparr>val = JNum 5, updatedAt = 1, expiresAt = None\<rparr>)]"
proof -
  have a: "\<not> isNonEmptyObject (JNum 5)" by simp
  note th = put_leaf_children_cache [OF tables_tree_a a, of root 1 None]
  have b: "children (nodes tree_a root) ''a'' = Some node_a" by (simp add: eval_defs)
  have c: "sets (snd (put root (JNum 5) 1 None tree_a)) =
     [(0, [], \<lparr>val = JNum 5, updatedAt = 1, expiresAt = None\<rparr>)]"
    by (simp add: eval_defs)
  from th have "children (nodes (snd (put root (JNum 5) 1 None tree_a)) root) = (\<lambda>k. None)"
    by simp
  with a b c tables_tree_a show ?thesis by simp
qed

section \<open>Callbacks that throw, in both loops\<close>

lemma map_each_append:
  "map_each this p (pre @ post) v t s =
     (case map_each this p pre v t s of
        (Failed, s1) \<Rightarrow> (Failed, s1)
      | (Done, s1) \<Rightarrow> map_each this p post v t s1)"
  by (induction pre arbitrary: s) (auto split: prod.splits completion.splits)

text \<open>
  C7, amended. A callback that throws ends the dispatch and fails the \<open>put\<close>, in both
  loops. In \<open>notifyChange\<close>, for a \<open>put\<close> of a value that is not a non-empty object:
  when the callback of an \<open>on\<close> subscriber of the node throws, \<open>notifyChange\<close> and the
  \<open>put\<close> fail in the state that callback left, so the subscribers \<open>post\<close> registered
  after it are not invoked and nothing is propagated to the parent. In the loop of \<open>put\<close>
  over \<open>this.parent.map_subscriptions\<close>, once the local write and the parent's \<open>put\<close>
  have completed: when the callback of a \<open>map\<close> subscriber of the parent throws, the loop
  and the \<open>put\<close> fail in the state that callback left, so the subscribers \<open>mpost\<close>
  registered after it are not invoked.
\<close>

theorem throwing_subscriber_aborts:
  "(\<not> isNonEmptyObject v \<longrightarrow>
    s2 = adapters_set (node_id this) \<lparr>val = v, updatedAt = t, expiresAt = e\<rparr>
           (if \<not> isDirectory v then update_node this (\<lambda>f. f\<lparr>children := (\<lambda>k. None)\<rparr>) s else s) \<longrightarrow>
    on_subscriptions (nodes s2 this) = pre @ (i, sub) # post \<longrightarrow>
    notify_each this pre v (Some t) s2 = (Done, s') \<longrightarrow>
    map_of (on_subscriptions (nodes s' this)) i \<noteq> None \<longrightarrow>
    \<not> (recursion sub > 0 \<and> isDirectory v) \<longrightarrow>
    invoke (callback sub) v (node_id this) (Some t) Noop s' = (Failed, s1) \<longrightarrow>
    notifyChange this v (Some t) s2 = (Failed, s1) \<and> put this v t e s = (Failed, s1)) \<and>
   (parent this = Some p \<longrightarrow>
    put_local this v t e s = (Done, s3) \<longrightarrow>
    put p DIRECTORY_VALUE t None s3 = (Done, s4) \<longrightarrow>
    s5 = cache_child p this s4 \<longrightarrow>
    map_subscriptions (nodes s5 p) = mpre @ (j, msub) # mpost \<longrightarrow>
    map_each this p mpre v t s5 = (Done, s6) \<longrightarrow>
    map_of (map_subscriptions (nodes s6 p)) j \<noteq> None \<longrightarrow>
    \<not> isDirectory v \<or> recursion msub = 0 \<longrightarrow>
    invoke (callback msub) v (node_id this) (Some t) (ParentMapDelete p j) s6 = (Failed, s7) \<longrightarrow>
    map_each this p (map_subscriptions (nodes s5 p)) v t s5 = (Failed, s7) \<and>
    put this v t e s = (Failed, s7))"
proof (intro conjI impI)
  assume a: "\<not> isNonEmptyObject v"
    "s2 = adapters_set (node_id this) \<lparr>val = v, updatedAt = t, expiresAt = e\<rparr>
           (if \<not> isDirectory v then update_node this (\<lambda>f. f\<lparr>children := (\<lambda>k. None)\<rparr>) s else s)"
    "on_subscriptions (nodes s2 this) = pre @ (i, sub) # post"
    "notify_each this pre v (Some t) s2 = (Done, s')"
    "map_of (on_subscriptions (nodes s' this)) i \<noteq> None"
    "\<not> (recursion sub > 0 \<and> isDirectory v)"
    "invoke (callback sub) v (node_id this) (Some t) Noop s' = (Failed, s1)"
  show n: "notifyChange this v (Some t) s2 = (Failed, s1)"
    using a(3-7) by (auto simp: notifyChange_def notify_each_append)
  have "putValue this v t e s = (Failed, s1)"
    using n a(2) by (simp add: putValue_def Let_def)
  with a(1) show "put this v t e s = (Failed, s1)" by (simp add: put.simps)
next
  assume b: "parent this = Some p" "put_local this v t e s = (Done, s3)"
    "put p DIRECTORY_VALUE t None s3 = (Done, s4)" "s5 = cache_child p this s4"
    "map_subscriptions (nodes s5 p) = mpre @ (j, msub) # mpost"
    "map_each this p mpre v t s5 = (Done, s6)"
    "map_of (map_subscriptions (nodes s6 p)) j \<noteq> None"
    "\<not> isDirectory v \<or> recursion msub = 0"
    "invoke (callback msub) v (node_id this) (Some t) (ParentMapDelete p j) s6 = (Failed, s7)"
  show m: "map_each this p (map_subscriptions (nodes s5 p)) v t s5 = (Failed, s7)"
    using b(5-9) by (auto simp: map_each_append)
  from b(1-4) m show "put this v t e s = (Failed, s7)" by (simp add: put_unfold Let_def)
qed


theorem throwing_subscriber_aborts_witness:
  "\<not> isNonEmptyObject (JNum 5) \<and>
   on_subscriptions (nodes two_subscribers_set node_a) =
     [] @ (0, first_subscription) # [(1, second_subscription)] \<and>
   notify_each node_a [] (JNum 5) (Some 100) two_subscribers_set = (Done, two_subscribers_set) \<and>
   map_of (on_subscriptions (nodes two_subscribers_set node_a)) 0 \<noteq> None \<and>
   \<not> (recursion first_subscription > 0 \<and> isDirectory (JNum 5)) \<and>
   fst (invoke (callback first_subscription) (JNum 5) (node_id node_a) (Some 100) Noop
          two_subscribers_set) = Failed \<and>
   put node_a (JNum 5) 100 None two_subscribers =
     (Failed, snd (invoke (callback first_subscription) (JNum 5) (node_id node_a) (Some 100) Noop
          two_subscribers_set)) \<and>
   map d_callback (log (snd (put node_a (JNum 5) 100 None two_subscribers))) = [1] \<and>
   parent node_x = Some node_a \<and>
   fst (put_local node_x (JNum 5) 100 None two_map_subscribers) = Done \<and>
   fst (put node_a DIRECTORY_VALUE 100 None
          (snd (put_local node_x (JNum 5) 100 None two_map_subscribers))) = Done \<and>
   map_subscriptions (nodes (cache_child node_a node_x (snd (put node_a DIRECTORY_VALUE 100 None
          (snd (put_local node_x (JNum 5) 100 None two_map_subscribers))))) node_a) =
     [] @ (0, first_map_subscription) # [(1, second_map_subscription)] \<and>
   fst (invoke (callback first_map_subscription) (JNum 5) (node_id node_x) (Some 100)
          (ParentMapDelete node_a 0)
          (cache_child node_a node_x (snd (put node_a DIRECTORY_VALUE 100 None
             (snd (put_local node_x (JNum 5) 100 None two_map_subscribers)))))) = Failed \<and>
   put node_x (JNum 5) 100 None two_map_subscribers =
     (Failed, snd (invoke (callback first_map_subscription) (JNum 5) (node_id node_x) (Some 100)
          (ParentMapDelete node_a 0)
          (cache_child node_a node_x (snd (put node_a DIRECTORY_VALUE 100 None
             (snd (put_local node_x (JNum 5) 100 None two_map_subscribers))))))) \<and>
   map d_callback (log (snd (put node_x (JNum 5) 100 None two_map_subscribers))) = [1]"
proof -
  let ?s1 = "snd (invoke (callback first_subscription) (JNum 5) (node_id node_a) (Some 100) Noop
          two_subscribers_set)"
  have a: "\<not> isNonEmptyObject (JNum 5)" by simp
  have b: "two_subscribers_set =
     adapters_set (node_id node_a) \<lparr>val = JNum 5, updatedAt = 100, expiresAt = None\<rparr>
       (if \<not> isDirectory (JNum 5)
        then update_node node_a (\<lambda>f. f\<lparr>children := (\<lambda>k. None)\<rparr>) two_subscribers
        else two_subscribers)"
    by (simp add: two_subscribers_set_def)
  have c: "on_subscriptions (nodes two_subscribers_set node_a) =
     [] @ (0, first_subscription) # [(1, second_subscription)]"
    by (simp add: two_subscribers_set_def two_subscribers_def first_subscription_def
        second_subscription_def eval_defs)
  have d: "notify_each node_a [] (JNum 5) (Some 100) two_subscribers_set = (Done, two_subscribers_set)"
    by simp
  have e: "map_of (on_subscriptions (nodes two_subscribers_set node_a)) 0 \<noteq> None"
    using c by simp
  have f: "\<not> (recursion first_subscription > 0 \<and> isDirectory (JNum 5))" by simp
  have g: "fst (invoke (callback first_subscription) (JNum 5) (node_id node_a) (Some 100) Noop
          two_subscribers_set) = Failed"
    by (simp add: two_subscribers_set_def two_subscribers_def first_subscription_def eval_defs)
  then have g': "invoke (callback first_subscription) (JNum 5) (node_id node_a) (Some 100) Noop
          two_subscribers_set = (Failed, ?s1)"
    by (simp add: prod_eq_iff)
  have h: "map d_callback (log (snd (put node_a (JNum 5) 100 None two_subscribers))) = [1]"
    by (simp add: two_subscribers_def eval_defs)
  let ?s3 = "snd (put_local node_x (JNum 5) 100 None two_map_subscribers)"
  let ?s4 = "snd (put node_a DIRECTORY_VALUE 100 None ?s3)"
  let ?s5 = "cache_child node_a node_x ?s4"
  let ?s7 = "snd (invoke (callback first_map_subscription) (JNum 5) (node_id node_x) (Some 100)
          (ParentMapDelete node_a 0) ?s5)"
  have k: "parent node_x = Some node_a" by (simp add: node_x_def)
  have l: "fst (put_local node_x (JNum 5) 100 None two_map_subscribers) = Done"
    by (simp add: put_local_def two_map_subscribers_def node_x_def eval_defs)
  then have l': "put_local node_x (JNum 5) 100 None two_map_subscribers = (Done, ?s3)"
    by (simp add: prod_eq_iff)
  have m: "fst (put node_a DIRECTORY_VALUE 100 None ?s3) = Done"
    by (simp add: put_local_def two_map_subscribers_def node_x_def eval_defs)
  then have m': "put node_a DIRECTORY_VALUE 100 None ?s3 = (Done, ?s4)"
    by (simp add: prod_eq_iff)
  have n: "map_subscriptions (nodes ?s5 node_a) =
     [] @ (0, first_map_subscription) # [(1, second_map_subscription)]"
    by (simp add: put_local_def two_map_subscribers_def node_x_def first_map_subscription_def
        second_map_subscription_def eval_defs)
  have o: "map_each node_x node_a [] (JNum 5) 100 ?s5 = (Done, ?s5)" by simp
  have q: "map_of (map_subscriptions (nodes ?s5 node_a)) 0 \<noteq> None" using n by simp
  have r: "\<not> isDirectory (JNum 5) \<or> recursion first_map_subscription = 0" by simp
  have u: "fst (invoke (callback first_map_subscription) (JNum 5) (node_id node_x) (Some 100)
          (ParentMapDelete node_a 0) ?s5) = Failed"
    by (simp add: first_map_subscription_def invoke.simps)
  then have u': "invoke (callback first_map_subscription) (JNum 5) (node_id node_x) (Some 100)
          (ParentMapDelete node_a 0) ?s5 = (Failed, ?s7)"
    by (simp add: prod_eq_iff)
  have w: "map d_callback (log (snd (put node_x (JNum 5) 100 None two_map_subscribers))) = [1]"
    by (simp add: two_map_subscribers_def node_x_def eval_defs)
  note th1 = throwing_subscriber_aborts [of "JNum 5" two_subscribers_set node_a 100 None
      two_subscribers "[]" 0 first_subscription "[(1, second_subscription)]"
      two_subscribers_set ?s1]
  note th2 = throwing_subscriber_aborts [where this = node_x and p = node_a and v = "JNum 5"
      and t = 100 and e = None and s = two_map_subscribers and ?s3.0 = ?s3 and ?s4.0 = ?s4
      and ?s5.0 = ?s5 and mpre = "[]" and j = 0 and msub = first_map_subscription
      and mpost = "[(1, second_map_subscription)]" and ?s6.0 = ?s5 and ?s7.0 = ?s7]
  from th1 a b c d e f g' have 1: "put node_a (JNum 5) 100 None two_subscribers = (Failed, ?s1)"
    by blast
  from th2 k l' m' n o q r u' have 2: "put node_x (JNum 5) 100 None two_map_subscribers = (Failed, ?s7)"
    by blast
  from 1 2 a c d e f g h k l m n u w show ?thesis by simp
qed

section \<open>What an unsubscribe function removes\<close>
text \<open>
  Removing entries from the tables: the \<open>on\<close> entries \<open>DO\<close>, the \<open>map\<close> entries \<open>DM\<close>
  (each a node with an id) and the adapter registrations \<open>DA\<close>.
\<close>

definition del :: "(node \<times> nat) set \<Rightarrow> (node \<times> nat) set \<Rightarrow> nat set \<Rightarrow> state \<Rightarrow> state" where
  "del DO DM DA s =
     s\<lparr>nodes := (\<lambda>n. (nodes s n)
          \<lparr>on_subscriptions := filter (\<lambda>e. (n, fst e) \<notin> DO) (on_subscriptions (nodes s n)),
           map_subscriptions := filter (\<lambda>e. (n, fst e) \<notin> DM) (map_subscriptions (nodes s n))\<rparr>),
       adapter_subs := filter (\<lambda>e. fst e \<notin> DA) (adapter_subs s)\<rparr>"

lemma del_empty [simp]: "del {} {} {} s = s"
  by (simp add: del_def)

lemma del_del: "del A B C (del A' B' C' s) = del (A \<union> A') (B \<union> B') (C \<union> C') s"
  by (simp add: del_def fun_eq_iff conj_commute)

lemma del_cells [simp]:
  "map_cells (del A B C s) = map_cells s" "on_cells (del A B C s) = on_cells s"
  by (simp_all add: del_def)

lemma delete_map_del: "delete_map n i s = del {} {(n, i)} {} s"
  by (auto simp: delete_map_def del_def update_node_def map_delete_def fun_eq_iff
      intro!: filter_cong)

lemma delete_on_del: "delete_on n i s = del {(n, i)} {} {} s"
  by (auto simp: delete_on_def del_def update_node_def map_delete_def fun_eq_iff
      intro!: filter_cong)

lemma adapter_unsubscribe_del: "adapter_unsubscribe k s = del {} {} {k} s"
  by (simp add: adapter_unsubscribe_def del_def map_delete_def)

lemma fold_adapter_unsubscribe_del: "fold adapter_unsubscribe ks s = del {} {} (set ks) s"
proof (induction ks arbitrary: s)
  case Nil
  show ?case by simp
next
  case (Cons k ks)
  have "fold adapter_unsubscribe (k # ks) s = del {} {} (set ks) (del {} {} {k} s)"
    by (simp add: Cons adapter_unsubscribe_del)
  also have "\<dots> = del {} {} (set (k # ks)) s" by (simp add: del_del Un_commute)
  finally show ?case .
qed

text \<open>The \<open>map\<close> subscriptions \<open>unsubscribe\<close> reaches from \<open>m\<close>, with the levels left.\<close>

fun visit :: "nat \<Rightarrow> MapUnsub \<Rightarrow> (nat \<Rightarrow> MapCell) \<Rightarrow> (MapUnsub \<times> nat) list" where
  "visit d m mc =
     (m, d) # (case d of
                 0 \<Rightarrow> []
               | Suc d' \<Rightarrow> concat (map (\<lambda>e. visit d' (snd e) mc) (openUnsubs (mc (mu_cell m)))))"

declare visit.simps [simp del]

definition visit_keys :: "(MapUnsub \<times> nat) list \<Rightarrow> (node \<times> nat) set" where
  "visit_keys vs = (\<lambda>x. (mu_node (fst x), mu_id (fst x))) ` set vs"

definition visit_regs :: "(MapUnsub \<times> nat) list \<Rightarrow> (nat \<Rightarrow> MapCell) \<Rightarrow> nat set" where
  "visit_regs vs mc = (\<Union>x\<in>set vs. set (adapterSubs (mc (mu_cell (fst x)))))"

lemma visit_keys_simps [simp]:
  "visit_keys [] = {}" "visit_keys (x # xs) = insert (mu_node (fst x), mu_id (fst x)) (visit_keys xs)"
  "visit_keys (xs @ ys) = visit_keys xs \<union> visit_keys ys"
  by (auto simp: visit_keys_def)

lemma visit_regs_simps [simp]:
  "visit_regs [] mc = {}"
  "visit_regs (x # xs) mc = set (adapterSubs (mc (mu_cell (fst x)))) \<union> visit_regs xs mc"
  "visit_regs (xs @ ys) mc = visit_regs xs mc \<union> visit_regs ys mc"
  by (auto simp: visit_regs_def)

lemma fold_map_unsubscribe_del:
  assumes "\<And>m s. map_unsubscribe d m s =
     del {} (visit_keys (visit d m (map_cells s))) (visit_regs (visit d m (map_cells s)) (map_cells s)) s"
  shows "fold (\<lambda>e. map_unsubscribe d (snd e)) es s =
     del {} (visit_keys (concat (map (\<lambda>e. visit d (snd e) (map_cells s)) es)))
       (visit_regs (concat (map (\<lambda>e. visit d (snd e) (map_cells s)) es)) (map_cells s)) s"
proof (induction es arbitrary: s)
  case Nil
  show ?case by simp
next
  case (Cons e es)
  let ?s1 = "map_unsubscribe d (snd e) s"
  have mc: "map_cells ?s1 = map_cells s" by (simp add: assms)
  have "fold (\<lambda>e. map_unsubscribe d (snd e)) (e # es) s =
      fold (\<lambda>e. map_unsubscribe d (snd e)) es ?s1" by simp
  also have "\<dots> = del {} (visit_keys (concat (map (\<lambda>e. visit d (snd e) (map_cells s)) es)))
       (visit_regs (concat (map (\<lambda>e. visit d (snd e) (map_cells s)) es)) (map_cells s)) ?s1"
    by (simp add: Cons mc)
  also have "\<dots> = del {} (visit_keys (concat (map (\<lambda>e. visit d (snd e) (map_cells s)) (e # es))))
       (visit_regs (concat (map (\<lambda>e. visit d (snd e) (map_cells s)) (e # es))) (map_cells s)) s"
    by (simp add: assms del_del Un_commute)
  finally show ?case .
qed

lemma map_unsubscribe_del:
  "map_unsubscribe d m s =
     del {} (visit_keys (visit d m (map_cells s))) (visit_regs (visit d m (map_cells s)) (map_cells s)) s"
proof (induction d arbitrary: m s)
  case 0
  obtain n i c r where m: "m = MapUnsub n i c r" by (cases m)
  show ?case
    by (simp add: m Let_def visit.simps delete_map_del fold_adapter_unsubscribe_del del_del)
next
  case (Suc d)
  obtain n i c r where m: "m = MapUnsub n i c r" by (cases m)
  let ?s2 = "del {} {(n, i)} (set (adapterSubs (map_cells s c))) s"
  let ?vs = "concat (map (\<lambda>e. visit d (snd e) (map_cells s)) (openUnsubs (map_cells s c)))"
  have s2: "fold adapter_unsubscribe (adapterSubs (map_cells (delete_map n i s) c)) (delete_map n i s) = ?s2"
    by (simp add: delete_map_del fold_adapter_unsubscribe_del del_del)
  have v: "visit (Suc d) m (map_cells s) = (m, Suc d) # ?vs"
    by (simp add: m visit.simps [of "Suc d"])
  have "map_unsubscribe (Suc d) m s =
      fold (\<lambda>e. map_unsubscribe d (snd e)) (openUnsubs (map_cells ?s2 c)) ?s2"
    by (simp add: m Let_def s2)
  also have "\<dots> = fold (\<lambda>e. map_unsubscribe d (snd e)) (openUnsubs (map_cells s c)) ?s2"
    by simp
  also have "\<dots> = del {}
       (visit_keys (concat (map (\<lambda>e. visit d (snd e) (map_cells ?s2)) (openUnsubs (map_cells s c)))))
       (visit_regs (concat (map (\<lambda>e. visit d (snd e) (map_cells ?s2)) (openUnsubs (map_cells s c))))
          (map_cells ?s2)) ?s2"
    by (rule fold_map_unsubscribe_del [OF Suc])
  also have "\<dots> = del {} (visit_keys ?vs) (visit_regs ?vs (map_cells s)) ?s2"
    by simp
  also have "\<dots> = del {} (visit_keys ?vs \<union> {(n, i)})
       (visit_regs ?vs (map_cells s) \<union> set (adapterSubs (map_cells s c))) s"
    by (simp only: del_del Un_empty_right)
  also have "visit_keys ?vs \<union> {(n, i)} = visit_keys (visit (Suc d) m (map_cells s))"
    unfolding v by (simp add: m)
  also have "visit_regs ?vs (map_cells s) \<union> set (adapterSubs (map_cells s c)) =
      visit_regs (visit (Suc d) m (map_cells s)) (map_cells s)"
    unfolding v by (simp add: m Un_commute)
  finally show ?case .
qed


text \<open>What an \<open>Unsubscribe\<close> removes, read off the cells.\<close>

fun unsub_visit :: "Unsubscribe \<Rightarrow> state \<Rightarrow> (MapUnsub \<times> nat) list" where
  "unsub_visit (MapUnsubscribe m) s = visit (nat (mu_recursion m)) m (map_cells s)"
| "unsub_visit (UnsubscribeAll n i c ks) s =
     (case openUnsubscribe (on_cells s c) of
        None \<Rightarrow> []
      | Some m \<Rightarrow> visit (nat (mu_recursion m)) m (map_cells s))"
| "unsub_visit _ s = []"

fun unsub_on :: "Unsubscribe \<Rightarrow> (node \<times> nat) set" where
  "unsub_on (UnsubscribeAll n i c ks) = {(n, i)}"
| "unsub_on _ = {}"

fun unsub_map :: "Unsubscribe \<Rightarrow> state \<Rightarrow> (node \<times> nat) set" where
  "unsub_map (ParentMapDelete p i) s = {(p, i)}"
| "unsub_map u s = visit_keys (unsub_visit u s)"

fun unsub_regs :: "Unsubscribe \<Rightarrow> state \<Rightarrow> nat set" where
  "unsub_regs (AdapterUnsub k) s = {k}"
| "unsub_regs (UnsubscribeAll n i c ks) s =
     set ks \<union> visit_regs (unsub_visit (UnsubscribeAll n i c ks) s) (map_cells s)"
| "unsub_regs u s = visit_regs (unsub_visit u s) (map_cells s)"

lemma call_unsub_del:
  "call_unsub u s = del (unsub_on u) (unsub_map u s) (unsub_regs u s) s"
proof (cases u)
  case Noop
  then show ?thesis by simp
next
  case (AdapterUnsub k)
  then show ?thesis by (simp add: adapter_unsubscribe_del)
next
  case (ParentMapDelete p i)
  then show ?thesis by (simp add: delete_map_del)
next
  case u: (UnsubscribeAll n i c ks)
  let ?s2 = "del {(n, i)} {} (set ks) s"
  have s2: "fold adapter_unsubscribe ks (delete_on n i s) = ?s2"
    by (simp add: delete_on_del fold_adapter_unsubscribe_del del_del)
  show ?thesis
  proof (cases "openUnsubscribe (on_cells s c)")
    case None
    then show ?thesis by (simp add: u Let_def s2)
  next
    case (Some m)
    let ?vs = "visit (nat (mu_recursion m)) m (map_cells s)"
    have "call_unsub u s = map_unsubscribe (nat (mu_recursion m)) m ?s2"
      by (simp add: u Let_def s2 Some)
    also have "\<dots> = del {} (visit_keys ?vs) (visit_regs ?vs (map_cells s)) ?s2"
      by (simp add: map_unsubscribe_del)
    also have "\<dots> = del {(n, i)} (visit_keys ?vs) (visit_regs ?vs (map_cells s) \<union> set ks) s"
      by (simp only: del_del Un_empty_right Un_empty_left)
    also have "visit_regs ?vs (map_cells s) \<union> set ks = unsub_regs u s"
      by (simp add: u Some Un_commute)
    finally have "call_unsub u s = del {(n, i)} (visit_keys ?vs) (unsub_regs u s) s" .
    moreover have "unsub_on u = {(n, i)}" by (simp add: u)
    moreover have "unsub_map u s = visit_keys ?vs" by (simp add: u Some)
    ultimately show ?thesis by simp
  qed
next
  case (MapUnsubscribe m)
  then show ?thesis by (simp add: map_unsubscribe_del)
qed

lemma unsub_visit_del [simp]: "unsub_visit u (del A B C s) = unsub_visit u s"
  by (cases u) (simp_all split: option.splits)

lemma unsub_map_del [simp]: "unsub_map u (del A B C s) = unsub_map u s"
  by (cases u) simp_all

lemma unsub_regs_del [simp]: "unsub_regs u (del A B C s) = unsub_regs u s"
  by (cases u) simp_all

lemma call_unsub_idem: "call_unsub u (call_unsub u s) = call_unsub u s"
  by (simp add: call_unsub_del del_del)


section \<open>Invariants of the engine\<close>

text \<open>
  A property \<open>P\<close> of the state, with a property \<open>F\<close> of the callbacks that are run in
  it, is carried from \<open>s\<close> to \<open>s'\<close>.
\<close>

definition pres :: "(state \<Rightarrow> bool) \<Rightarrow> (state \<Rightarrow> Callback \<Rightarrow> bool) \<Rightarrow> state \<Rightarrow> state \<Rightarrow> bool" where
  "pres P F s s' \<longleftrightarrow> (P s \<longrightarrow> P s' \<and> (\<forall>cb. F s cb \<longrightarrow> F s' cb))"

lemma pres_refl [simp]: "pres P F s s"
  by (simp add: pres_def)

lemma pres_trans: "pres P F s s1 \<Longrightarrow> pres P F s1 s2 \<Longrightarrow> pres P F s s2"
  by (simp add: pres_def)

lemma presI: "(P s \<Longrightarrow> pres P F s s') \<Longrightarrow> pres P F s s'"
  by (simp add: pres_def)

lemma pres_P: "pres P F s s' \<Longrightarrow> P s \<Longrightarrow> P s'"
  by (simp add: pres_def)

lemma pres_F: "pres P F s s' \<Longrightarrow> P s \<Longrightarrow> F s cb \<Longrightarrow> F s' cb"
  by (simp add: pres_def)

text \<open>The assignments of the engine carry it.\<close>

definition prims_ok :: "(state \<Rightarrow> bool) \<Rightarrow> (state \<Rightarrow> Callback \<Rightarrow> bool) \<Rightarrow> bool" where
  "prims_ok P F \<longleftrightarrow>
     (\<forall>s k b v p t un. F s (User k b) \<longrightarrow>
        pres P F s (s\<lparr>log := log s @ [\<lparr>d_callback = k, d_value = v, d_path = p,
          d_updatedAt = t, d_unsubscribe = un\<rparr>]\<rparr>)) \<and>
     (\<forall>s un. pres P F s (call_unsub un s)) \<and>
     (\<forall>s x. pres P F s (s\<lparr>once_cells := x\<rparr>)) \<and>
     (\<forall>s c v t. pres P F s (record_latest c v t s)) \<and>
     (\<forall>s c t. pres P F s (track_latestTime c t s)) \<and>
     (\<forall>s c k v. pres P F s (aggregate c k v s)) \<and>
     (\<forall>s c p v t. pres P F s (record_child c p v t s)) \<and>
     (\<forall>s n x. pres P F s (snd (get_child n x s))) \<and>
     (\<forall>s path nv. pres P F s (adapters_set path nv s)) \<and>
     (\<forall>s n ch. pres P F s (update_node n (\<lambda>f. f\<lparr>children := ch\<rparr>) s))"

text \<open>The subscriptions a callback opens carry it.\<close>

definition opens_ok :: "(state \<Rightarrow> bool) \<Rightarrow> (state \<Rightarrow> Callback \<Rightarrow> bool) \<Rightarrow> bool" where
  "opens_ok P F \<longleftrightarrow>
     (\<forall>s c cb riu r n v. P s \<longrightarrow> F s (LocalCallback c cb riu r n) \<longrightarrow>
        pres P F s (open_directory c cb r n v s)) \<and>
     (\<forall>s c cb r n i k. P s \<longrightarrow> 0 < r \<longrightarrow> F s (MapCb c cb r n i) \<longrightarrow>
        pres P F s (open_child c cb r n k s))"

text \<open>\<open>F\<close> of a closure gives \<open>F\<close> of the callback it wraps.\<close>

definition unwraps :: "(state \<Rightarrow> Callback \<Rightarrow> bool) \<Rightarrow> bool" where
  "unwraps F \<longleftrightarrow>
     (\<forall>s c f. F s (OnceCb c (Some f)) \<longrightarrow> F s f) \<and>
     (\<forall>s c cb riu r n. F s (LocalCallback c cb riu r n) \<longrightarrow> F s cb) \<and>
     (\<forall>s c cb n. F s (OpenCallback c cb n) \<longrightarrow> F s cb) \<and>
     (\<forall>s cb. F s (TypedCallback cb) \<longrightarrow> F s cb) \<and>
     (\<forall>s c cb r n i. F s (MapCb c cb r n i) \<longrightarrow> F s cb)"

text \<open>Under \<open>P\<close>, every callback in a table has \<open>F\<close>.\<close>

definition tables_ok :: "(state \<Rightarrow> bool) \<Rightarrow> (state \<Rightarrow> Callback \<Rightarrow> bool) \<Rightarrow> bool" where
  "tables_ok P F \<longleftrightarrow>
     (\<forall>s n e. P s \<longrightarrow> e \<in> set (on_subscriptions (nodes s n)) \<longrightarrow> F s (callback (snd e))) \<and>
     (\<forall>s n e. P s \<longrightarrow> e \<in> set (map_subscriptions (nodes s n)) \<longrightarrow> F s (callback (snd e))) \<and>
     (\<forall>s e. P s \<longrightarrow> e \<in> set (adapter_subs s) \<longrightarrow> F s (as_callback (snd e)))"

definition engine_inv :: "(state \<Rightarrow> bool) \<Rightarrow> (state \<Rightarrow> Callback \<Rightarrow> bool) \<Rightarrow> bool" where
  "engine_inv P F \<longleftrightarrow> prims_ok P F \<and> opens_ok P F \<and> unwraps F \<and> tables_ok P F"

lemma pres_log:
  assumes "prims_ok P F" "F s (User k b)"
  shows "pres P F s (s\<lparr>log := log s @ [\<lparr>d_callback = k, d_value = v, d_path = p,
     d_updatedAt = t, d_unsubscribe = un\<rparr>]\<rparr>)"
proof -
  from assms(1) have "\<forall>s k b v p t un. F s (User k b) \<longrightarrow>
        pres P F s (s\<lparr>log := log s @ [\<lparr>d_callback = k, d_value = v, d_path = p,
          d_updatedAt = t, d_unsubscribe = un\<rparr>]\<rparr>)"
    unfolding prims_ok_def by (elim conjE)
  then have "F s (User k b) \<longrightarrow>
        pres P F s (s\<lparr>log := log s @ [\<lparr>d_callback = k, d_value = v, d_path = p,
          d_updatedAt = t, d_unsubscribe = un\<rparr>]\<rparr>)" by (elim allE)
  with assms(2) show ?thesis by (rule rev_mp)
qed

lemma pres_call_unsub: "prims_ok P F \<Longrightarrow> pres P F s (call_unsub un s)"
  by (simp add: prims_ok_def)

lemma pres_once_cells: "prims_ok P F \<Longrightarrow> pres P F s (s\<lparr>once_cells := x\<rparr>)"
  by (simp add: prims_ok_def)

lemma pres_record_latest: "prims_ok P F \<Longrightarrow> pres P F s (record_latest c v t s)"
  by (simp add: prims_ok_def)

lemma pres_track_latestTime: "prims_ok P F \<Longrightarrow> pres P F s (track_latestTime c t s)"
  by (simp add: prims_ok_def)

lemma pres_aggregate: "prims_ok P F \<Longrightarrow> pres P F s (aggregate c k v s)"
  by (simp add: prims_ok_def)

lemma pres_record_child: "prims_ok P F \<Longrightarrow> pres P F s (record_child c p v t s)"
  by (simp add: prims_ok_def)

lemma pres_get_child: "prims_ok P F \<Longrightarrow> pres P F s (snd (get_child n x s))"
  by (simp add: prims_ok_def)

lemma pres_adapters_set: "prims_ok P F \<Longrightarrow> pres P F s (adapters_set path nv s)"
  by (simp add: prims_ok_def)

lemma pres_children: "prims_ok P F \<Longrightarrow> pres P F s (update_node n (\<lambda>f. f\<lparr>children := ch\<rparr>) s)"
  by (simp add: prims_ok_def)

lemma pres_open_directory:
  "opens_ok P F \<Longrightarrow> P s \<Longrightarrow> F s (LocalCallback c cb riu r n) \<Longrightarrow>
   pres P F s (open_directory c cb r n v s)"
  unfolding opens_ok_def by blast

lemma pres_open_child:
  "opens_ok P F \<Longrightarrow> P s \<Longrightarrow> 0 < r \<Longrightarrow> F s (MapCb c cb r n i) \<Longrightarrow>
   pres P F s (open_child c cb r n k s)"
  unfolding opens_ok_def by blast

lemma unwraps_OnceCb:
  assumes "unwraps F" "F s (OnceCb c (Some f))"
  shows "F s f"
proof -
  from assms(1) have "\<forall>s c f. F s (OnceCb c (Some f)) \<longrightarrow> F s f"
    unfolding unwraps_def by (elim conjE)
  then have "F s (OnceCb c (Some f)) \<longrightarrow> F s f" by (elim allE)
  with assms(2) show ?thesis by (rule rev_mp)
qed

lemma unwraps_LocalCallback:
  assumes "unwraps F" "F s (LocalCallback c cb riu r n)"
  shows "F s cb"
proof -
  from assms(1) have "\<forall>s c cb riu r n. F s (LocalCallback c cb riu r n) \<longrightarrow> F s cb"
    unfolding unwraps_def by (elim conjE)
  then have "F s (LocalCallback c cb riu r n) \<longrightarrow> F s cb" by (elim allE)
  with assms(2) show ?thesis by (rule rev_mp)
qed

lemma unwraps_OpenCallback:
  assumes "unwraps F" "F s (OpenCallback c cb n)"
  shows "F s cb"
proof -
  from assms(1) have "\<forall>s c cb n. F s (OpenCallback c cb n) \<longrightarrow> F s cb"
    unfolding unwraps_def by (elim conjE)
  then have "F s (OpenCallback c cb n) \<longrightarrow> F s cb" by (elim allE)
  with assms(2) show ?thesis by (rule rev_mp)
qed

lemma unwraps_TypedCallback:
  assumes "unwraps F" "F s (TypedCallback cb)"
  shows "F s cb"
proof -
  from assms(1) have "\<forall>s cb. F s (TypedCallback cb) \<longrightarrow> F s cb"
    unfolding unwraps_def by (elim conjE)
  then have "F s (TypedCallback cb) \<longrightarrow> F s cb" by (elim allE)
  with assms(2) show ?thesis by (rule rev_mp)
qed

lemma unwraps_MapCb:
  assumes "unwraps F" "F s (MapCb c cb r n i)"
  shows "F s cb"
proof -
  from assms(1) have "\<forall>s c cb r n i. F s (MapCb c cb r n i) \<longrightarrow> F s cb"
    unfolding unwraps_def by (elim conjE)
  then have "F s (MapCb c cb r n i) \<longrightarrow> F s cb" by (elim allE)
  with assms(2) show ?thesis by (rule rev_mp)
qed

lemmas unwrapsD = unwraps_OnceCb unwraps_LocalCallback unwraps_OpenCallback unwraps_TypedCallback unwraps_MapCb

lemma tables_okD:
  "tables_ok P F \<Longrightarrow> P s \<Longrightarrow> e \<in> set (on_subscriptions (nodes s n)) \<Longrightarrow> F s (callback (snd e))"
  "tables_ok P F \<Longrightarrow> P s \<Longrightarrow> e \<in> set (map_subscriptions (nodes s n)) \<Longrightarrow> F s (callback (snd e))"
  "tables_ok P F \<Longrightarrow> P s \<Longrightarrow> a \<in> set (adapter_subs s) \<Longrightarrow> F s (as_callback (snd a))"
  unfolding tables_ok_def by blast+

lemma pres_get_path: "prims_ok P F \<Longrightarrow> pres P F s (snd (get_path n xs s))"
proof (induction n xs s rule: get_path.induct)
  case (1 n s)
  show ?case by simp
next
  case (2 n x s)
  then show ?case by (simp add: pres_get_child)
next
  case (3 n x y ys s)
  obtain c s1 where c: "get_child n x s = (c, s1)" by (cases "get_child n x s")
  have 1: "pres P F s s1" using pres_get_child [OF "3.prems", of s n x] c by simp
  have 2: "pres P F s1 (snd (get_path c (y # ys) s1))" using 3 c by simp
  from pres_trans [OF 1 2] c show ?case by simp
qed

lemma pres_get: "prims_ok P F \<Longrightarrow> pres P F s (snd (get n key s))"
  by (simp add: get_eq_get_path pres_get_path)

lemma cache_child_update:
  "cache_child p this s =
     (if children (nodes s p) (childNameOf (node_id this)) = None
      then update_node p (\<lambda>f. f\<lparr>children :=
             (children (nodes s p))(childNameOf (node_id this) \<mapsto> this)\<rparr>) s
      else s)"
  by (simp add: cache_child_def Let_def update_node_def)

lemma pres_cache_child: "prims_ok P F \<Longrightarrow> pres P F s (cache_child p this s)"
  by (simp add: cache_child_update pres_children)

lemma pres_invoke:
  assumes E: "engine_inv P F"
  shows "F s cb \<Longrightarrow> pres P F s (snd (invoke cb v p t u s))"
proof (induction cb arbitrary: v p t u s)
  case (User k b)
  from E have pr: "prims_ok P F" by (simp add: engine_inv_def)
  let ?s1 = "s\<lparr>log := log s @ [\<lparr>d_callback = k, d_value = v, d_path = p,
                 d_updatedAt = t, d_unsubscribe = u\<rparr>]\<rparr>"
  have 1: "pres P F s ?s1" by (rule pres_log [OF pr User])
  have 2: "pres P F s (call_unsub u ?s1)" by (rule pres_trans [OF 1 pres_call_unsub [OF pr]])
  show ?case using 1 2 by (cases b) (simp_all add: invoke.simps Let_def)
next
  case (OnceCb c cb)
  from E have pr: "prims_ok P F" and cl: "unwraps F" by (simp_all add: engine_inv_def)
  let ?s1 = "s\<lparr>once_cells := (once_cells s)(c := \<lparr>resolved = True, promise = Some v\<rparr>)\<rparr>"
  have 1: "pres P F s ?s1" by (rule pres_once_cells [OF pr])
  show ?case
  proof (cases cb)
    case None
    with pres_trans [OF 1 pres_call_unsub [OF pr, of ?s1 u]] show ?thesis
      by (simp add: invoke.simps Let_def)
  next
    case (Some f)
    show ?thesis
    proof (rule presI)
      assume P: "P s"
      obtain r s2 where i: "invoke f v p t Noop ?s1 = (r, s2)" by (cases "invoke f v p t Noop ?s1")
      have "F s f" using OnceCb.prems Some unwrapsD(1) [OF cl] by simp
      then have "F ?s1 f" by (rule pres_F [OF 1 P])
      then have "pres P F ?s1 (snd (invoke f v p t Noop ?s1))"
        using OnceCb.IH Some by simp
      then have 2: "pres P F s s2" using i pres_trans [OF 1] by simp
      from 2 pres_trans [OF 2 pres_call_unsub [OF pr, of s2 u]] Some i show ?thesis
        by (simp add: invoke.simps Let_def)
    qed
  qed
next
  case (LocalCallback c cb riu r this)
  from E have pr: "prims_ok P F" and cl: "unwraps F" and op: "opens_ok P F"
    by (simp_all add: engine_inv_def)
  show ?case
  proof (rule presI)
    assume P: "P s"
    let ?s1 = "record_latest c v t s"
    let ?s2 = "open_directory c cb r this v ?s1"
    have 1: "pres P F s ?s1" by (rule pres_record_latest [OF pr])
    have P1: "P ?s1" by (rule pres_P [OF 1 P])
    have F1: "F ?s1 (LocalCallback c cb riu r this)" by (rule pres_F [OF 1 P LocalCallback.prems])
    have 2: "pres P F ?s1 ?s2" by (rule pres_open_directory [OF op P1 F1])
    have 12: "pres P F s ?s2" by (rule pres_trans [OF 1 2])
    have "F ?s2 (LocalCallback c cb riu r this)" by (rule pres_F [OF 12 P LocalCallback.prems])
    then have "F ?s2 cb" by (rule unwrapsD(2) [OF cl])
    then have "pres P F ?s2 (snd (invoke cb v p t u ?s2))" by (rule LocalCallback.IH)
    then have 3: "pres P F s (snd (invoke cb v p t u ?s2))" by (rule pres_trans [OF 12])
    have "F s cb" by (rule unwrapsD(2) [OF cl LocalCallback.prems])
    then have 4: "pres P F s (snd (invoke cb v p t u s))" by (rule LocalCallback.IH)
    show "pres P F s (snd (invoke (LocalCallback c cb riu r this) v p t u s))"
      using 12 3 4 by (auto simp: invoke.simps Let_def)
  qed
next
  case (OpenCallback c cb this)
  from E have pr: "prims_ok P F" and cl: "unwraps F" by (simp_all add: engine_inv_def)
  show ?case
  proof (rule presI)
    assume P: "P s"
    let ?s2 = "aggregate c (childNameOf p) v (track_latestTime c t s)"
    have 1: "pres P F s ?s2"
      by (rule pres_trans [OF pres_track_latestTime [OF pr] pres_aggregate [OF pr]])
    have "F ?s2 (OpenCallback c cb this)" by (rule pres_F [OF 1 P OpenCallback.prems])
    then have "F ?s2 cb" by (rule unwrapsD(3) [OF cl])
    then have "pres P F ?s2 (snd (invoke cb (JObj (aggregated (open_cells ?s2 c))) (node_id this)
        (latestTime (open_cells ?s2 c)) Noop ?s2))" by (rule OpenCallback.IH)
    from pres_trans [OF 1 this]
    show "pres P F s (snd (invoke (OpenCallback c cb this) v p t u s))"
      by (simp add: invoke.simps Let_def)
  qed
next
  case (TypedCallback cb)
  from E have cl: "unwraps F" by (simp_all add: engine_inv_def)
  have "F s cb" by (rule unwrapsD(4) [OF cl TypedCallback.prems])
  then have "pres P F s (snd (invoke cb v p t u s))" by (rule TypedCallback.IH)
  then show ?case by (simp add: invoke.simps)
next
  case (MapCb c cb r this i)
  from E have pr: "prims_ok P F" and cl: "unwraps F" and op: "opens_ok P F"
    by (simp_all add: engine_inv_def)
  show ?case
  proof (rule presI)
    assume P: "P s"
    let ?s1 = "record_child c p v t s"
    have 1: "pres P F s ?s1" by (rule pres_record_child [OF pr])
    have P1: "P ?s1" by (rule pres_P [OF 1 P])
    have F1: "F ?s1 (MapCb c cb r this i)" by (rule pres_F [OF 1 P MapCb.prems])
    have 2: "0 < r \<Longrightarrow> pres P F s (open_child c cb r this (childNameOf p) ?s1)"
      by (rule pres_trans [OF 1 pres_open_child [OF op P1 _ F1]])
    have "F ?s1 cb" by (rule unwrapsD(5) [OF cl F1])
    then have "pres P F ?s1 (snd (invoke cb v p t (MapUnsubscribe (MapUnsub this i c r)) ?s1))"
      by (rule MapCb.IH)
    then have 3: "pres P F s (snd (invoke cb v p t (MapUnsubscribe (MapUnsub this i c r)) ?s1))"
      by (rule pres_trans [OF 1])
    show "pres P F s (snd (invoke (MapCb c cb r this i) v p t u s))"
      using 2 3 by (auto simp: invoke.simps Let_def)
  qed
qed

lemma pres_notify_each:
  assumes E: "engine_inv P F"
  shows "\<forall>e\<in>set subs. F s (callback (snd e)) \<Longrightarrow> pres P F s (snd (notify_each this subs v t s))"
proof (induction subs arbitrary: s)
  case Nil
  then show ?case by simp
next
  case (Cons e subs)
  obtain i sub where e: "e = (i, sub)" by (cases e)
  show ?case
  proof (rule presI)
    assume P: "P s"
    obtain r s1 where inv: "invoke (callback sub) v (node_id this) t Noop s = (r, s1)"
      by (cases "invoke (callback sub) v (node_id this) t Noop s")
    have "F s (callback sub)" using Cons.prems e by simp
    from pres_invoke [OF E this, of v "node_id this" t Noop] inv
    have k1: "pres P F s s1" by simp
    have "\<forall>e\<in>set subs. F s1 (callback (snd e))"
      using Cons.prems pres_F [OF k1 P] by simp
    then have "pres P F s1 (snd (notify_each this subs v t s1))" by (rule Cons.IH)
    with k1 have k2: "pres P F s (snd (notify_each this subs v t s1))" by (rule pres_trans)
    have k3: "pres P F s (snd (notify_each this subs v t s))"
      using Cons.IH Cons.prems by simp
    show "pres P F s (snd (notify_each this (e # subs) v t s))"
      using e inv k1 k2 k3 by (cases r) simp_all
  qed
qed

lemma pres_notifyChange:
  assumes E: "engine_inv P F"
  shows "pres P F s (snd (notifyChange this v t s))"
proof (rule presI)
  assume P: "P s"
  from E have tb: "tables_ok P F" by (simp add: engine_inv_def)
  have "\<forall>e\<in>set (on_subscriptions (nodes s this)). F s (callback (snd e))"
    using tables_okD(1) [OF tb P] by blast
  then show "pres P F s (snd (notifyChange this v t s))"
    unfolding notifyChange_def by (rule pres_notify_each [OF E])
qed

lemma pres_map_each:
  assumes E: "engine_inv P F"
  shows "\<forall>e\<in>set subs. F s (callback (snd e)) \<Longrightarrow> pres P F s (snd (map_each this q subs v t s))"
proof (induction subs arbitrary: s)
  case Nil
  then show ?case by simp
next
  case (Cons e subs)
  obtain i sub where e: "e = (i, sub)" by (cases e)
  show ?case
  proof (rule presI)
    assume P: "P s"
    obtain r s1 where inv:
      "invoke (callback sub) v (node_id this) (Some t) (ParentMapDelete q i) s = (r, s1)"
      by (cases "invoke (callback sub) v (node_id this) (Some t) (ParentMapDelete q i) s")
    have "F s (callback sub)" using Cons.prems e by simp
    from pres_invoke [OF E this, of v "node_id this" "Some t" "ParentMapDelete q i"] inv
    have k1: "pres P F s s1" by simp
    have "\<forall>e\<in>set subs. F s1 (callback (snd e))"
      using Cons.prems pres_F [OF k1 P] by simp
    then have "pres P F s1 (snd (map_each this q subs v t s1))" by (rule Cons.IH)
    with k1 have k2: "pres P F s (snd (map_each this q subs v t s1))" by (rule pres_trans)
    have k3: "pres P F s (snd (map_each this q subs v t s))"
      using Cons.IH Cons.prems by simp
    show "pres P F s (snd (map_each this q (e # subs) v t s))"
      using e inv k1 k2 k3 by (cases r) simp_all
  qed
qed

lemma pres_putValue:
  assumes E: "engine_inv P F"
  shows "pres P F s (snd (putValue this v t e s))"
proof -
  from E have pr: "prims_ok P F" by (simp add: engine_inv_def)
  let ?s1 = "(if \<not> isDirectory v then update_node this (\<lambda>f. f\<lparr>children := (\<lambda>k. None)\<rparr>) s else s)"
  let ?s2 = "adapters_set (node_id this) \<lparr>val = v, updatedAt = t, expiresAt = e\<rparr> ?s1"
  have 1: "pres P F s ?s1" by (simp add: pres_children [OF pr])
  have 2: "pres P F ?s1 ?s2" by (rule pres_adapters_set [OF pr])
  have 3: "pres P F ?s2 (snd (notifyChange this v (Some t) ?s2))"
    by (rule pres_notifyChange [OF E])
  obtain r s3 where n: "notifyChange this v (Some t) ?s2 = (r, s3)"
    by (cases "notifyChange this v (Some t) ?s2")
  have "pres P F s (snd (notifyChange this v (Some t) ?s2))"
    by (rule pres_trans [OF pres_trans [OF 1 2] 3])
  with n have "pres P F s s3" by simp
  with n show ?thesis
    by (cases r) (simp_all add: putValue_def Let_def)
qed

lemma pres_put:
  assumes E: "engine_inv P F"
  shows "pres P F s (snd (put this v t e s))"
    and "pres P F s (snd (putChildren this kvs t s))"
proof (induction this v t e s and this kvs t s rule: put_putChildren.induct)
  case (1 this v t e s)
  from E have pr: "prims_ok P F" and tb: "tables_ok P F" by (simp_all add: engine_inv_def)
  obtain r3 s3 where l: "put_local this v t e s = (r3, s3)" by (cases "put_local this v t e s")
  have loc: "pres P F s s3"
  proof (cases "isNonEmptyObject v")
    case True
    let ?s1 = "adapters_set (node_id this) \<lparr>val = DIRECTORY_VALUE, updatedAt = t, expiresAt = e\<rparr> s"
    have a: "pres P F s ?s1" by (rule pres_adapters_set [OF pr])
    have b: "pres P F ?s1 (snd (putChildren this (entries v) t ?s1))"
      by (rule "1.IH"(1) [OF True refl])
    from pres_trans [OF a b] l True show ?thesis
      by (auto simp: put_local_def Let_def split: prod.splits)
  next
    case False
    with l pres_putValue [OF E, of s this v t e] show ?thesis by (simp add: put_local_def)
  qed
  show ?case
  proof (cases r3)
    case Failed
    with l loc show ?thesis by (simp add: put_unfold)
  next
    case Done
    show ?thesis
    proof (cases "parent this")
      case None
      with l loc Done show ?thesis by (simp add: put_unfold)
    next
      case (Some q)
      obtain r4 s4 where p: "put q DIRECTORY_VALUE t None s3 = (r4, s4)"
        by (cases "put q DIRECTORY_VALUE t None s3")
      have "(r3, s3) = (if isNonEmptyObject v
            then let s1 = adapters_set (node_id this)
                           \<lparr>val = DIRECTORY_VALUE, updatedAt = t, expiresAt = e\<rparr> s
                 in case putChildren this (entries v) t s1 of
                    (r, s2) \<Rightarrow> (if set_rejected s2 then Failed else r, s2)
            else putValue this v t e s)"
        using l by (simp add: put_local_def)
      from "1.IH"(2) [OF this Done Some] p have up: "pres P F s3 s4" by simp
      have s4: "pres P F s s4" by (rule pres_trans [OF loc up])
      let ?s5 = "cache_child q this s4"
      have s5: "pres P F s ?s5" by (rule pres_trans [OF s4 pres_cache_child [OF pr]])
      have "pres P F ?s5 (snd (map_each this q (map_subscriptions (nodes ?s5 q)) v t ?s5))"
      proof (rule presI)
        assume "P ?s5"
        then have "\<forall>e\<in>set (map_subscriptions (nodes ?s5 q)). F ?s5 (callback (snd e))"
          using tables_okD(2) [OF tb] by blast
        then show "pres P F ?s5 (snd (map_each this q (map_subscriptions (nodes ?s5 q)) v t ?s5))"
          by (rule pres_map_each [OF E])
      qed
      from pres_trans [OF s5 this] s4 l Done Some p show ?thesis
        by (cases r4) (simp_all add: put_unfold Let_def)
    qed
  qed
next
  case (2 this t s)
  show ?case by simp
next
  case (3 this key v rest t s)
  from E have pr: "prims_ok P F" by (simp_all add: engine_inv_def)
  obtain child s1 where g: "get this key s = (child, s1)" by (cases "get this key s")
  obtain r s2 where p: "put child v t None s1 = (r, s2)" by (cases "put child v t None s1")
  obtain r' s3 where c: "putChildren this rest t s2 = (r', s3)" by (cases "putChildren this rest t s2")
  have 1: "pres P F s s1" using pres_get [OF pr, of s this key] g by simp
  have 2: "pres P F s1 s2" using "3.IH"(1) [OF g [symmetric]] p by simp
  have 3: "pres P F s2 s3" using "3.IH"(2) [OF g [symmetric] p [symmetric]] c by simp
  from pres_trans [OF pres_trans [OF 1 2] 3] g p c show ?case by simp
qed

lemma pres_adapter_notify:
  assumes E: "engine_inv P F"
  shows "pres P F s (snd (adapter_notify k v path t unsub s))"
proof (cases "map_of (adapter_subs s) k")
  case None
  then show ?thesis by (simp add: adapter_notify_def)
next
  case (Some sub)
  show ?thesis
  proof (rule presI)
    assume P: "P s"
    from E have tb: "tables_ok P F" by (simp add: engine_inv_def)
    have "(k, sub) \<in> set (adapter_subs s)" using Some by (rule map_of_SomeD)
    from tables_okD(3) [OF tb P this] have "F s (as_callback sub)" by simp
    from pres_invoke [OF E this] Some
    show "pres P F s (snd (adapter_notify k v path t unsub s))"
      by (simp add: adapter_notify_def)
  qed
qed


section \<open>What the steps do to the tables\<close>

text \<open>The cells hold the same unsubscribe functions and registrations.\<close>

definition same_cells :: "state \<Rightarrow> state \<Rightarrow> bool" where
  "same_cells s s' \<longleftrightarrow> next_cell s' = next_cell s \<and>
     (\<forall>c. openUnsubscribe (on_cells s' c) = openUnsubscribe (on_cells s c)) \<and>
     (\<forall>c. openUnsubs (map_cells s' c) = openUnsubs (map_cells s c) \<and>
          adapterSubs (map_cells s' c) = adapterSubs (map_cells s c))"

text \<open>No table gets an entry.\<close>

definition tables_shrink :: "state \<Rightarrow> state \<Rightarrow> bool" where
  "tables_shrink s s' \<longleftrightarrow> same_cells s s' \<and>
     (\<forall>n. set (on_subscriptions (nodes s' n)) \<subseteq> set (on_subscriptions (nodes s n))) \<and>
     (\<forall>n. set (map_subscriptions (nodes s' n)) \<subseteq> set (map_subscriptions (nodes s n))) \<and>
     set (adapter_subs s') \<subseteq> set (adapter_subs s)"

definition shrinks :: "state \<Rightarrow> state \<Rightarrow> bool" where
  "shrinks s s' \<longleftrightarrow> tables_shrink s s' \<and> log s' = log s"

lemma shrinks_del: "shrinks s (del A B C s)"
  by (auto simp: shrinks_def tables_shrink_def same_cells_def del_def)

lemma shrinks_call_unsub: "shrinks s (call_unsub un s)"
  by (simp add: call_unsub_del shrinks_del)

lemma shrinks_once_cells: "shrinks s (s\<lparr>once_cells := x\<rparr>)"
  by (simp add: shrinks_def tables_shrink_def same_cells_def)

lemma shrinks_record_latest: "shrinks s (record_latest c v t s)"
  by (simp add: shrinks_def tables_shrink_def same_cells_def record_latest_def split: option.splits)

lemma shrinks_track_latestTime: "shrinks s (track_latestTime c t s)"
  by (simp add: shrinks_def tables_shrink_def same_cells_def track_latestTime_def
      split: option.splits)

lemma shrinks_aggregate: "shrinks s (aggregate c k v s)"
  by (simp add: shrinks_def tables_shrink_def same_cells_def aggregate_def)

lemma shrinks_record_child: "shrinks s (record_child c p v t s)"
  by (simp add: shrinks_def tables_shrink_def same_cells_def record_child_def split: option.splits)

lemma shrinks_get_child: "shrinks s (snd (get_child n x s))"
  by (simp add: shrinks_def tables_shrink_def same_cells_def get_child_def Let_def new_fields_def
      split: option.splits)

lemma shrinks_adapters_set: "shrinks s (adapters_set path nv s)"
  by (simp add: shrinks_def tables_shrink_def same_cells_def adapters_set_def)

lemma shrinks_children: "shrinks s (update_node n (\<lambda>f. f\<lparr>children := ch\<rparr>) s)"
  by (simp add: shrinks_def tables_shrink_def same_cells_def update_node_def)

lemma tables_shrink_log: "tables_shrink s (s\<lparr>log := l\<rparr>)"
  by (simp add: tables_shrink_def same_cells_def)

text \<open>
  A step on which \<open>P\<close> depends only through the tables and the log carries \<open>P\<close>, when
  \<open>F\<close> does not change either.
\<close>

lemma prims_okI:
  assumes sh: "\<And>s s'. shrinks s s' \<Longrightarrow> pres P F s s'"
    and lg: "\<And>s k b v p t un. F s (User k b) \<Longrightarrow>
        pres P F s (s\<lparr>log := log s @ [\<lparr>d_callback = k, d_value = v, d_path = p,
          d_updatedAt = t, d_unsubscribe = un\<rparr>]\<rparr>)"
  shows "prims_ok P F"
  unfolding prims_ok_def
  by (intro conjI allI impI lg sh shrinks_call_unsub shrinks_once_cells shrinks_record_latest
      shrinks_track_latestTime shrinks_aggregate shrinks_record_child shrinks_get_child
      shrinks_adapters_set shrinks_children)

lemma visit_cong:
  assumes "\<And>c. openUnsubs (mc' c) = openUnsubs (mc c)"
  shows "visit d m mc' = visit d m mc"
proof (induction d arbitrary: m)
  case 0
  show ?case by (simp add: visit.simps)
next
  case (Suc d)
  show ?case by (simp add: visit.simps [of "Suc d"] assms Suc)
qed

text \<open>
  What \<open>map\<close> adds: one entry in \<open>map_subscriptions\<close> of its node, a cell, and the
  registrations of \<open>cb\<close> with the adapters.
\<close>

definition adds_map :: "MapUnsub \<Rightarrow> Callback \<Rightarrow> state \<Rightarrow> state \<Rightarrow> bool" where
  "adds_map m cb s s' \<longleftrightarrow>
     next_cell s \<le> mu_cell m \<and> mu_cell m < next_cell s' \<and>
     on_cells s' = on_cells s \<and> log s' = log s \<and>
     (\<forall>c. c \<noteq> mu_cell m \<longrightarrow> map_cells s' c = map_cells s c) \<and>
     openUnsubs (map_cells s' (mu_cell m)) = [] \<and>
     (\<forall>n. on_subscriptions (nodes s' n) = on_subscriptions (nodes s n)) \<and>
     (\<forall>n e. e \<in> set (map_subscriptions (nodes s' n)) \<longrightarrow>
        e \<in> set (map_subscriptions (nodes s n)) \<or>
        (n = mu_node m \<and> fst e = mu_id m \<and> callback (snd e) = TypedCallback cb)) \<and>
     (\<forall>a\<in>set (adapter_subs s'). a \<in> set (adapter_subs s) \<or>
        (fst a \<in> set (adapterSubs (map_cells s' (mu_cell m))) \<and>
         as_callback (snd a) = MapCb (mu_cell m) cb (mu_recursion m) (mu_node m) (mu_id m)))"

lemma map_sub_adds:
  assumes "map_sub this cb r s = (m, s')"
  shows "adds_map m cb s s'" and "mu_node m = this" and "mu_recursion m = r"
    and "mu_cell m = next_cell s"
proof -
  from assms show "mu_node m = this" "mu_recursion m = r" "mu_cell m = next_cell s"
    by (auto simp: map_sub_def Let_def adapter_register_def)
  from assms have m: "m = MapUnsub this (counter (nodes s this)) (next_cell s) r"
    by (auto simp: map_sub_def Let_def adapter_register_def)
  from assms have s': "s' = snd (map_sub this cb r s)" by simp
  have 1: "next_cell s' = Suc (next_cell s)" "on_cells s' = on_cells s" "log s' = log s"
    by (simp_all add: s' map_sub_def Let_def adapter_register_def update_node_def)
  have 2: "\<forall>c. c \<noteq> next_cell s \<longrightarrow> map_cells s' c = map_cells s c"
    "openUnsubs (map_cells s' (next_cell s)) = []"
    "adapterSubs (map_cells s' (next_cell s)) = map (\<lambda>a. next_sub s + a) [0..<adapters s]"
    by (simp_all add: s' map_sub_def Let_def adapter_register_def update_node_def)
  have 3: "\<forall>n. on_subscriptions (nodes s' n) = on_subscriptions (nodes s n)"
    by (simp add: s' map_sub_def Let_def adapter_register_def update_node_def)
  have 4: "\<forall>n. map_subscriptions (nodes s' n) =
      (if n = this then map_set (counter (nodes s this))
            \<lparr>callback = TypedCallback cb, recursion = r\<rparr> (map_subscriptions (nodes s this))
       else map_subscriptions (nodes s n))"
    by (simp add: s' map_sub_def Let_def adapter_register_def update_node_def)
  have 5: "adapter_subs s' = adapter_subs s @
      map (\<lambda>a. (next_sub s + a, \<lparr>as_adapter = a, as_call = AdapterList, as_path = node_id this,
         as_callback = MapCb (next_cell s) cb r this (counter (nodes s this))\<rparr>)) [0..<adapters s]"
    by (simp add: s' map_sub_def Let_def adapter_register_def update_node_def)
  have 6: "\<forall>n e. e \<in> set (map_subscriptions (nodes s' n)) \<longrightarrow>
        e \<in> set (map_subscriptions (nodes s n)) \<or>
        (n = this \<and> fst e = counter (nodes s this) \<and> callback (snd e) = TypedCallback cb)"
    using set_map_set [of "counter (nodes s this)" "\<lparr>callback = TypedCallback cb, recursion = r\<rparr>"
        "map_subscriptions (nodes s this)"]
    by (auto simp: 4)
  have 7: "\<forall>a\<in>set (adapter_subs s'). a \<in> set (adapter_subs s) \<or>
        (fst a \<in> set (adapterSubs (map_cells s' (next_cell s))) \<and>
         as_callback (snd a) = MapCb (next_cell s) cb r this (counter (nodes s this)))"
    by (auto simp: 5 2)
  show "adds_map m cb s s'"
    unfolding adds_map_def using 1 2 3 6 7 by (simp add: m)
qed

lemma open_sub_adds:
  assumes "open_sub this cb r s = (m, s')"
  shows "adds_map m (OpenCallback (next_cell s) cb this) s s'"
    and "mu_node m = this" and "mu_recursion m = r"
proof -
  let ?s1 = "s\<lparr>next_cell := Suc (next_cell s),
       open_cells := (open_cells s)(next_cell s := \<lparr>aggregated = [], latestTime = None\<rparr>)\<rparr>"
  from assms have ms: "map_sub this (OpenCallback (next_cell s) cb this) r ?s1 = (m, s')"
    by (simp add: open_sub_def Let_def)
  from map_sub_adds(2,3) [OF ms] show "mu_node m = this" "mu_recursion m = r" .
  from map_sub_adds(1) [OF ms] map_sub_adds(4) [OF ms]
  show "adds_map m (OpenCallback (next_cell s) cb this) s s'"
    by (simp add: adds_map_def)
qed

text \<open>What \<open>on\<close> adds.\<close>

definition adds_on :: "node \<Rightarrow> nat \<Rightarrow> nat \<Rightarrow> nat list \<Rightarrow> Callback \<Rightarrow> state \<Rightarrow> state \<Rightarrow> bool" where
  "adds_on this i c ks cb s s' \<longleftrightarrow>
     next_cell s \<le> c \<and> c < next_cell s' \<and>
     map_cells s' = map_cells s \<and> log s' = log s \<and>
     (\<forall>c'. c' \<noteq> c \<longrightarrow> on_cells s' c' = on_cells s c') \<and>
     openUnsubscribe (on_cells s' c) = None \<and>
     (\<forall>n. map_subscriptions (nodes s' n) = map_subscriptions (nodes s n)) \<and>
     (\<forall>n e. e \<in> set (on_subscriptions (nodes s' n)) \<longrightarrow>
        e \<in> set (on_subscriptions (nodes s n)) \<or>
        (n = this \<and> fst e = i \<and> callback (snd e) = cb)) \<and>
     (\<forall>a\<in>set (adapter_subs s'). a \<in> set (adapter_subs s) \<or>
        (fst a \<in> set ks \<and> as_callback (snd a) = cb))"

lemma on_sub_adds:
  assumes "on_sub this cb riu r s = (un, s')"
  shows "\<exists>i ks. un = UnsubscribeAll this i (next_cell s) ks \<and>
     adds_on this i (next_cell s) ks (LocalCallback (next_cell s) cb riu r this) s s'"
proof -
  let ?i = "counter (nodes s this)"
  let ?ks = "map (\<lambda>a. next_sub s + a) [0..<adapters s]"
  let ?cb = "LocalCallback (next_cell s) cb riu r this"
  from assms have un: "un = UnsubscribeAll this ?i (next_cell s) ?ks"
    by (auto simp: on_sub_def Let_def adapter_register_def update_node_def)
  from assms have s': "s' = snd (on_sub this cb riu r s)" by simp
  have 1: "next_cell s' = Suc (next_cell s)" "map_cells s' = map_cells s" "log s' = log s"
    by (simp_all add: s' on_sub_def Let_def adapter_register_def update_node_def)
  have 2: "\<forall>c'. c' \<noteq> next_cell s \<longrightarrow> on_cells s' c' = on_cells s c'"
    "openUnsubscribe (on_cells s' (next_cell s)) = None"
    by (simp_all add: s' on_sub_def Let_def adapter_register_def update_node_def)
  have 3: "\<forall>n. map_subscriptions (nodes s' n) = map_subscriptions (nodes s n)"
    by (simp add: s' on_sub_def Let_def adapter_register_def update_node_def)
  have 4: "\<forall>n. on_subscriptions (nodes s' n) =
      (if n = this then map_set ?i \<lparr>callback = ?cb, recursion = r\<rparr> (on_subscriptions (nodes s this))
       else on_subscriptions (nodes s n))"
    by (simp add: s' on_sub_def Let_def adapter_register_def update_node_def)
  have 5: "adapter_subs s' = adapter_subs s @
      map (\<lambda>a. (next_sub s + a, \<lparr>as_adapter = a, as_call = AdapterGet, as_path = node_id this,
         as_callback = ?cb\<rparr>)) [0..<adapters s]"
    by (simp add: s' on_sub_def Let_def adapter_register_def update_node_def)
  have 6: "\<forall>n e. e \<in> set (on_subscriptions (nodes s' n)) \<longrightarrow>
        e \<in> set (on_subscriptions (nodes s n)) \<or>
        (n = this \<and> fst e = ?i \<and> callback (snd e) = ?cb)"
    using set_map_set [of ?i "\<lparr>callback = ?cb, recursion = r\<rparr>" "on_subscriptions (nodes s this)"]
    by (auto simp: 4)
  have 7: "\<forall>a\<in>set (adapter_subs s'). a \<in> set (adapter_subs s) \<or>
        (fst a \<in> set ?ks \<and> as_callback (snd a) = ?cb)"
    by (auto simp: 5)
  have "adds_on this ?i (next_cell s) ?ks ?cb s s'"
    unfolding adds_on_def using 1 2 3 6 7 by simp
  with un show ?thesis by blast
qed


lemma open_directory_cases:
  obtains (same) "open_directory c cb r n v s = s"
  | (opened) m s' where "open_sub n cb (r - 1) s = (m, s')"
      "openUnsubscribe (on_cells s c) = None" "0 < r"
      "open_directory c cb r n v s =
         s'\<lparr>on_cells := (on_cells s')(c := (on_cells s' c)\<lparr>openUnsubscribe := Some m\<rparr>)\<rparr>"
proof (cases "isDirectory v \<and> r > 0 \<and> openUnsubscribe (on_cells s c) = None")
  case False
  then have "open_directory c cb r n v s = s" by (auto simp: open_directory_def)
  then show ?thesis by (rule same)
next
  case True
  obtain m s' where o: "open_sub n cb (r - 1) s = (m, s')" by (cases "open_sub n cb (r - 1) s")
  show ?thesis
    by (rule opened [OF o]) (use True o in \<open>simp_all add: open_directory_def\<close>)
qed

lemma open_child_cases:
  obtains (same) "open_child c cb r n k s = s"
  | (opened) child s1 m s2 where "get n k s = (child, s1)"
      "open_sub child cb (r - 1) s1 = (m, s2)"
      "map_of (openUnsubs (map_cells s c)) k = None"
      "open_child c cb r n k s =
         s2\<lparr>map_cells := (map_cells s2)(c := (map_cells s2 c)
            \<lparr>openUnsubs := map_set k m (openUnsubs (map_cells s2 c))\<rparr>)\<rparr>"
proof (cases "map_of (openUnsubs (map_cells s c)) k = None")
  case False
  then have "open_child c cb r n k s = s" by (auto simp: open_child_def)
  then show ?thesis by (rule same)
next
  case True
  obtain child s1 where g: "get n k s = (child, s1)" by (cases "get n k s")
  obtain m s2 where o: "open_sub child cb (r - 1) s1 = (m, s2)"
    by (cases "open_sub child cb (r - 1) s1")
  show ?thesis
    by (rule opened [OF g o True]) (use True g o in \<open>simp add: open_child_def\<close>)
qed

section \<open>The callbacks of one caller\<close>

text \<open>The caller's callback \<open>u\<close> is what the closure ends up calling.\<close>

fun mentions :: "nat \<Rightarrow> Callback \<Rightarrow> bool" where
  "mentions u (User k b) = (k = u)"
| "mentions u (OnceCb c None) = False"
| "mentions u (OnceCb c (Some f)) = mentions u f"
| "mentions u (LocalCallback c cb riu r this) = mentions u cb"
| "mentions u (OpenCallback c cb this) = mentions u cb"
| "mentions u (TypedCallback cb) = mentions u cb"
| "mentions u (MapCb c cb r this i) = mentions u cb"

text \<open>The invocations of \<open>u\<close> so far.\<close>

definition heard :: "nat \<Rightarrow> state \<Rightarrow> Delivery list" where
  "heard u s = filter (\<lambda>d. d_callback d = u) (log s)"

text \<open>No table of a node and no adapter holds a closure that calls \<open>u\<close>.\<close>

definition ufree :: "nat \<Rightarrow> state \<Rightarrow> bool" where
  "ufree u s \<longleftrightarrow>
     (\<forall>n. \<forall>e\<in>set (on_subscriptions (nodes s n)). \<not> mentions u (callback (snd e))) \<and>
     (\<forall>n. \<forall>e\<in>set (map_subscriptions (nodes s n)). \<not> mentions u (callback (snd e))) \<and>
     (\<forall>a\<in>set (adapter_subs s). \<not> mentions u (as_callback (snd a)))"

lemma ufree_shrink: "tables_shrink s s' \<Longrightarrow> ufree u s \<Longrightarrow> ufree u s'"
  unfolding tables_shrink_def ufree_def by blast

lemma ufree_adds_map:
  assumes "adds_map m cb s s'" "\<not> mentions u cb" "ufree u s"
  shows "ufree u s'"
  using assms unfolding adds_map_def ufree_def by (auto; fastforce)

lemma ufree_adds_on:
  assumes "adds_on this i c ks cb s s'" "\<not> mentions u cb" "ufree u s"
  shows "ufree u s'"
  using assms unfolding adds_on_def ufree_def by (auto; fastforce)

lemma ufree_cells [simp]:
  "ufree u (s\<lparr>on_cells := x\<rparr>) = ufree u s" "ufree u (s\<lparr>map_cells := y\<rparr>) = ufree u s"
  "ufree u (s\<lparr>log := l\<rparr>) = ufree u s"
  "ufree u (s\<lparr>next_cell := k, open_cells := z\<rparr>) = ufree u s"
  "ufree u (s\<lparr>next_cell := k, once_cells := w\<rparr>) = ufree u s"
  by (simp_all add: ufree_def)

lemma heard_cells [simp]:
  "heard u (s\<lparr>on_cells := x\<rparr>) = heard u s" "heard u (s\<lparr>map_cells := y\<rparr>) = heard u s"
  "heard u (s\<lparr>next_cell := k, once_cells := w\<rparr>) = heard u s"
  by (simp_all add: heard_def)

text \<open>Once nothing holds \<open>u\<close>, nothing calls it.\<close>

definition mute :: "nat \<Rightarrow> Delivery list \<Rightarrow> state \<Rightarrow> bool" where
  "mute u H s \<longleftrightarrow> ufree u s \<and> heard u s = H"

definition other :: "nat \<Rightarrow> state \<Rightarrow> Callback \<Rightarrow> bool" where
  "other u s cb \<longleftrightarrow> \<not> mentions u cb"

lemma pres_mute_shrinks: "shrinks s s' \<Longrightarrow> pres (mute u H) (other u) s s'"
  by (auto simp: pres_def mute_def other_def shrinks_def heard_def intro: ufree_shrink)

lemma pres_mute_adds_map:
  assumes "adds_map m cb s s'" "\<not> mentions u cb"
  shows "pres (mute u H) (other u) s s'"
  using assms ufree_adds_map [OF assms]
  by (auto simp: pres_def mute_def other_def heard_def adds_map_def)

lemma pres_mute_adds_on:
  assumes "adds_on this i c ks cb s s'" "\<not> mentions u cb"
  shows "pres (mute u H) (other u) s s'"
  using assms ufree_adds_on [OF assms]
  by (auto simp: pres_def mute_def other_def heard_def adds_on_def)

lemma pres_mute_cells:
  "pres (mute u H) (other u) s (s\<lparr>on_cells := x\<rparr>)"
  "pres (mute u H) (other u) s (s\<lparr>map_cells := y\<rparr>)"
  by (simp_all add: pres_def mute_def other_def)

lemma prims_mute: "prims_ok (mute u H) (other u)"
proof (rule prims_okI)
  fix s s' :: state
  assume "shrinks s s'"
  then show "pres (mute u H) (other u) s s'" by (rule pres_mute_shrinks)
next
  fix s k b v p t un
  assume "other u s (User k b)"
  then show "pres (mute u H) (other u) s (s\<lparr>log := log s @ [\<lparr>d_callback = k, d_value = v,
      d_path = p, d_updatedAt = t, d_unsubscribe = un\<rparr>]\<rparr>)"
    by (simp add: pres_def mute_def other_def heard_def)
qed

lemma opens_mute: "opens_ok (mute u H) (other u)"
  unfolding opens_ok_def
proof (intro conjI allI impI)
  fix s c cb riu r n v
  assume F: "other u s (LocalCallback c cb riu r n)"
  show "pres (mute u H) (other u) s (open_directory c cb r n v s)"
  proof (cases c cb r n v s rule: open_directory_cases)
    case same
    then show ?thesis by simp
  next
    case (opened m s')
    have "pres (mute u H) (other u) s s'"
      by (rule pres_mute_adds_map [OF open_sub_adds(1) [OF opened(1)]])
        (use F in \<open>simp add: other_def\<close>)
    from pres_trans [OF this pres_mute_cells(1)] opened(4) show ?thesis by simp
  qed
next
  fix s c cb r n i k
  assume F: "other u s (MapCb c cb r n i)"
  show "pres (mute u H) (other u) s (open_child c cb r n k s)"
  proof (cases c cb r n k s rule: open_child_cases)
    case same
    then show ?thesis by simp
  next
    case (opened child s1 m s2)
    have 1: "pres (mute u H) (other u) s s1"
      using pres_get [OF prims_mute, of u H s n k] opened(1) by simp
    have 2: "pres (mute u H) (other u) s1 s2"
      by (rule pres_mute_adds_map [OF open_sub_adds(1) [OF opened(2)]])
        (use F in \<open>simp add: other_def\<close>)
    from pres_trans [OF pres_trans [OF 1 2] pres_mute_cells(2)] opened(4) show ?thesis by simp
  qed
qed

lemma engine_mute: "engine_inv (mute u H) (other u)"
  unfolding engine_inv_def
proof (intro conjI)
  show "prims_ok (mute u H) (other u)" by (rule prims_mute)
  show "opens_ok (mute u H) (other u)" by (rule opens_mute)
  show "unwraps (other u)" by (simp add: unwraps_def other_def)
  show "tables_ok (mute u H) (other u)"
    by (simp add: tables_ok_def mute_def other_def ufree_def)
qed


section \<open>What an unsubscribe function reaches\<close>

text \<open>
  The unsubscribe functions held in the cells belong to subscriptions whose own cells are
  in use.
\<close>

definition cells_allocated :: "state \<Rightarrow> bool" where
  "cells_allocated s \<longleftrightarrow>
     (\<forall>c. \<forall>e\<in>set (openUnsubs (map_cells s c)). mu_cell (snd e) < next_cell s) \<and>
     (\<forall>c m. openUnsubscribe (on_cells s c) = Some m \<longrightarrow> mu_cell m < next_cell s)"

text \<open>The cells in use keep what they hold, and may hold more.\<close>

definition cells_grow :: "state \<Rightarrow> state \<Rightarrow> bool" where
  "cells_grow s s' \<longleftrightarrow> next_cell s \<le> next_cell s' \<and>
     (\<forall>c<next_cell s. set (openUnsubs (map_cells s c)) \<subseteq> set (openUnsubs (map_cells s' c)) \<and>
        adapterSubs (map_cells s' c) = adapterSubs (map_cells s c)) \<and>
     (\<forall>c<next_cell s. \<forall>m. openUnsubscribe (on_cells s c) = Some m \<longrightarrow>
        openUnsubscribe (on_cells s' c) = Some m)"

lemma same_cells_grow: "same_cells s s' \<Longrightarrow> cells_grow s s'"
  by (simp add: same_cells_def cells_grow_def)

lemma same_cells_allocated: "same_cells s s' \<Longrightarrow> cells_allocated s \<Longrightarrow> cells_allocated s'"
  by (simp add: same_cells_def cells_allocated_def)

lemma visit_head: "(m, d) \<in> set (visit d m mc)"
  by (simp add: visit.simps [of d])

lemma visit_Suc:
  "set (visit (Suc d) m mc) =
     insert (m, Suc d) (\<Union>e\<in>set (openUnsubs (mc (mu_cell m))). set (visit d (snd e) mc))"
  by (simp add: visit.simps [of "Suc d"])

lemma visit_0: "set (visit 0 m mc) = {(m, 0)}"
  by (simp add: visit.simps [of 0])

lemma visit_cells:
  assumes G: "\<forall>c. \<forall>e\<in>set (openUnsubs (mc c)). mu_cell (snd e) < N"
  shows "mu_cell m < N \<Longrightarrow> \<forall>x\<in>set (visit d m mc). mu_cell (fst x) < N"
proof (induction d arbitrary: m)
  case 0
  then show ?case by (simp add: visit_0)
next
  case (Suc d)
  show ?case
  proof
    fix x assume "x \<in> set (visit (Suc d) m mc)"
    then consider "x = (m, Suc d)"
      | e where "e \<in> set (openUnsubs (mc (mu_cell m)))" "x \<in> set (visit d (snd e) mc)"
      by (auto simp: visit_Suc)
    then show "mu_cell (fst x) < N"
    proof cases
      case 1
      with Suc.prems show ?thesis by simp
    next
      case 2
      from G 2(1) have "mu_cell (snd e) < N" by blast
      from Suc.IH [OF this] 2(2) show ?thesis by blast
    qed
  qed
qed

lemma visit_mono:
  assumes G: "\<forall>c. \<forall>e\<in>set (openUnsubs (mc c)). mu_cell (snd e) < N"
    and grow: "\<forall>c<N. set (openUnsubs (mc c)) \<subseteq> set (openUnsubs (mc' c))"
  shows "mu_cell m < N \<Longrightarrow> set (visit d m mc) \<subseteq> set (visit d m mc')"
proof (induction d arbitrary: m)
  case 0
  show ?case by (simp add: visit_0)
next
  case (Suc d)
  show ?case
  proof
    fix x assume "x \<in> set (visit (Suc d) m mc)"
    then consider "x = (m, Suc d)"
      | e where "e \<in> set (openUnsubs (mc (mu_cell m)))" "x \<in> set (visit d (snd e) mc)"
      by (auto simp: visit_Suc)
    then show "x \<in> set (visit (Suc d) m mc')"
    proof cases
      case 1
      then show ?thesis by (simp add: visit_Suc)
    next
      case 2
      from G 2(1) have "mu_cell (snd e) < N" by blast
      from Suc.IH [OF this] 2(2) have x: "x \<in> set (visit d (snd e) mc')" by blast
      from grow Suc.prems 2(1) have "e \<in> set (openUnsubs (mc' (mu_cell m)))" by blast
      with x show ?thesis unfolding visit_Suc by blast
    qed
  qed
qed

lemma visit_child:
  "(m, Suc d) \<in> set (visit k x mc) \<Longrightarrow> e \<in> set (openUnsubs (mc (mu_cell m))) \<Longrightarrow>
   (snd e, d) \<in> set (visit k x mc)"
proof (induction k arbitrary: x)
  case 0
  then show ?case by (simp add: visit_0)
next
  case (Suc k)
  from Suc.prems(1) consider "(m, Suc d) = (x, Suc k)"
    | e' where "e' \<in> set (openUnsubs (mc (mu_cell x)))" "(m, Suc d) \<in> set (visit k (snd e') mc)"
    by (auto simp: visit_Suc)
  then show ?case
  proof cases
    case 1
    then have "e \<in> set (openUnsubs (mc (mu_cell x)))" "d = k" using Suc.prems(2) by simp_all
    moreover have "(snd e, k) \<in> set (visit k (snd e) mc)" by (rule visit_head)
    ultimately show ?thesis unfolding visit_Suc by blast
  next
    case 2
    from Suc.IH [OF 2(2) Suc.prems(2)] 2(1) show ?thesis unfolding visit_Suc by blast
  qed
qed

text \<open>The cell an unsubscribe function reads is in use.\<close>

fun cell_allocated :: "Unsubscribe \<Rightarrow> state \<Rightarrow> bool" where
  "cell_allocated (UnsubscribeAll n i c ks) s = (c < next_cell s)"
| "cell_allocated (MapUnsubscribe m) s = (mu_cell m < next_cell s)"
| "cell_allocated _ s = True"

lemma cell_allocated_mono: "cell_allocated U s \<Longrightarrow> next_cell s \<le> next_cell s' \<Longrightarrow> cell_allocated U s'"
  by (cases U) simp_all

lemma unsub_visit_cells:
  assumes "cells_allocated s" "cell_allocated U s"
  shows "\<forall>x\<in>set (unsub_visit U s). mu_cell (fst x) < next_cell s"
proof -
  have G: "\<forall>c. \<forall>e\<in>set (openUnsubs (map_cells s c)). mu_cell (snd e) < next_cell s"
    using assms(1) by (simp add: cells_allocated_def)
  show ?thesis
  proof (cases U)
    case (MapUnsubscribe m)
    with visit_cells [OF G, of m] assms(2) show ?thesis by simp
  next
    case (UnsubscribeAll n i c ks)
    show ?thesis
    proof (cases "openUnsubscribe (on_cells s c)")
      case None
      with UnsubscribeAll show ?thesis by simp
    next
      case (Some m)
      with assms(1) have "mu_cell m < next_cell s" by (simp add: cells_allocated_def)
      with visit_cells [OF G, of m] UnsubscribeAll Some show ?thesis by simp
    qed
  qed simp_all
qed

lemma unsub_visit_mono:
  assumes "cells_allocated s" "cell_allocated U s" "cells_grow s s'"
  shows "set (unsub_visit U s) \<subseteq> set (unsub_visit U s')"
proof -
  have G: "\<forall>c. \<forall>e\<in>set (openUnsubs (map_cells s c)). mu_cell (snd e) < next_cell s"
    using assms(1) by (simp add: cells_allocated_def)
  have grow: "\<forall>c<next_cell s. set (openUnsubs (map_cells s c)) \<subseteq> set (openUnsubs (map_cells s' c))"
    using assms(3) by (simp add: cells_grow_def)
  show ?thesis
  proof (cases U)
    case (MapUnsubscribe m)
    with visit_mono [OF G grow, of m] assms(2) show ?thesis by simp
  next
    case (UnsubscribeAll n i c ks)
    show ?thesis
    proof (cases "openUnsubscribe (on_cells s c)")
      case None
      with UnsubscribeAll show ?thesis by simp
    next
      case (Some m)
      with assms(1) have m: "mu_cell m < next_cell s" by (simp add: cells_allocated_def)
      from assms(2,3) Some UnsubscribeAll have "openUnsubscribe (on_cells s' c) = Some m"
        by (simp add: cells_grow_def)
      with visit_mono [OF G grow m] UnsubscribeAll Some show ?thesis by simp
    qed
  qed simp_all
qed

lemma unsub_map_mono:
  assumes "cells_allocated s" "cell_allocated U s" "cells_grow s s'"
  shows "unsub_map U s \<subseteq> unsub_map U s'"
proof -
  have "visit_keys (unsub_visit U s) \<subseteq> visit_keys (unsub_visit U s')"
    using unsub_visit_mono [OF assms] unfolding visit_keys_def by blast
  then show ?thesis by (cases U) simp_all
qed

lemma unsub_regs_mono:
  assumes "cells_allocated s" "cell_allocated U s" "cells_grow s s'"
  shows "unsub_regs U s \<subseteq> unsub_regs U s'"
proof -
  have "visit_regs (unsub_visit U s) (map_cells s) \<subseteq> visit_regs (unsub_visit U s') (map_cells s')"
  proof
    fix k assume "k \<in> visit_regs (unsub_visit U s) (map_cells s)"
    then obtain x where x: "x \<in> set (unsub_visit U s)"
      "k \<in> set (adapterSubs (map_cells s (mu_cell (fst x))))"
      by (auto simp: visit_regs_def)
    from unsub_visit_cells [OF assms(1,2)] x(1) have "mu_cell (fst x) < next_cell s" by blast
    with assms(3) have "adapterSubs (map_cells s' (mu_cell (fst x))) =
        adapterSubs (map_cells s (mu_cell (fst x)))" by (simp add: cells_grow_def)
    with x(2) have "k \<in> set (adapterSubs (map_cells s' (mu_cell (fst x))))" by simp
    moreover from unsub_visit_mono [OF assms] x(1) have "x \<in> set (unsub_visit U s')" by blast
    ultimately show "k \<in> visit_regs (unsub_visit U s') (map_cells s')"
      by (auto simp: visit_regs_def)
  qed
  then show ?thesis by (cases U) auto
qed

section \<open>A subscription and its unsubscribe function\<close>

text \<open>A callback that registers nothing when it runs.\<close>

fun inert :: "Callback \<Rightarrow> bool" where
  "inert (User k b) = True"
| "inert (OnceCb c None) = True"
| "inert (OnceCb c (Some f)) = inert f"
| "inert (LocalCallback c cb riu r this) = False"
| "inert (OpenCallback c cb this) = inert cb"
| "inert (TypedCallback cb) = inert cb"
| "inert (MapCb c cb r this i) = False"

fun on_cell_of :: "Unsubscribe \<Rightarrow> nat option" where
  "on_cell_of (UnsubscribeAll n i c ks) = Some c"
| "on_cell_of _ = None"

text \<open>
  A closure that calls \<open>u\<close> records what it opens where the unsubscribe function \<open>U\<close>
  finds it: \<open>localCallback\<close> in the cell of \<open>U\<close>, and \<open>cb\<close> of \<open>map\<close> in a cell that \<open>U\<close>
  reaches with all the levels of that \<open>map\<close> left.
\<close>

fun fine :: "Unsubscribe \<Rightarrow> nat \<Rightarrow> state \<Rightarrow> Callback \<Rightarrow> bool" where
  "fine U u s (LocalCallback c cb riu r this) =
     (mentions u cb \<longrightarrow> inert cb \<and> on_cell_of U = Some c)"
| "fine U u s (MapCb c cb r this i) =
     (mentions u cb \<longrightarrow> inert cb \<and> (MapUnsub this i c r, nat r) \<in> set (unsub_visit U s))"
| "fine U u s cb = (mentions u cb \<longrightarrow> inert cb)"

lemma inert_fine: "(mentions u cb \<Longrightarrow> inert cb) \<Longrightarrow> fine U u s cb"
  by (cases cb) auto

lemma fine_mono:
  "set (unsub_visit U s) \<subseteq> set (unsub_visit U s') \<Longrightarrow> fine U u s cb \<Longrightarrow> fine U u s' cb"
  by (cases cb) auto

text \<open>Every closure that calls \<open>u\<close> is in an entry that \<open>U\<close> removes.\<close>

definition covered :: "Unsubscribe \<Rightarrow> nat \<Rightarrow> state \<Rightarrow> bool" where
  "covered U u s \<longleftrightarrow> cells_allocated s \<and> cell_allocated U s \<and>
     (\<forall>n. \<forall>e\<in>set (on_subscriptions (nodes s n)). mentions u (callback (snd e)) \<longrightarrow>
        (n, fst e) \<in> unsub_on U \<and> fine U u s (callback (snd e))) \<and>
     (\<forall>n. \<forall>e\<in>set (map_subscriptions (nodes s n)). mentions u (callback (snd e)) \<longrightarrow>
        (n, fst e) \<in> unsub_map U s \<and> fine U u s (callback (snd e))) \<and>
     (\<forall>a\<in>set (adapter_subs s). mentions u (as_callback (snd a)) \<longrightarrow>
        fst a \<in> unsub_regs U s \<and> fine U u s (as_callback (snd a)))"

lemma covered_step:
  assumes cov: "covered U u s" and grow: "cells_grow s s'" and alloc: "cells_allocated s'"
    and on: "\<And>n e. e \<in> set (on_subscriptions (nodes s' n)) \<Longrightarrow> mentions u (callback (snd e)) \<Longrightarrow>
        e \<in> set (on_subscriptions (nodes s n))"
    and mp: "\<And>n e. e \<in> set (map_subscriptions (nodes s' n)) \<Longrightarrow> mentions u (callback (snd e)) \<Longrightarrow>
        e \<in> set (map_subscriptions (nodes s n)) \<or>
        ((n, fst e) \<in> unsub_map U s' \<and> fine U u s' (callback (snd e)))"
    and rg: "\<And>a. a \<in> set (adapter_subs s') \<Longrightarrow> mentions u (as_callback (snd a)) \<Longrightarrow>
        a \<in> set (adapter_subs s) \<or>
        (fst a \<in> unsub_regs U s' \<and> fine U u s' (as_callback (snd a)))"
  shows "covered U u s'" and "fine U u s cb \<Longrightarrow> fine U u s' cb"
proof -
  from cov have G: "cells_allocated s" and C: "cell_allocated U s" by (simp_all add: covered_def)
  note v = unsub_visit_mono [OF G C grow]
  note m = unsub_map_mono [OF G C grow]
  note r = unsub_regs_mono [OF G C grow]
  show "fine U u s cb \<Longrightarrow> fine U u s' cb" by (rule fine_mono [OF v])
  have C': "cell_allocated U s'"
    using C grow by (auto intro: cell_allocated_mono simp: cells_grow_def)
  have 1: "\<forall>n. \<forall>e\<in>set (on_subscriptions (nodes s' n)). mentions u (callback (snd e)) \<longrightarrow>
        (n, fst e) \<in> unsub_on U \<and> fine U u s' (callback (snd e))"
  proof (intro allI ballI impI)
    fix n e assume e: "e \<in> set (on_subscriptions (nodes s' n))" "mentions u (callback (snd e))"
    from on [OF e] have "e \<in> set (on_subscriptions (nodes s n))" .
    with cov e(2) have "(n, fst e) \<in> unsub_on U" "fine U u s (callback (snd e))"
      by (simp_all add: covered_def)
    then show "(n, fst e) \<in> unsub_on U \<and> fine U u s' (callback (snd e))"
      using fine_mono [OF v] by simp
  qed
  have 2: "\<forall>n. \<forall>e\<in>set (map_subscriptions (nodes s' n)). mentions u (callback (snd e)) \<longrightarrow>
        (n, fst e) \<in> unsub_map U s' \<and> fine U u s' (callback (snd e))"
  proof (intro allI ballI impI)
    fix n e assume e: "e \<in> set (map_subscriptions (nodes s' n))" "mentions u (callback (snd e))"
    from mp [OF e] show "(n, fst e) \<in> unsub_map U s' \<and> fine U u s' (callback (snd e))"
    proof
      assume "e \<in> set (map_subscriptions (nodes s n))"
      with cov e(2) have "(n, fst e) \<in> unsub_map U s" "fine U u s (callback (snd e))"
        by (simp_all add: covered_def)
      then show ?thesis using fine_mono [OF v] m by blast
    qed
  qed
  have 3: "\<forall>a\<in>set (adapter_subs s'). mentions u (as_callback (snd a)) \<longrightarrow>
        fst a \<in> unsub_regs U s' \<and> fine U u s' (as_callback (snd a))"
  proof (intro ballI impI)
    fix a assume a: "a \<in> set (adapter_subs s')" "mentions u (as_callback (snd a))"
    from rg [OF a] show "fst a \<in> unsub_regs U s' \<and> fine U u s' (as_callback (snd a))"
    proof
      assume "a \<in> set (adapter_subs s)"
      with cov a(2) have "fst a \<in> unsub_regs U s" "fine U u s (as_callback (snd a))"
        by (simp_all add: covered_def)
      then show ?thesis using fine_mono [OF v] r by blast
    qed
  qed
  from alloc C' 1 2 3 show "covered U u s'" unfolding covered_def by blast
qed

lemma pres_covered_step:
  assumes grow: "cells_grow s s'" and alloc: "cells_allocated s \<Longrightarrow> cells_allocated s'"
    and on: "\<And>n e. e \<in> set (on_subscriptions (nodes s' n)) \<Longrightarrow> mentions u (callback (snd e)) \<Longrightarrow>
        e \<in> set (on_subscriptions (nodes s n))"
    and mp: "\<And>n e. e \<in> set (map_subscriptions (nodes s' n)) \<Longrightarrow> mentions u (callback (snd e)) \<Longrightarrow>
        e \<in> set (map_subscriptions (nodes s n))"
    and rg: "\<And>a. a \<in> set (adapter_subs s') \<Longrightarrow> mentions u (as_callback (snd a)) \<Longrightarrow>
        a \<in> set (adapter_subs s)"
  shows "pres (covered U u) (fine U u) s s'"
proof (rule presI)
  assume cov: "covered U u s"
  then have "cells_allocated s'" using alloc by (simp add: covered_def)
  from covered_step [OF cov grow this on] mp rg
  show "pres (covered U u) (fine U u) s s'" unfolding pres_def by blast
qed

lemma pres_covered_shrink: "tables_shrink s s' \<Longrightarrow> pres (covered U u) (fine U u) s s'"
proof (rule pres_covered_step)
  assume t: "tables_shrink s s'"
  then show "cells_grow s s'" by (simp add: tables_shrink_def same_cells_grow)
  from t show "cells_allocated s \<Longrightarrow> cells_allocated s'"
    by (auto simp: tables_shrink_def intro: same_cells_allocated)
  from t show "\<And>n e. e \<in> set (on_subscriptions (nodes s' n)) \<Longrightarrow> mentions u (callback (snd e)) \<Longrightarrow>
        e \<in> set (on_subscriptions (nodes s n))" unfolding tables_shrink_def by blast
  from t show "\<And>n e. e \<in> set (map_subscriptions (nodes s' n)) \<Longrightarrow> mentions u (callback (snd e)) \<Longrightarrow>
        e \<in> set (map_subscriptions (nodes s n))" unfolding tables_shrink_def by blast
  from t show "\<And>a. a \<in> set (adapter_subs s') \<Longrightarrow> mentions u (as_callback (snd a)) \<Longrightarrow>
        a \<in> set (adapter_subs s)" unfolding tables_shrink_def by blast
qed

lemma prims_covered: "prims_ok (covered U u) (fine U u)"
proof (rule prims_okI)
  fix s s' :: state
  assume "shrinks s s'"
  then show "pres (covered U u) (fine U u) s s'"
    by (simp add: shrinks_def pres_covered_shrink)
next
  fix s k b v p t un
  show "pres (covered U u) (fine U u) s (s\<lparr>log := log s @ [\<lparr>d_callback = k, d_value = v,
      d_path = p, d_updatedAt = t, d_unsubscribe = un\<rparr>]\<rparr>)"
    by (rule pres_covered_shrink) (rule tables_shrink_log)
qed


lemma shrinks_refl [simp]: "shrinks s s"
  by (simp add: shrinks_def tables_shrink_def same_cells_def)

lemma shrinks_trans: "shrinks s s1 \<Longrightarrow> shrinks s1 s2 \<Longrightarrow> shrinks s s2"
  unfolding shrinks_def tables_shrink_def same_cells_def
  by (intro conjI allI) (simp, simp, simp, simp, blast, blast, blast, simp)

lemma shrinks_get_path: "shrinks s (snd (get_path n xs s))"
proof (induction n xs s rule: get_path.induct)
  case (1 n s)
  show ?case by simp
next
  case (2 n x s)
  show ?case by (simp add: shrinks_get_child)
next
  case (3 n x y ys s)
  obtain c s1 where c: "get_child n x s = (c, s1)" by (cases "get_child n x s")
  have 1: "shrinks s s1" using shrinks_get_child [of s n x] c by simp
  have 2: "shrinks s1 (snd (get_path c (y # ys) s1))" using 3 c by simp
  from shrinks_trans [OF 1 2] c show ?case by simp
qed

lemma shrinks_get: "shrinks s (snd (get n key s))"
  by (simp add: get_eq_get_path shrinks_get_path)

lemma map_set_mem: "(k, v) \<in> set (map_set k v xs)"
  by (induction xs) auto

lemma map_set_absent: "map_of xs k = None \<Longrightarrow> set (map_set k v xs) = insert (k, v) (set xs)"
  by (induction xs) (auto split: if_splits)

lemma root_reached:
  "on_cell_of U = Some c \<Longrightarrow> openUnsubscribe (on_cells s c) = Some m \<Longrightarrow>
   (m, nat (mu_recursion m)) \<in> set (unsub_visit U s)"
  by (cases U) (simp_all add: visit_head)

lemma reached_keys: "(m, d) \<in> set (unsub_visit U s) \<Longrightarrow> (mu_node m, mu_id m) \<in> unsub_map U s"
  by (cases U) (force simp: visit_keys_def)+

lemma reached_regs:
  "(m, d) \<in> set (unsub_visit U s) \<Longrightarrow> k \<in> set (adapterSubs (map_cells s (mu_cell m))) \<Longrightarrow>
   k \<in> unsub_regs U s"
  by (cases U) (force simp: visit_regs_def)+

lemma unsub_visit_child:
  "(m, Suc d) \<in> set (unsub_visit U s) \<Longrightarrow> e \<in> set (openUnsubs (map_cells s (mu_cell m))) \<Longrightarrow>
   (snd e, d) \<in> set (unsub_visit U s)"
  by (cases U) (auto split: option.splits intro: visit_child)

lemma adds_map_mapD:
  "adds_map m cb s s' \<Longrightarrow> e \<in> set (map_subscriptions (nodes s' n)) \<Longrightarrow>
   e \<in> set (map_subscriptions (nodes s n)) \<or>
   (n = mu_node m \<and> fst e = mu_id m \<and> callback (snd e) = TypedCallback cb)"
  unfolding adds_map_def by blast

lemma adds_map_regD:
  "adds_map m cb s s' \<Longrightarrow> a \<in> set (adapter_subs s') \<Longrightarrow>
   a \<in> set (adapter_subs s) \<or>
   (fst a \<in> set (adapterSubs (map_cells s' (mu_cell m))) \<and>
    as_callback (snd a) = MapCb (mu_cell m) cb (mu_recursion m) (mu_node m) (mu_id m))"
  unfolding adds_map_def by blast

lemma pres_covered_open_directory:
  assumes cov: "covered U u s" and F: "fine U u s (LocalCallback c cb riu r n)"
  shows "pres (covered U u) (fine U u) s (open_directory c cb r n v s)"
proof (cases c cb r n v s rule: open_directory_cases)
  case same
  then show ?thesis by simp
next
  case (opened m s')
  let ?s2 = "s'\<lparr>on_cells := (on_cells s')(c := (on_cells s' c)\<lparr>openUnsubscribe := Some m\<rparr>)\<rparr>"
  let ?ocb = "OpenCallback (next_cell s) cb n"
  note A = open_sub_adds(1) [OF opened(1)]
  from cov have G: "cells_allocated s" by (simp add: covered_def)
  from A have nc: "next_cell s \<le> mu_cell m" "mu_cell m < next_cell s'"
    and oc: "on_cells s' = on_cells s"
    and mc: "\<forall>c'. c' \<noteq> mu_cell m \<longrightarrow> map_cells s' c' = map_cells s c'"
    and fresh: "openUnsubs (map_cells s' (mu_cell m)) = []"
    by (simp_all add: adds_map_def)
  have root: "openUnsubscribe (on_cells ?s2 c) = Some m" by simp
  have grow: "cells_grow s ?s2"
    unfolding cells_grow_def using nc oc mc opened(2) by auto
  have alloc: "cells_allocated ?s2"
    unfolding cells_allocated_def
  proof (intro conjI allI ballI impI)
    fix c' e assume e: "e \<in> set (openUnsubs (map_cells ?s2 c'))"
    show "mu_cell (snd e) < next_cell ?s2"
    proof (cases "c' = mu_cell m")
      case True
      with e fresh show ?thesis by simp
    next
      case False
      with e mc have "e \<in> set (openUnsubs (map_cells s c'))" by simp
      with G have "mu_cell (snd e) < next_cell s" unfolding cells_allocated_def by blast
      with nc show ?thesis by simp
    qed
  next
    fix c' m' assume m': "openUnsubscribe (on_cells ?s2 c') = Some m'"
    show "mu_cell m' < next_cell ?s2"
    proof (cases "c' = c")
      case True
      with m' nc show ?thesis by simp
    next
      case False
      with m' oc have "openUnsubscribe (on_cells s c') = Some m'" by simp
      with G have "mu_cell m' < next_cell s" unfolding cells_allocated_def by blast
      with nc show ?thesis by simp
    qed
  qed
  have reach: "mentions u cb \<Longrightarrow> (m, nat (mu_recursion m)) \<in> set (unsub_visit U ?s2)"
    using F root_reached [of U c ?s2 m] root by simp
  have on: "\<And>n' e. e \<in> set (on_subscriptions (nodes ?s2 n')) \<Longrightarrow>
      mentions u (callback (snd e)) \<Longrightarrow> e \<in> set (on_subscriptions (nodes s n'))"
    using A by (simp add: adds_map_def)
  have mp: "\<And>n' e. e \<in> set (map_subscriptions (nodes ?s2 n')) \<Longrightarrow>
      mentions u (callback (snd e)) \<Longrightarrow> e \<in> set (map_subscriptions (nodes s n')) \<or>
      ((n', fst e) \<in> unsub_map U ?s2 \<and> fine U u ?s2 (callback (snd e)))"
  proof -
    fix n' e assume e: "e \<in> set (map_subscriptions (nodes ?s2 n'))" "mentions u (callback (snd e))"
    from e(1) have "e \<in> set (map_subscriptions (nodes s' n'))" by simp
    from adds_map_mapD [OF A this] consider "e \<in> set (map_subscriptions (nodes s n'))"
      | "n' = mu_node m" "fst e = mu_id m" "callback (snd e) = TypedCallback ?ocb"
      by blast
    then show "e \<in> set (map_subscriptions (nodes s n')) \<or>
      ((n', fst e) \<in> unsub_map U ?s2 \<and> fine U u ?s2 (callback (snd e)))"
    proof cases
      case 1
      then show ?thesis by simp
    next
      case 2
      with e(2) have mu: "mentions u cb" by simp
      from reached_keys [OF reach [OF mu]] 2 have "(n', fst e) \<in> unsub_map U ?s2" by simp
      moreover from F mu 2 have "fine U u ?s2 (callback (snd e))" by simp
      ultimately show ?thesis by simp
    qed
  qed
  have rg: "\<And>a. a \<in> set (adapter_subs ?s2) \<Longrightarrow> mentions u (as_callback (snd a)) \<Longrightarrow>
      a \<in> set (adapter_subs s) \<or> (fst a \<in> unsub_regs U ?s2 \<and> fine U u ?s2 (as_callback (snd a)))"
  proof -
    fix a assume a: "a \<in> set (adapter_subs ?s2)" "mentions u (as_callback (snd a))"
    from a(1) have "a \<in> set (adapter_subs s')" by simp
    from adds_map_regD [OF A this] consider "a \<in> set (adapter_subs s)"
      | "fst a \<in> set (adapterSubs (map_cells s' (mu_cell m)))"
        "as_callback (snd a) = MapCb (mu_cell m) ?ocb (mu_recursion m) (mu_node m) (mu_id m)"
      by blast
    then show "a \<in> set (adapter_subs s) \<or>
      (fst a \<in> unsub_regs U ?s2 \<and> fine U u ?s2 (as_callback (snd a)))"
    proof cases
      case 1
      then show ?thesis by simp
    next
      case 2
      with a(2) have mu: "mentions u cb" by simp
      from 2(1) have "fst a \<in> set (adapterSubs (map_cells ?s2 (mu_cell m)))" by simp
      from reached_regs [OF reach [OF mu] this] have "fst a \<in> unsub_regs U ?s2" .
      moreover from F mu 2 reach [OF mu] have "fine U u ?s2 (as_callback (snd a))" by simp
      ultimately show ?thesis by simp
    qed
  qed
  from covered_step [OF cov grow alloc on mp rg] opened(4) show ?thesis
    unfolding pres_def by simp
qed

lemma pres_covered_open_child:
  assumes cov: "covered U u s" and r: "0 < r" and F: "fine U u s (MapCb c cb r n i)"
  shows "pres (covered U u) (fine U u) s (open_child c cb r n k s)"
proof (cases c cb r n k s rule: open_child_cases)
  case same
  then show ?thesis by simp
next
  case (opened child s1 m s2)
  let ?s3 = "s2\<lparr>map_cells := (map_cells s2)(c := (map_cells s2 c)
      \<lparr>openUnsubs := map_set k m (openUnsubs (map_cells s2 c))\<rparr>)\<rparr>"
  let ?ocb = "OpenCallback (next_cell s1) cb child"
  have g: "pres (covered U u) (fine U u) s s1"
    using pres_get [OF prims_covered, of U u s n k] opened(1) by simp
  from pres_P [OF g cov] have cov1: "covered U u s1" .
  from pres_F [OF g cov F] have F1: "fine U u s1 (MapCb c cb r n i)" .
  have "shrinks s s1" using shrinks_get [of s n k] opened(1) by simp
  then have "openUnsubs (map_cells s1 c) = openUnsubs (map_cells s c)"
    by (simp add: shrinks_def tables_shrink_def same_cells_def)
  with opened(3) have absent: "map_of (openUnsubs (map_cells s1 c)) k = None" by simp
  note A = open_sub_adds(1) [OF opened(2)]
  note rec = open_sub_adds(3) [OF opened(2)]
  from cov1 have G: "cells_allocated s1" and C: "cell_allocated U s1" by (simp_all add: covered_def)
  from A have nc: "next_cell s1 \<le> mu_cell m" "mu_cell m < next_cell s2"
    and oc: "on_cells s2 = on_cells s1"
    and mc: "\<forall>c'. c' \<noteq> mu_cell m \<longrightarrow> map_cells s2 c' = map_cells s1 c'"
    and fresh: "openUnsubs (map_cells s2 (mu_cell m)) = []"
    by (simp_all add: adds_map_def)
  have grow: "cells_grow s1 ?s3"
    unfolding cells_grow_def
  proof (intro conjI allI impI)
    show "next_cell s1 \<le> next_cell ?s3" using nc by simp
  next
    fix c' assume c': "c' < next_cell s1"
    with nc mc have eq: "map_cells s2 c' = map_cells s1 c'" by simp
    show "set (openUnsubs (map_cells s1 c')) \<subseteq> set (openUnsubs (map_cells ?s3 c'))"
      using eq map_set_absent [OF absent, of m] by auto
    show "adapterSubs (map_cells ?s3 c') = adapterSubs (map_cells s1 c')"
      using eq by auto
  next
    fix c' m' assume "openUnsubscribe (on_cells s1 c') = Some m'"
    then show "openUnsubscribe (on_cells ?s3 c') = Some m'" using oc by simp
  qed
  have alloc: "cells_allocated ?s3"
    unfolding cells_allocated_def
  proof (intro conjI allI ballI impI)
    fix c' e assume e: "e \<in> set (openUnsubs (map_cells ?s3 c'))"
    have old: "e \<in> set (openUnsubs (map_cells s2 c')) \<Longrightarrow> mu_cell (snd e) < next_cell ?s3"
    proof (cases "c' = mu_cell m")
      case True
      assume "e \<in> set (openUnsubs (map_cells s2 c'))"
      with True fresh show ?thesis by simp
    next
      case False
      assume "e \<in> set (openUnsubs (map_cells s2 c'))"
      with False mc have "e \<in> set (openUnsubs (map_cells s1 c'))" by simp
      with G have "mu_cell (snd e) < next_cell s1" unfolding cells_allocated_def by blast
      with nc show ?thesis by simp
    qed
    show "mu_cell (snd e) < next_cell ?s3"
    proof (cases "c' = c")
      case True
      with e have "e \<in> insert (k, m) (set (openUnsubs (map_cells s2 c')))"
        using set_map_set [of k m "openUnsubs (map_cells s2 c)"] by auto
      then show ?thesis using old nc by auto
    next
      case False
      with e old show ?thesis by simp
    qed
  next
    fix c' m' assume "openUnsubscribe (on_cells ?s3 c') = Some m'"
    then have "openUnsubscribe (on_cells s1 c') = Some m'" using oc by simp
    with G have "mu_cell m' < next_cell s1" unfolding cells_allocated_def by blast
    with nc show "mu_cell m' < next_cell ?s3" by simp
  qed
  have reach: "(m, nat (mu_recursion m)) \<in> set (unsub_visit U ?s3)" if mu: "mentions u cb"
  proof -
    from F1 mu have "(MapUnsub n i c r, nat r) \<in> set (unsub_visit U s1)" by simp
    with unsub_visit_mono [OF G C grow]
    have "(MapUnsub n i c r, nat r) \<in> set (unsub_visit U ?s3)" by blast
    moreover from r have "nat r = Suc (nat (r - 1))" by simp
    ultimately have p: "(MapUnsub n i c r, Suc (nat (r - 1))) \<in> set (unsub_visit U ?s3)" by simp
    have "(k, m) \<in> set (openUnsubs (map_cells ?s3 (mu_cell (MapUnsub n i c r))))"
      by (simp add: map_set_mem)
    from unsub_visit_child [OF p this] rec show ?thesis by simp
  qed
  have on: "\<And>n' e. e \<in> set (on_subscriptions (nodes ?s3 n')) \<Longrightarrow>
      mentions u (callback (snd e)) \<Longrightarrow> e \<in> set (on_subscriptions (nodes s1 n'))"
    using A by (simp add: adds_map_def)
  have mp: "\<And>n' e. e \<in> set (map_subscriptions (nodes ?s3 n')) \<Longrightarrow>
      mentions u (callback (snd e)) \<Longrightarrow> e \<in> set (map_subscriptions (nodes s1 n')) \<or>
      ((n', fst e) \<in> unsub_map U ?s3 \<and> fine U u ?s3 (callback (snd e)))"
  proof -
    fix n' e assume e: "e \<in> set (map_subscriptions (nodes ?s3 n'))" "mentions u (callback (snd e))"
    from e(1) have "e \<in> set (map_subscriptions (nodes s2 n'))" by simp
    from adds_map_mapD [OF A this] consider "e \<in> set (map_subscriptions (nodes s1 n'))"
      | "n' = mu_node m" "fst e = mu_id m" "callback (snd e) = TypedCallback ?ocb"
      by blast
    then show "e \<in> set (map_subscriptions (nodes s1 n')) \<or>
      ((n', fst e) \<in> unsub_map U ?s3 \<and> fine U u ?s3 (callback (snd e)))"
    proof cases
      case 1
      then show ?thesis by simp
    next
      case 2
      with e(2) have mu: "mentions u cb" by simp
      from reached_keys [OF reach [OF mu]] 2 have "(n', fst e) \<in> unsub_map U ?s3" by simp
      moreover from F1 mu 2 have "fine U u ?s3 (callback (snd e))" by simp
      ultimately show ?thesis by simp
    qed
  qed
  have rg: "\<And>a. a \<in> set (adapter_subs ?s3) \<Longrightarrow> mentions u (as_callback (snd a)) \<Longrightarrow>
      a \<in> set (adapter_subs s1) \<or> (fst a \<in> unsub_regs U ?s3 \<and> fine U u ?s3 (as_callback (snd a)))"
  proof -
    fix a assume a: "a \<in> set (adapter_subs ?s3)" "mentions u (as_callback (snd a))"
    from a(1) have "a \<in> set (adapter_subs s2)" by simp
    from adds_map_regD [OF A this] consider "a \<in> set (adapter_subs s1)"
      | "fst a \<in> set (adapterSubs (map_cells s2 (mu_cell m)))"
        "as_callback (snd a) = MapCb (mu_cell m) ?ocb (mu_recursion m) (mu_node m) (mu_id m)"
      by blast
    then show "a \<in> set (adapter_subs s1) \<or>
      (fst a \<in> unsub_regs U ?s3 \<and> fine U u ?s3 (as_callback (snd a)))"
    proof cases
      case 1
      then show ?thesis by simp
    next
      case 2
      with a(2) have mu: "mentions u cb" by simp
      from 2(1) have "fst a \<in> set (adapterSubs (map_cells ?s3 (mu_cell m)))" by auto
      from reached_regs [OF reach [OF mu] this] have "fst a \<in> unsub_regs U ?s3" .
      moreover from F1 mu 2 reach [OF mu] have "fine U u ?s3 (as_callback (snd a))" by simp
      ultimately show ?thesis by simp
    qed
  qed
  from covered_step [OF cov1 grow alloc on mp rg]
  have "pres (covered U u) (fine U u) s1 ?s3" unfolding pres_def by simp
  from pres_trans [OF g this] opened(4) show ?thesis by simp
qed

lemma engine_covered: "engine_inv (covered U u) (fine U u)"
  unfolding engine_inv_def
proof (intro conjI)
  show "prims_ok (covered U u) (fine U u)" by (rule prims_covered)
  show "opens_ok (covered U u) (fine U u)"
    unfolding opens_ok_def
    by (intro conjI allI impI pres_covered_open_directory pres_covered_open_child)
  show "unwraps (fine U u)"
    unfolding unwraps_def by (intro conjI allI impI inert_fine) simp_all
  show "tables_ok (covered U u) (fine U u)"
    unfolding tables_ok_def covered_def
    by (intro conjI allI impI) (metis inert_fine)+
qed


section \<open>What a caller and the adapters do\<close>

text \<open>
  The public methods of a node handle (\<open>get\<close>, \<open>put\<close>, \<open>on\<close>, \<open>once\<close>, \<open>map\<close>, \<open>open\<close>), a
  notification from an adapter to a registration it holds, and a call of an unsubscribe
  function.
\<close>

datatype action =
    AGet node string
  | APut node JsonValue int "int option"
  | AOn node Callback bool int
  | AOnce node "Callback option" bool int
  | AMap node Callback int
  | AOpen node Callback int
  | ANotify nat JsonValue string "int option" Unsubscribe
  | ACall Unsubscribe

fun perform :: "action \<Rightarrow> state \<Rightarrow> state" where
  "perform (AGet n key) s = snd (get n key s)"
| "perform (APut n v t e) s = snd (put n v t e s)"
| "perform (AOn n cb returnIfUndefined r) s = snd (on_sub n cb returnIfUndefined r s)"
| "perform (AOnce n cb returnIfUndefined r) s = snd (once_sub n cb returnIfUndefined r s)"
| "perform (AMap n cb r) s = snd (map_sub n cb r s)"
| "perform (AOpen n cb r) s = snd (open_sub n cb r s)"
| "perform (ANotify k v path t unsub) s = snd (adapter_notify k v path t unsub s)"
| "perform (ACall unsub) s = call_unsub unsub s"

definition run :: "action list \<Rightarrow> state \<Rightarrow> state" where
  "run as s = fold perform as s"

text \<open>The action subscribes no closure that calls \<open>u\<close>.\<close>

fun allowed :: "nat \<Rightarrow> action \<Rightarrow> bool" where
  "allowed u (AOn n cb returnIfUndefined r) = (\<not> mentions u cb)"
| "allowed u (AOnce n None returnIfUndefined r) = True"
| "allowed u (AOnce n (Some cb) returnIfUndefined r) = (\<not> mentions u cb)"
| "allowed u (AMap n cb r) = (\<not> mentions u cb)"
| "allowed u (AOpen n cb r) = (\<not> mentions u cb)"
| "allowed u _ = True"

lemma mentions_OnceCb: "allowed u (AOnce n cb riu r) \<Longrightarrow> \<not> mentions u (OnceCb c cb)"
  by (cases cb) simp_all

lemma pres_run:
  assumes "\<And>a s. allowed u a \<Longrightarrow> pres P F s (perform a s)"
  shows "\<forall>a\<in>set as. allowed u a \<Longrightarrow> pres P F s (run as s)"
proof (induction as arbitrary: s)
  case Nil
  show ?case by (simp add: run_def)
next
  case (Cons a as)
  have 1: "pres P F s (perform a s)" using Cons.prems by (intro assms) simp
  have 2: "pres P F (perform a s) (run as (perform a s))" using Cons.prems by (intro Cons.IH) simp
  from pres_trans [OF 1 2] show ?case by (simp add: run_def)
qed

subsection \<open>Nothing holds the callback\<close>

lemma pres_mute_once_cell:
  "pres (mute u H) (other u) s (s\<lparr>next_cell := k, once_cells := w\<rparr>)"
  by (simp add: pres_def mute_def other_def)

lemma pres_mute_perform:
  assumes "allowed u a"
  shows "pres (mute u H) (other u) s (perform a s)"
proof (cases a)
  case (AGet n key)
  then show ?thesis by (simp add: pres_get [OF prims_mute])
next
  case (APut n v t e)
  then show ?thesis by (simp add: pres_put(1) [OF engine_mute])
next
  case (AOn n cb riu r)
  obtain un s' where o: "on_sub n cb riu r s = (un, s')" by (cases "on_sub n cb riu r s")
  from on_sub_adds [OF o] obtain i ks where
    "adds_on n i (next_cell s) ks (LocalCallback (next_cell s) cb riu r n) s s'" by blast
  from pres_mute_adds_on [OF this] assms AOn o show ?thesis by simp
next
  case (AOnce n cb riu r)
  let ?s1 = "s\<lparr>next_cell := Suc (next_cell s),
      once_cells := (once_cells s)(next_cell s := \<lparr>resolved = False, promise = None\<rparr>)\<rparr>"
  obtain un s' where o: "on_sub n (OnceCb (next_cell s) cb) riu r ?s1 = (un, s')"
    by (cases "on_sub n (OnceCb (next_cell s) cb) riu r ?s1")
  from on_sub_adds [OF o] obtain i ks where
    "adds_on n i (next_cell ?s1) ks
       (LocalCallback (next_cell ?s1) (OnceCb (next_cell s) cb) riu r n) ?s1 s'" by blast
  from pres_mute_adds_on [OF this] assms AOnce
  have "pres (mute u H) (other u) ?s1 s'" by (simp add: mentions_OnceCb)
  from pres_trans [OF pres_mute_once_cell this] AOnce o show ?thesis
    by (simp add: once_sub_def Let_def)
next
  case (AMap n cb r)
  obtain m s' where o: "map_sub n cb r s = (m, s')" by (cases "map_sub n cb r s")
  from pres_mute_adds_map [OF map_sub_adds(1) [OF o]] assms AMap o show ?thesis by simp
next
  case (AOpen n cb r)
  obtain m s' where o: "open_sub n cb r s = (m, s')" by (cases "open_sub n cb r s")
  from pres_mute_adds_map [OF open_sub_adds(1) [OF o], of u H] assms AOpen o show ?thesis by simp
next
  case (ANotify k v path t unsub)
  then show ?thesis by (simp add: pres_adapter_notify [OF engine_mute])
next
  case (ACall unsub)
  then show ?thesis by (simp add: pres_call_unsub [OF prims_mute])
qed

lemma silent_run:
  assumes "ufree u s" "\<forall>a\<in>set as. allowed u a"
  shows "heard u (run as s) = heard u s"
proof -
  have "mute u (heard u s) s" using assms(1) by (simp add: mute_def)
  with pres_run [of u "mute u (heard u s)" "other u", OF pres_mute_perform assms(2), of s]
  show ?thesis by (simp add: pres_def mute_def)
qed

subsection \<open>The unsubscribe function reaches every holder\<close>

lemma adds_map_grow: "adds_map m cb s s' \<Longrightarrow> cells_grow s s'"
  unfolding adds_map_def cells_grow_def by auto

lemma adds_map_allocated:
  assumes "adds_map m cb s s'" "cells_allocated s"
  shows "cells_allocated s'"
  unfolding cells_allocated_def
proof (intro conjI allI ballI impI)
  from assms(1) have nc: "next_cell s \<le> mu_cell m" "mu_cell m < next_cell s'"
    and oc: "on_cells s' = on_cells s"
    and mc: "\<forall>c'. c' \<noteq> mu_cell m \<longrightarrow> map_cells s' c' = map_cells s c'"
    and fresh: "openUnsubs (map_cells s' (mu_cell m)) = []"
    by (simp_all add: adds_map_def)
  {
    fix c e assume e: "e \<in> set (openUnsubs (map_cells s' c))"
    show "mu_cell (snd e) < next_cell s'"
    proof (cases "c = mu_cell m")
      case True
      with e fresh show ?thesis by simp
    next
      case False
      with e mc have "e \<in> set (openUnsubs (map_cells s c))" by simp
      with assms(2) have "mu_cell (snd e) < next_cell s" unfolding cells_allocated_def by blast
      with nc show ?thesis by simp
    qed
  next
    fix c m' assume "openUnsubscribe (on_cells s' c) = Some m'"
    with oc have "openUnsubscribe (on_cells s c) = Some m'" by simp
    with assms(2) have "mu_cell m' < next_cell s" unfolding cells_allocated_def by blast
    with nc show "mu_cell m' < next_cell s'" by simp
  }
qed

lemma adds_on_grow: "adds_on n i c ks cb s s' \<Longrightarrow> cells_grow s s'"
  unfolding adds_on_def cells_grow_def by auto

lemma adds_on_allocated:
  assumes "adds_on n i c ks cb s s'" "cells_allocated s"
  shows "cells_allocated s'"
  unfolding cells_allocated_def
proof (intro conjI allI ballI impI)
  from assms(1) have nc: "next_cell s \<le> c" "c < next_cell s'"
    and mc: "map_cells s' = map_cells s"
    and oc: "\<forall>c'. c' \<noteq> c \<longrightarrow> on_cells s' c' = on_cells s c'"
    and fresh: "openUnsubscribe (on_cells s' c) = None"
    by (simp_all add: adds_on_def)
  {
    fix c' e assume "e \<in> set (openUnsubs (map_cells s' c'))"
    with mc have "e \<in> set (openUnsubs (map_cells s c'))" by simp
    with assms(2) have "mu_cell (snd e) < next_cell s" unfolding cells_allocated_def by blast
    with nc show "mu_cell (snd e) < next_cell s'" by simp
  next
    fix c' m' assume m': "openUnsubscribe (on_cells s' c') = Some m'"
    with fresh have "c' \<noteq> c" by auto
    with m' oc have "openUnsubscribe (on_cells s c') = Some m'" by simp
    with assms(2) have "mu_cell m' < next_cell s" unfolding cells_allocated_def by blast
    with nc show "mu_cell m' < next_cell s'" by simp
  }
qed

lemma adds_on_onD:
  "adds_on this i c ks cb s s' \<Longrightarrow> e \<in> set (on_subscriptions (nodes s' n)) \<Longrightarrow>
   e \<in> set (on_subscriptions (nodes s n)) \<or> (n = this \<and> fst e = i \<and> callback (snd e) = cb)"
  unfolding adds_on_def by blast

lemma adds_on_regD:
  "adds_on this i c ks cb s s' \<Longrightarrow> a \<in> set (adapter_subs s') \<Longrightarrow>
   a \<in> set (adapter_subs s) \<or> (fst a \<in> set ks \<and> as_callback (snd a) = cb)"
  unfolding adds_on_def by blast

lemma pres_covered_adds_map:
  assumes A: "adds_map m cb s s'" and cb: "\<not> mentions u cb"
  shows "pres (covered U u) (fine U u) s s'"
proof (rule pres_covered_step)
  show "cells_grow s s'" by (rule adds_map_grow [OF A])
  show "cells_allocated s \<Longrightarrow> cells_allocated s'" by (rule adds_map_allocated [OF A])
  show "\<And>n e. e \<in> set (on_subscriptions (nodes s' n)) \<Longrightarrow> mentions u (callback (snd e)) \<Longrightarrow>
      e \<in> set (on_subscriptions (nodes s n))" using A by (simp add: adds_map_def)
  show "\<And>n e. e \<in> set (map_subscriptions (nodes s' n)) \<Longrightarrow> mentions u (callback (snd e)) \<Longrightarrow>
      e \<in> set (map_subscriptions (nodes s n))" using adds_map_mapD [OF A] cb by fastforce
  show "\<And>a. a \<in> set (adapter_subs s') \<Longrightarrow> mentions u (as_callback (snd a)) \<Longrightarrow>
      a \<in> set (adapter_subs s)" using adds_map_regD [OF A] cb by fastforce
qed

lemma pres_covered_adds_on:
  assumes A: "adds_on n i c ks cb s s'" and cb: "\<not> mentions u cb"
  shows "pres (covered U u) (fine U u) s s'"
proof (rule pres_covered_step)
  show "cells_grow s s'" by (rule adds_on_grow [OF A])
  show "cells_allocated s \<Longrightarrow> cells_allocated s'" by (rule adds_on_allocated [OF A])
  show "\<And>n e. e \<in> set (map_subscriptions (nodes s' n)) \<Longrightarrow> mentions u (callback (snd e)) \<Longrightarrow>
      e \<in> set (map_subscriptions (nodes s n))" using A by (simp add: adds_on_def)
  show "\<And>n e. e \<in> set (on_subscriptions (nodes s' n)) \<Longrightarrow> mentions u (callback (snd e)) \<Longrightarrow>
      e \<in> set (on_subscriptions (nodes s n))" using adds_on_onD [OF A] cb by fastforce
  show "\<And>a. a \<in> set (adapter_subs s') \<Longrightarrow> mentions u (as_callback (snd a)) \<Longrightarrow>
      a \<in> set (adapter_subs s)" using adds_on_regD [OF A] cb by fastforce
qed

lemma pres_covered_once_cell:
  "pres (covered U u) (fine U u) s (s\<lparr>next_cell := Suc (next_cell s), once_cells := w\<rparr>)"
proof (rule pres_covered_step)
  show "cells_grow s (s\<lparr>next_cell := Suc (next_cell s), once_cells := w\<rparr>)"
    by (simp add: cells_grow_def)
  show "cells_allocated s \<Longrightarrow> cells_allocated (s\<lparr>next_cell := Suc (next_cell s), once_cells := w\<rparr>)"
    by (auto simp: cells_allocated_def intro: less_SucI)
qed simp_all

lemma pres_covered_perform:
  assumes "allowed u a"
  shows "pres (covered U u) (fine U u) s (perform a s)"
proof (cases a)
  case (AGet n key)
  then show ?thesis by (simp add: pres_get [OF prims_covered])
next
  case (APut n v t e)
  then show ?thesis by (simp add: pres_put(1) [OF engine_covered])
next
  case (AOn n cb riu r)
  obtain un s' where o: "on_sub n cb riu r s = (un, s')" by (cases "on_sub n cb riu r s")
  from on_sub_adds [OF o] obtain i ks where
    "adds_on n i (next_cell s) ks (LocalCallback (next_cell s) cb riu r n) s s'" by blast
  from pres_covered_adds_on [OF this] assms AOn o show ?thesis by simp
next
  case (AOnce n cb riu r)
  let ?s1 = "s\<lparr>next_cell := Suc (next_cell s),
      once_cells := (once_cells s)(next_cell s := \<lparr>resolved = False, promise = None\<rparr>)\<rparr>"
  obtain un s' where o: "on_sub n (OnceCb (next_cell s) cb) riu r ?s1 = (un, s')"
    by (cases "on_sub n (OnceCb (next_cell s) cb) riu r ?s1")
  from on_sub_adds [OF o] obtain i ks where
    "adds_on n i (next_cell ?s1) ks
       (LocalCallback (next_cell ?s1) (OnceCb (next_cell s) cb) riu r n) ?s1 s'" by blast
  from pres_covered_adds_on [OF this] assms AOnce
  have "pres (covered U u) (fine U u) ?s1 s'" by (simp add: mentions_OnceCb)
  from pres_trans [OF pres_covered_once_cell this] AOnce o show ?thesis
    by (simp add: once_sub_def Let_def)
next
  case (AMap n cb r)
  obtain m s' where o: "map_sub n cb r s = (m, s')" by (cases "map_sub n cb r s")
  from pres_covered_adds_map [OF map_sub_adds(1) [OF o]] assms AMap o show ?thesis by simp
next
  case (AOpen n cb r)
  obtain m s' where o: "open_sub n cb r s = (m, s')" by (cases "open_sub n cb r s")
  from pres_covered_adds_map [OF open_sub_adds(1) [OF o], of u U] assms AOpen o
  show ?thesis by simp
next
  case (ANotify k v path t unsub)
  then show ?thesis by (simp add: pres_adapter_notify [OF engine_covered])
next
  case (ACall unsub)
  then show ?thesis by (simp add: pres_call_unsub [OF prims_covered])
qed

lemma covered_run:
  assumes "covered U u s" "\<forall>a\<in>set as. allowed u a"
  shows "covered U u (run as s)"
  using pres_run [of u "covered U u" "fine U u", OF pres_covered_perform assms(2), of s] assms(1)
  by (simp add: pres_def)

lemma covered_on_sub:
  assumes free: "ufree u s" and G: "cells_allocated s"
    and o: "on_sub n cb riu r s = (U, s')" and cb: "inert cb"
  shows "covered U u s'"
proof -
  let ?cb = "LocalCallback (next_cell s) cb riu r n"
  from on_sub_adds [OF o] obtain i ks where U: "U = UnsubscribeAll n i (next_cell s) ks"
    and A: "adds_on n i (next_cell s) ks ?cb s s'" by blast
  from A have nc: "next_cell s < next_cell s'" by (simp add: adds_on_def)
  have f: "fine U u s' ?cb" using cb U by simp
  show ?thesis
    unfolding covered_def
  proof (intro conjI allI ballI impI)
    show "cells_allocated s'" by (rule adds_on_allocated [OF A G])
    show "cell_allocated U s'" using U nc by simp
  next
    fix n' e assume e: "e \<in> set (on_subscriptions (nodes s' n'))" "mentions u (callback (snd e))"
    from adds_on_onD [OF A e(1)] e(2) free
    have *: "n' = n \<and> fst e = i \<and> callback (snd e) = ?cb" unfolding ufree_def by blast
    then show "(n', fst e) \<in> unsub_on U" using U by simp
    from * f show "fine U u s' (callback (snd e))" by simp
  next
    fix n' e assume e: "e \<in> set (map_subscriptions (nodes s' n'))" "mentions u (callback (snd e))"
    from A e(1) have "e \<in> set (map_subscriptions (nodes s n'))" by (simp add: adds_on_def)
    with free e(2) have False unfolding ufree_def by blast
    then show "(n', fst e) \<in> unsub_map U s'" "fine U u s' (callback (snd e))" by simp_all
  next
    fix a assume a: "a \<in> set (adapter_subs s')" "mentions u (as_callback (snd a))"
    from adds_on_regD [OF A a(1)] a(2) free
    have *: "fst a \<in> set ks \<and> as_callback (snd a) = ?cb" unfolding ufree_def by blast
    then show "fst a \<in> unsub_regs U s'" using U by simp
    from * f show "fine U u s' (as_callback (snd a))" by simp
  qed
qed

lemma covered_map_sub:
  assumes free: "ufree u s" and G: "cells_allocated s"
    and o: "map_sub n cb r s = (m, s')" and cb: "inert cb"
  shows "covered (MapUnsubscribe m) u s'"
proof -
  let ?U = "MapUnsubscribe m"
  let ?cb = "MapCb (mu_cell m) cb (mu_recursion m) (mu_node m) (mu_id m)"
  note A = map_sub_adds(1) [OF o]
  from A have nc: "mu_cell m < next_cell s'" by (simp add: adds_map_def)
  have reach: "(m, nat (mu_recursion m)) \<in> set (unsub_visit ?U s')" by (simp add: visit_head)
  have f: "fine ?U u s' ?cb" using cb reach by simp
  show ?thesis
    unfolding covered_def
  proof (intro conjI allI ballI impI)
    show "cells_allocated s'" by (rule adds_map_allocated [OF A G])
    show "cell_allocated ?U s'" using nc by simp
  next
    fix n' e assume e: "e \<in> set (on_subscriptions (nodes s' n'))" "mentions u (callback (snd e))"
    from A e(1) have "e \<in> set (on_subscriptions (nodes s n'))" by (simp add: adds_map_def)
    with free e(2) have False unfolding ufree_def by blast
    then show "(n', fst e) \<in> unsub_on ?U" "fine ?U u s' (callback (snd e))" by simp_all
  next
    fix n' e assume e: "e \<in> set (map_subscriptions (nodes s' n'))" "mentions u (callback (snd e))"
    from adds_map_mapD [OF A e(1)] e(2) free
    have *: "n' = mu_node m \<and> fst e = mu_id m \<and> callback (snd e) = TypedCallback cb"
      unfolding ufree_def by blast
    with reached_keys [OF reach] show "(n', fst e) \<in> unsub_map ?U s'" by simp
    from * cb show "fine ?U u s' (callback (snd e))" by simp
  next
    fix a assume a: "a \<in> set (adapter_subs s')" "mentions u (as_callback (snd a))"
    from adds_map_regD [OF A a(1)] a(2) free
    have *: "fst a \<in> set (adapterSubs (map_cells s' (mu_cell m))) \<and> as_callback (snd a) = ?cb"
      unfolding ufree_def by blast
    with reached_regs [OF reach] show "fst a \<in> unsub_regs ?U s'" by simp
    from * f show "fine ?U u s' (as_callback (snd a))" by simp
  qed
qed

lemma covered_unsub:
  assumes "covered U u s"
  shows "ufree u (call_unsub U s)"
proof -
  let ?s' = "del (unsub_on U) (unsub_map U s) (unsub_regs U s) s"
  have 1: "\<forall>n. \<forall>e\<in>set (on_subscriptions (nodes ?s' n)). \<not> mentions u (callback (snd e))"
  proof (intro allI ballI notI)
    fix n e assume e: "e \<in> set (on_subscriptions (nodes ?s' n))" and m: "mentions u (callback (snd e))"
    from e have "e \<in> set (on_subscriptions (nodes s n))" "(n, fst e) \<notin> unsub_on U"
      by (simp_all add: del_def)
    with assms m show False unfolding covered_def by blast
  qed
  have 2: "\<forall>n. \<forall>e\<in>set (map_subscriptions (nodes ?s' n)). \<not> mentions u (callback (snd e))"
  proof (intro allI ballI notI)
    fix n e assume e: "e \<in> set (map_subscriptions (nodes ?s' n))" and m: "mentions u (callback (snd e))"
    from e have "e \<in> set (map_subscriptions (nodes s n))" "(n, fst e) \<notin> unsub_map U s"
      by (simp_all add: del_def)
    with assms m show False unfolding covered_def by blast
  qed
  have 3: "\<forall>a\<in>set (adapter_subs ?s'). \<not> mentions u (as_callback (snd a))"
  proof (intro ballI notI)
    fix a assume a: "a \<in> set (adapter_subs ?s')" and m: "mentions u (as_callback (snd a))"
    from a have "a \<in> set (adapter_subs s)" "fst a \<notin> unsub_regs U s"
      by (simp_all add: del_def)
    with assms m show False unfolding covered_def by blast
  qed
  from 1 2 3 have "ufree u ?s'" unfolding ufree_def by blast
  then show ?thesis by (simp add: call_unsub_del)
qed

lemma heard_call_unsub [simp]: "heard u (call_unsub U s) = heard u s"
  by (simp add: heard_def call_unsub_del del_def)

lemma unsubscribed_silent:
  assumes "covered U u s1" "\<forall>a\<in>set before. allowed u a" "\<forall>a\<in>set after. allowed u a"
  shows "heard u (run after (call_unsub U (run before s1))) = heard u (run before s1)"
proof -
  have "covered U u (run before s1)" by (rule covered_run [OF assms(1,2)])
  then have "ufree u (call_unsub U (run before s1))" by (rule covered_unsub)
  from silent_run [OF this assms(3)] show ?thesis by simp
qed

subsection \<open>The cells of every run\<close>

definition any_callback :: "state \<Rightarrow> Callback \<Rightarrow> bool" where
  "any_callback s cb \<longleftrightarrow> True"

lemma pres_allocated: "(cells_allocated s \<Longrightarrow> cells_allocated s') \<Longrightarrow>
  pres cells_allocated any_callback s s'"
  by (simp add: pres_def any_callback_def)

lemma prims_allocated: "prims_ok cells_allocated any_callback"
proof (rule prims_okI)
  fix s s' :: state
  assume "shrinks s s'"
  then show "pres cells_allocated any_callback s s'"
    by (intro pres_allocated) (auto simp: shrinks_def tables_shrink_def intro: same_cells_allocated)
next
  fix s k b v p t un
  show "pres cells_allocated any_callback s (s\<lparr>log := log s @ [\<lparr>d_callback = k, d_value = v,
      d_path = p, d_updatedAt = t, d_unsubscribe = un\<rparr>]\<rparr>)"
    by (intro pres_allocated) (simp add: cells_allocated_def)
qed

lemma allocated_open_directory:
  assumes "cells_allocated s"
  shows "cells_allocated (open_directory c cb r n v s)"
proof (cases c cb r n v s rule: open_directory_cases)
  case same
  with assms show ?thesis by simp
next
  case (opened m s')
  note A = open_sub_adds(1) [OF opened(1)]
  from adds_map_allocated [OF A assms] have G: "cells_allocated s'" .
  from A have "mu_cell m < next_cell s'" by (simp add: adds_map_def)
  with G have "cells_allocated
      (s'\<lparr>on_cells := (on_cells s')(c := (on_cells s' c)\<lparr>openUnsubscribe := Some m\<rparr>)\<rparr>)"
    by (auto simp: cells_allocated_def)
  with opened(4) show ?thesis by simp
qed

lemma allocated_open_child:
  assumes "cells_allocated s"
  shows "cells_allocated (open_child c cb r n k s)"
proof (cases c cb r n k s rule: open_child_cases)
  case same
  with assms show ?thesis by simp
next
  case (opened child s1 m s2)
  have "shrinks s s1" using shrinks_get [of s n k] opened(1) by simp
  then have G1: "cells_allocated s1"
    using assms by (auto simp: shrinks_def tables_shrink_def intro: same_cells_allocated)
  note A = open_sub_adds(1) [OF opened(2)]
  from adds_map_allocated [OF A G1] have G: "cells_allocated s2" .
  from A have m: "mu_cell m < next_cell s2" by (simp add: adds_map_def)
  have "cells_allocated (s2\<lparr>map_cells := (map_cells s2)(c := (map_cells s2 c)
      \<lparr>openUnsubs := map_set k m (openUnsubs (map_cells s2 c))\<rparr>)\<rparr>)"
    unfolding cells_allocated_def
  proof (intro conjI allI ballI impI)
    fix c' e
    assume e: "e \<in> set (openUnsubs (map_cells (s2\<lparr>map_cells := (map_cells s2)(c := (map_cells s2 c)
      \<lparr>openUnsubs := map_set k m (openUnsubs (map_cells s2 c))\<rparr>)\<rparr>) c'))"
    have "e = (k, m) \<or> e \<in> set (openUnsubs (map_cells s2 c'))"
      using e set_map_set [of k m "openUnsubs (map_cells s2 c)"] by (cases "c' = c") auto
    with G m show "mu_cell (snd e) < next_cell (s2\<lparr>map_cells := (map_cells s2)(c := (map_cells s2 c)
      \<lparr>openUnsubs := map_set k m (openUnsubs (map_cells s2 c))\<rparr>)\<rparr>)"
      unfolding cells_allocated_def by auto
  next
    fix c' m'
    assume "openUnsubscribe (on_cells (s2\<lparr>map_cells := (map_cells s2)(c := (map_cells s2 c)
      \<lparr>openUnsubs := map_set k m (openUnsubs (map_cells s2 c))\<rparr>)\<rparr>) c') = Some m'"
    with G show "mu_cell m' < next_cell (s2\<lparr>map_cells := (map_cells s2)(c := (map_cells s2 c)
      \<lparr>openUnsubs := map_set k m (openUnsubs (map_cells s2 c))\<rparr>)\<rparr>)"
      unfolding cells_allocated_def by auto
  qed
  with opened(4) show ?thesis by simp
qed

lemma engine_allocated: "engine_inv cells_allocated any_callback"
  unfolding engine_inv_def
proof (intro conjI)
  show "prims_ok cells_allocated any_callback" by (rule prims_allocated)
  show "opens_ok cells_allocated any_callback"
    unfolding opens_ok_def
    by (intro conjI allI impI pres_allocated allocated_open_directory allocated_open_child)
  show "unwraps any_callback" by (simp add: unwraps_def any_callback_def)
  show "tables_ok cells_allocated any_callback" by (simp add: tables_ok_def any_callback_def)
qed

lemma pres_allocated_perform: "pres cells_allocated any_callback s (perform a s)"
proof (cases a)
  case (AGet n key)
  then show ?thesis by (simp add: pres_get [OF prims_allocated])
next
  case (APut n v t e)
  then show ?thesis by (simp add: pres_put(1) [OF engine_allocated])
next
  case (AOn n cb riu r)
  obtain un s' where o: "on_sub n cb riu r s = (un, s')" by (cases "on_sub n cb riu r s")
  from on_sub_adds [OF o] obtain i ks where
    "adds_on n i (next_cell s) ks (LocalCallback (next_cell s) cb riu r n) s s'" by blast
  from adds_on_allocated [OF this] AOn o show ?thesis by (intro pres_allocated) simp
next
  case (AOnce n cb riu r)
  let ?s1 = "s\<lparr>next_cell := Suc (next_cell s),
      once_cells := (once_cells s)(next_cell s := \<lparr>resolved = False, promise = None\<rparr>)\<rparr>"
  obtain un s' where o: "on_sub n (OnceCb (next_cell s) cb) riu r ?s1 = (un, s')"
    by (cases "on_sub n (OnceCb (next_cell s) cb) riu r ?s1")
  from on_sub_adds [OF o] obtain i ks where
    A: "adds_on n i (next_cell ?s1) ks
       (LocalCallback (next_cell ?s1) (OnceCb (next_cell s) cb) riu r n) ?s1 s'" by blast
  have "cells_allocated s \<Longrightarrow> cells_allocated ?s1"
    by (auto simp: cells_allocated_def intro: less_SucI)
  with adds_on_allocated [OF A] AOnce o show ?thesis
    by (intro pres_allocated) (simp add: once_sub_def Let_def)
next
  case (AMap n cb r)
  obtain m s' where o: "map_sub n cb r s = (m, s')" by (cases "map_sub n cb r s")
  from adds_map_allocated [OF map_sub_adds(1) [OF o]] AMap o show ?thesis
    by (intro pres_allocated) simp
next
  case (AOpen n cb r)
  obtain m s' where o: "open_sub n cb r s = (m, s')" by (cases "open_sub n cb r s")
  from adds_map_allocated [OF open_sub_adds(1) [OF o]] AOpen o show ?thesis
    by (intro pres_allocated) simp
next
  case (ANotify k v path t unsub)
  then show ?thesis by (simp add: pres_adapter_notify [OF engine_allocated])
next
  case (ACall unsub)
  then show ?thesis by (simp add: pres_call_unsub [OF prims_allocated])
qed

text \<open>
  The two conditions on the state in which a subscription is made hold in every state
  that is reached from a new tree.
\<close>

lemma cells_allocated_init: "cells_allocated (init_state k)"
  by (simp add: cells_allocated_def init_state_def)

lemma ufree_init: "ufree u (init_state k)"
  by (simp add: ufree_def init_state_def new_fields_def)

lemma cells_allocated_run: "cells_allocated s \<Longrightarrow> cells_allocated (run as s)"
proof (induction as arbitrary: s)
  case Nil
  then show ?case by (simp add: run_def)
next
  case (Cons a as)
  from pres_allocated_perform [of s a] Cons.prems have "cells_allocated (perform a s)"
    by (simp add: pres_def)
  from Cons.IH [OF this] show ?case by (simp add: run_def)
qed

lemma ufree_run: "ufree u s \<Longrightarrow> \<forall>a\<in>set as. allowed u a \<Longrightarrow> ufree u (run as s)"
  using pres_run [of u "mute u (heard u s)" "other u", OF pres_mute_perform, of as s]
  by (simp add: pres_def mute_def)


section \<open>A subscription that is unsubscribed\<close>

text \<open>
  \<open>a.get('x')\<close>, then \<open>a.on(callback)\<close> with the default recursion 1. The adapter reports
  \<open>{}\<close> for \<open>/a\<close>, which opens the nested subscription, and \<open>a.get('x').put(1, 2)\<close> reaches
  the callback through it.
\<close>

definition tree_x :: state where
  "tree_x = snd (get node_a ''x'' tree_a)"

definition listening :: "Unsubscribe \<times> state" where
  "listening = on_sub node_a (User 7 Returns) False 1 tree_x"

definition before_unsubscribe :: "action list" where
  "before_unsubscribe =
     [ANotify 0 (JObj []) ''/a'' (Some 1) (AdapterUnsub 0), APut node_x (JNum 1) 2 None]"

definition after_unsubscribe :: "action list" where
  "after_unsubscribe =
     [APut node_x (JNum 5) 3 None, ANotify 0 (JNum 9) ''/a'' (Some 4) (AdapterUnsub 0),
      ANotify 1 (JNum 3) ''/a/x'' (Some 5) (AdapterUnsub 1)]"

lemmas run_defs = run_def adapter_notify_def heard_def node_x_def

lemma listening_unsubscribe: "fst listening = UnsubscribeAll node_a 0 0 [0]"
  by (simp add: listening_def tree_x_def eval_defs)

lemma heard_before_unsubscribe: "map d_value (heard 7 (run before_unsubscribe (snd listening))) = [JObj [(''x'', JNum 1)]]"
  by (simp add: listening_def tree_x_def before_unsubscribe_def run_defs eval_defs)

lemma heard_without_unsubscribe: "map d_value (heard 7 (run after_unsubscribe (run before_unsubscribe (snd listening)))) =
   [JObj [(''x'', JNum 1)], JObj [(''x'', JNum 5)], JNum 9, JObj [(''x'', JNum 3)]]"
  by (simp add: listening_def tree_x_def before_unsubscribe_def after_unsubscribe_def run_defs eval_defs)

lemma tree_x_fresh: "ufree 7 tree_x" "cells_allocated tree_x"
  by (simp_all add: ufree_def cells_allocated_def tree_x_def eval_defs)

section \<open>Unsubscribing\<close>

text \<open>
  C6. A caller subscribes its callback \<open>u\<close> with \<open>on\<close> or with \<open>map\<close>, with any
  recursion, in a state where no table holds \<open>u\<close> yet, and gets the unsubscribe function
  \<open>U\<close>. Whatever is done then (\<open>before\<close>: reads, writes, other subscriptions,
  notifications from the adapters, calls of unsubscribe functions), once \<open>U\<close> is called,
  calling it again changes nothing, and whatever is done afterwards (\<open>after\<close>), \<open>u\<close> is
  not invoked again: not by \<open>notifyChange\<close> or by the \<open>map_subscriptions\<close> loop of a
  \<open>put\<close>, not by an adapter, and not through an \<open>open\<close> subscription that \<open>localCallback\<close>
  or \<open>cb\<close> of \<open>map\<close> started, at any depth.

  The other subscriptions are made with other callbacks (\<open>allowed\<close>). The state in which
  the subscription is made has \<open>cells_allocated\<close>, as every state reached from a new tree
  has (\<open>cells_allocated_init\<close>, \<open>cells_allocated_run\<close>); \<open>ufree_init\<close> and \<open>ufree_run\<close> say
  the same of \<open>ufree\<close>, as long as \<open>u\<close> is not subscribed.
\<close>

theorem unsubscribe_idempotent_and_silent:
  assumes "ufree u s" and "cells_allocated s"
    and "on_sub n (User u b) returnIfUndefined r s = (U, s1) \<or>
         (\<exists>m. map_sub n (User u b) r s = (m, s1) \<and> U = MapUnsubscribe m)"
    and "\<forall>a\<in>set before. allowed u a" and "\<forall>a\<in>set after. allowed u a"
  shows "call_unsub U (call_unsub U (run before s1)) = call_unsub U (run before s1) \<and>
         heard u (run after (call_unsub U (run before s1))) = heard u (run before s1)"
proof -
  from assms(3) have "covered U u s1"
  proof
    assume "on_sub n (User u b) returnIfUndefined r s = (U, s1)"
    from covered_on_sub [OF assms(1,2) this] show ?thesis by simp
  next
    assume "\<exists>m. map_sub n (User u b) r s = (m, s1) \<and> U = MapUnsubscribe m"
    then obtain m where "map_sub n (User u b) r s = (m, s1)" "U = MapUnsubscribe m" by blast
    with covered_map_sub [OF assms(1,2), of n "User u b" r m s1] show ?thesis by simp
  qed
  from unsubscribed_silent [OF this assms(4,5)] call_unsub_idem show ?thesis by simp
qed

theorem unsubscribe_idempotent_and_silent_witness:
  "ufree 7 tree_x \<and> cells_allocated tree_x \<and>
   fst listening = UnsubscribeAll node_a 0 0 [0] \<and>
   map d_value (heard 7 (run before_unsubscribe (snd listening))) = [JObj [(''x'', JNum 1)]] \<and>
   map d_value (heard 7 (run after_unsubscribe (run before_unsubscribe (snd listening)))) =
     [JObj [(''x'', JNum 1)], JObj [(''x'', JNum 5)], JNum 9, JObj [(''x'', JNum 3)]] \<and>
   map d_value (heard 7 (run after_unsubscribe
      (call_unsub (fst listening) (run before_unsubscribe (snd listening))))) =
     [JObj [(''x'', JNum 1)]] \<and>
   call_unsub (fst listening)
      (call_unsub (fst listening) (run before_unsubscribe (snd listening))) =
     call_unsub (fst listening) (run before_unsubscribe (snd listening))"
proof -
  have sub: "on_sub node_a (User 7 Returns) False 1 tree_x = (fst listening, snd listening) \<or>
      (\<exists>m. map_sub node_a (User 7 Returns) 1 tree_x = (m, snd listening) \<and>
         fst listening = MapUnsubscribe m)"
    by (simp add: listening_def)
  have b: "\<forall>a\<in>set before_unsubscribe. allowed 7 a" by (simp add: before_unsubscribe_def)
  have a: "\<forall>a\<in>set after_unsubscribe. allowed 7 a" by (simp add: after_unsubscribe_def)
  note th = unsubscribe_idempotent_and_silent [OF tree_x_fresh sub b a]
  from th have "heard 7 (run after_unsubscribe
      (call_unsub (fst listening) (run before_unsubscribe (snd listening)))) =
      heard 7 (run before_unsubscribe (snd listening))" by simp
  with th tree_x_fresh listening_unsubscribe heard_before_unsubscribe heard_without_unsubscribe
  show ?thesis by simp
qed

end
